(* ===== verification/Prelude.thy ===== *)
theory Prelude
  imports Main "HOL-Library.AList" "HOL-Library.Multiset" "HOL-Library.Char_ord"
    "HOL-Library.List_Lexorder"
begin

text \<open>
  What every component of the development shares: Go's error values, its maps with string keys
  (association lists in insertion order), \<open>sort.Slice\<close>, and the lemma collections the component
  theories extend. Go's \<open>string\<close> is a byte sequence and so is HOL's: a character is one byte, and
  the order of Library theory \<open>List_Lexorder\<close> over \<open>Char_ord\<close> is Go's bytewise \<open><\<close>.
\<close>

named_theorems go_sort \<open>facts on sort.Slice: permutation, membership, order\<close>
named_theorems go_map \<open>lookups after updates of a Go map\<close>

subsection \<open>Errors\<close>

text \<open>
  A Go \<open>error\<close> is a sentinel such as \<open>ErrInvalidVersion\<close>, a message made on the spot, or an error
  wrapped under a prefix by \<open>fmt.Errorf("...: %w", err)\<close>. A function returning \<open>(T, error)\<close> is a
  function into \<open>err + 'a\<close>: \<open>Inl\<close> is the non-nil error.
\<close>

datatype err = Sentinel string | Msg string | Wrap string err

type_synonym 'a res = "err + 'a"

text \<open>\<open>errors.Is\<close>: the error itself or something it wraps.\<close>

fun err_is :: "err \<Rightarrow> err \<Rightarrow> bool" where
  "err_is (Wrap p e) t = (Wrap p e = t \<or> err_is e t)"
| "err_is e t = (e = t)"

text \<open>\<open>Error()\<close>: a wrapped error prints after its prefix.\<close>

fun err_text :: "err \<Rightarrow> string" where
  "err_text (Sentinel s) = s"
| "err_text (Msg s) = s"
| "err_text (Wrap p e) = p @ '': '' @ err_text e"

subsection \<open>Maps\<close>

text \<open>
  A Go map is an association list with distinct keys, in insertion order. Go's \<open>range\<close> over a map
  takes the keys in no particular order; a model that ranges takes the list's order, and the
  theorems about it either quantify over the list or show that the order does not matter.
\<close>

type_synonym ('k, 'v) gomap = "('k \<times> 'v) list"

abbreviation put :: "'k \<Rightarrow> 'v \<Rightarrow> ('k, 'v) gomap \<Rightarrow> ('k, 'v) gomap" where
  "put \<equiv> AList.update"

definition getd :: "'v \<Rightarrow> ('k, 'v) gomap \<Rightarrow> 'k \<Rightarrow> 'v" where
  "getd d m k = (case map_of m k of None \<Rightarrow> d | Some v \<Rightarrow> v)"

definition keys :: "('k, 'v) gomap \<Rightarrow> 'k list" where
  "keys m = List.map fst m"

definition has_key :: "('k, 'v) gomap \<Rightarrow> 'k \<Rightarrow> bool" where
  "has_key m k \<longleftrightarrow> map_of m k \<noteq> None"

lemma getd_Nil [simp]: "getd d [] k = d"
  by (simp add: getd_def)

lemma getd_put [simp, go_map]: "getd d (put k v m) k' = (if k' = k then v else getd d m k')"
  by (simp add: getd_def update_conv')

lemma keys_Nil [simp]: "keys [] = []"
  by (simp add: keys_def)

lemma set_keys_put [simp, go_map]: "set (keys (put k v m)) = insert k (set (keys m))"
  by (induction m) (auto simp: keys_def)

lemma distinct_keys_put [go_map]: "distinct (keys m) \<Longrightarrow> distinct (keys (put k v m))"
  by (simp add: keys_def distinct_update)

lemma has_key_iff [go_map]: "has_key m k \<longleftrightarrow> k \<in> set (keys m)"
  by (simp add: has_key_def keys_def map_of_eq_None_iff)

lemma getd_notin [go_map]: "k \<notin> set (keys m) \<Longrightarrow> getd d m k = d"
  by (metis getd_def has_key_def has_key_iff option.simps(4))

text \<open>A Go set \<open>map[K]bool\<close> is the list of its members, each once, in insertion order.\<close>

definition set_add :: "'a \<Rightarrow> 'a list \<Rightarrow> 'a list" where
  "set_add x xs = (if x \<in> set xs then xs else xs @ [x])"

lemma set_set_add [simp]: "set (set_add x xs) = insert x (set xs)"
  by (auto simp: set_add_def)

lemma distinct_set_add [simp]: "distinct (set_add x xs) = distinct xs"
  by (auto simp: set_add_def)

definition collect :: "'a list \<Rightarrow> 'a list" where
  "collect xs = foldl (\<lambda>acc x. set_add x acc) [] xs"

lemma foldl_set_add:
  "set (foldl (\<lambda>acc x. set_add x acc) a xs) = set a \<union> set xs"
  "distinct (foldl (\<lambda>acc x. set_add x acc) a xs) = distinct a"
  by (induction xs arbitrary: a) auto

lemma set_collect [simp]: "set (collect xs) = set xs"
  by (simp add: collect_def foldl_set_add)

lemma distinct_collect [simp]: "distinct (collect xs)"
  by (simp add: collect_def foldl_set_add)

lemma length_collect: "length (collect xs) = card (set xs)"
  using distinct_card [of "collect xs"] by simp

text \<open>A loop that skips some elements and appends something for the others.\<close>

lemma map_filter_Cons [simp]:
  "List.map_filter f [] = []"
  "List.map_filter f (x # xs) = (case f x of None \<Rightarrow> List.map_filter f xs | Some y \<Rightarrow> y # List.map_filter f xs)"
  by (simp_all add: List.map_filter_def split: option.splits)

lemma set_map_filter: "set (List.map_filter f xs) = {y. \<exists>x \<in> set xs. f x = Some y}"
  by (induction xs) (auto split: option.splits)

subsection \<open>sort.Slice\<close>

text \<open>
  \<open>sort.Slice(xs, less)\<close> leaves a permutation of \<open>xs\<close> that \<open>lt\<close> orders, in an unspecified order
  among elements neither of which is less. The model is insertion sort, which is what Go's pdqsort
  runs on slices of at most twelve elements. What the components use of it is the contract of the
  locale \<open>slice_order\<close>: when \<open>lt\<close> is a strict weak order the result is a sorted permutation.
\<close>

fun insert_by :: "('a \<Rightarrow> 'a \<Rightarrow> bool) \<Rightarrow> 'a \<Rightarrow> 'a list \<Rightarrow> 'a list" where
  "insert_by lt x [] = [x]"
| "insert_by lt x (y # ys) = (if lt y x then y # insert_by lt x ys else x # y # ys)"

fun sort_slice :: "('a \<Rightarrow> 'a \<Rightarrow> bool) \<Rightarrow> 'a list \<Rightarrow> 'a list" where
  "sort_slice lt [] = []"
| "sort_slice lt (x # xs) = insert_by lt x (sort_slice lt xs)"

lemma mset_insert_by [simp]: "mset (insert_by lt x ys) = add_mset x (mset ys)"
  by (induction ys) auto

lemma mset_sort_slice [simp, go_sort]: "mset (sort_slice lt xs) = mset xs"
  by (induction xs) auto

lemma set_insert_by [simp]: "set (insert_by lt x ys) = insert x (set ys)"
  by (induction ys) auto

lemma set_sort_slice [simp, go_sort]: "set (sort_slice lt xs) = set xs"
  by (induction xs) auto

lemma length_sort_slice [simp, go_sort]: "length (sort_slice lt xs) = length xs"
  by (metis mset_sort_slice size_mset)

lemma distinct_sort_slice [simp, go_sort]: "distinct (sort_slice lt xs) = distinct xs"
  by (metis mset_sort_slice mset_eq_imp_distinct_iff)

lemma sort_slice_Nil_iff [simp]: "sort_slice lt xs = [] \<longleftrightarrow> xs = []"
  by (metis length_0_conv length_sort_slice)

text \<open>
  The contract, for comparisons that are a strict weak order on the elements satisfying \<open>ok\<close>.
  \<open>ok\<close> is there because some comparisons of the code are an order only on well-formed values.
\<close>

locale slice_order =
  fixes lt :: "'a \<Rightarrow> 'a \<Rightarrow> bool" and ok :: "'a \<Rightarrow> bool"
  assumes asym: "ok x \<Longrightarrow> ok y \<Longrightarrow> lt x y \<Longrightarrow> \<not> lt y x"
    and neg_trans: "ok x \<Longrightarrow> ok y \<Longrightarrow> ok z \<Longrightarrow> \<not> lt x y \<Longrightarrow> \<not> lt y z \<Longrightarrow> \<not> lt x z"
begin

lemma sorted_insert_by:
  assumes "ok x" and "\<And>y. y \<in> set ys \<Longrightarrow> ok y"
    and "sorted_wrt (\<lambda>a b. \<not> lt b a) ys"
  shows "sorted_wrt (\<lambda>a b. \<not> lt b a) (insert_by lt x ys)"
  using assms
proof (induction ys)
  case Nil
  then show ?case by simp
next
  case (Cons y ys)
  show ?case
  proof (cases "lt y x")
    case True
    then show ?thesis using Cons asym by auto
  next
    case False
    have "\<not> lt z x" if "z \<in> set ys" for z
      using Cons.prems False that neg_trans [of z y x] by auto
    then show ?thesis using Cons False by auto
  qed
qed

lemma sorted_sort_slice:
  assumes "\<And>x. x \<in> set xs \<Longrightarrow> ok x"
  shows "sorted_wrt (\<lambda>a b. \<not> lt b a) (sort_slice lt xs)"
  using assms by (induction xs) (auto intro!: sorted_insert_by)

text \<open>A comparison that decides between any two elements leaves only one sorted permutation.\<close>

lemma sorted_unique:
  assumes dec: "\<And>x y. x \<in> set xs \<Longrightarrow> y \<in> set xs \<Longrightarrow> x = y \<or> lt x y \<or> lt y x"
    and "mset xs = mset ys"
    and "sorted_wrt (\<lambda>a b. \<not> lt b a) xs" and "sorted_wrt (\<lambda>a b. \<not> lt b a) ys"
  shows "xs = ys"
  using assms
proof (induction xs arbitrary: ys)
  case Nil
  then show ?case by simp
next
  case (Cons x xs)
  then obtain y zs where ys: "ys = y # zs"
    by (cases ys) auto
  have sets: "set (x # xs) = set (y # zs)"
    using Cons.prems(2) unfolding ys by (metis set_mset_mset)
  have "x = y"
  proof (rule ccontr)
    assume ne: "x \<noteq> y"
    have "x \<in> set (y # zs)" "y \<in> set (x # xs)" using sets by auto
    with ne have "x \<in> set zs" "y \<in> set xs" by auto
    with Cons.prems(3,4) ys have "\<not> lt y x" "\<not> lt x y" by auto
    with Cons.prems(1) [of x y] \<open>y \<in> set xs\<close> ne show False by auto
  qed
  moreover have "xs = zs"
  proof (rule Cons.IH)
    show "\<And>a b. a \<in> set xs \<Longrightarrow> b \<in> set xs \<Longrightarrow> a = b \<or> lt a b \<or> lt b a"
      using Cons.prems(1) by simp
    show "mset xs = mset zs" using Cons.prems(2) ys \<open>x = y\<close> by simp
    show "sorted_wrt (\<lambda>a b. \<not> lt b a) xs" "sorted_wrt (\<lambda>a b. \<not> lt b a) zs"
      using Cons.prems(3,4) ys by auto
  qed
  ultimately show ?case using ys by simp
qed

end

text \<open>Ordering by a key into a linear order is such a comparison.\<close>

lemma slice_order_key: "slice_order (\<lambda>a b. f a < (f b :: 'k :: linorder)) (\<lambda>_. True)"
  by unfold_locales auto

text \<open>\<open>sort.Strings\<close>.\<close>

definition sort_strings :: "string list \<Rightarrow> string list" where
  "sort_strings xs = sort_slice (<) xs"

interpretation by_string: slice_order "(<) :: string \<Rightarrow> string \<Rightarrow> bool" "\<lambda>_. True"
  by unfold_locales auto

lemma set_sort_strings [simp]: "set (sort_strings xs) = set xs"
  by (simp add: sort_strings_def)

lemma distinct_sort_strings [simp]: "distinct (sort_strings xs) = distinct xs"
  by (simp add: sort_strings_def)

lemma length_sort_strings [simp]: "length (sort_strings xs) = length xs"
  by (simp add: sort_strings_def)

lemma sorted_sort_strings [go_sort]: "sorted (sort_strings xs)"
  using by_string.sorted_sort_slice [of xs] by (simp add: sort_strings_def not_less)

text \<open>
  The sorted list of a set of strings is determined by the set: what a caller sees after
  \<open>sort.Strings\<close> does not depend on the order a map was ranged over.
\<close>

lemma sort_strings_unique:
  assumes "distinct xs" "distinct ys" "set xs = set ys"
  shows "sort_strings xs = sort_strings ys"
proof (rule sorted_distinct_set_unique)
  show "sorted (sort_strings xs)" "sorted (sort_strings ys)"
    by (rule sorted_sort_strings)+
qed (use assms in simp_all)

end
