(* ===== verification/GoText.thy ===== *)
theory GoText
  imports Prelude
begin

text \<open>
  The functions of Go's \<open>strings\<close> and \<open>strconv\<close> packages the program calls, on byte strings:
  prefixes and suffixes, \<open>IndexByte\<close>, \<open>LastIndex\<close>, \<open>Split\<close>, \<open>Join\<close>, \<open>Cut\<close>, \<open>Fields\<close>, \<open>TrimSpace\<close>,
  \<open>Trim\<close> with a cutset, \<open>ParseUint\<close> and \<open>FormatUint\<close> in base ten. An index that Go reports as -1 is
  \<open>None\<close>. The lemmas are the ones parsers need: what a split joins back to, that trimming leaves a
  text without outer white space alone, and that a printed number reads back.
\<close>

subsection \<open>Prefixes, suffixes, positions\<close>

definition has_prefix :: "string \<Rightarrow> string \<Rightarrow> bool" where
  "has_prefix p s \<longleftrightarrow> take (length p) s = p"

definition has_suffix :: "string \<Rightarrow> string \<Rightarrow> bool" where
  "has_suffix p s \<longleftrightarrow> has_prefix (rev p) (rev s)"

definition trim_prefix :: "string \<Rightarrow> string \<Rightarrow> string" where
  "trim_prefix p s = (if has_prefix p s then drop (length p) s else s)"

definition trim_suffix :: "string \<Rightarrow> string \<Rightarrow> string" where
  "trim_suffix p s = (if has_suffix p s then take (length s - length p) s else s)"

fun index_byte :: "char \<Rightarrow> string \<Rightarrow> nat option" where
  "index_byte c [] = None"
| "index_byte c (x # xs) = (if x = c then Some 0 else map_option Suc (index_byte c xs))"

text \<open>\<open>strings.Index\<close> and \<open>strings.LastIndex\<close> of a substring.\<close>

fun index_str :: "string \<Rightarrow> string \<Rightarrow> nat option" where
  "index_str p [] = (if p = [] then Some 0 else None)"
| "index_str p (x # xs) =
     (if has_prefix p (x # xs) then Some 0 else map_option Suc (index_str p xs))"

fun last_index :: "string \<Rightarrow> string \<Rightarrow> nat option" where
  "last_index p [] = (if p = [] then Some 0 else None)"
| "last_index p (x # xs) =
     (case last_index p xs of
        Some i \<Rightarrow> Some (Suc i)
      | None \<Rightarrow> if has_prefix p (x # xs) then Some 0 else None)"

definition contains_str :: "string \<Rightarrow> string \<Rightarrow> bool" where
  "contains_str s p \<longleftrightarrow> index_str p s \<noteq> None"

text \<open>\<open>strings.Cut\<close>: the text before and after the first separator, or no separator.\<close>

definition cut_str :: "string \<Rightarrow> string \<Rightarrow> (string \<times> string) option" where
  "cut_str s sep =
     (case index_str sep s of
        None \<Rightarrow> None
      | Some i \<Rightarrow> Some (take i s, drop (i + length sep) s))"

lemma has_prefix_append [simp]: "has_prefix p (p @ s)"
  by (simp add: has_prefix_def)

lemma has_prefix_iff: "has_prefix p s \<longleftrightarrow> (\<exists>t. s = p @ t)"
  by (metis append_take_drop_id has_prefix_append has_prefix_def)

lemma has_suffix_iff: "has_suffix p s \<longleftrightarrow> (\<exists>t. s = t @ p)"
  by (metis has_prefix_iff has_suffix_def rev_append rev_rev_ident)

lemma has_prefix_Nil [simp]: "has_prefix [] s"
  by (simp add: has_prefix_def)

lemma has_prefix_Cons [simp]:
  "has_prefix (c # p) [] = False"
  "has_prefix (c # p) (x # xs) = (x = c \<and> has_prefix p xs)"
  by (auto simp: has_prefix_def)

lemma trim_prefix_append [simp]: "trim_prefix p (p @ s) = s"
  by (simp add: trim_prefix_def)

lemma index_byte_None_iff: "index_byte c s = None \<longleftrightarrow> c \<notin> set s"
  by (induction s) auto

lemma index_byte_Some:
  "index_byte c s = Some i \<Longrightarrow> i < length s \<and> s ! i = c \<and> c \<notin> set (take i s)"
  by (induction s arbitrary: i) (auto split: if_splits)

lemma index_byte_split:
  "index_byte c s = Some i \<Longrightarrow> s = take i s @ c # drop (Suc i) s"
  by (metis id_take_nth_drop index_byte_Some)

lemma index_byte_append: "c \<notin> set a \<Longrightarrow> index_byte c (a @ c # b) = Some (length a)"
  by (induction a) auto

lemma last_index_byte_None_iff: "last_index [c] s = None \<longleftrightarrow> c \<notin> set s"
  by (induction s) (auto split: option.splits)

lemma last_index_byte_append: "c \<notin> set b \<Longrightarrow> last_index [c] (a @ c # b) = Some (length a)"
proof (induction a)
  case Nil
  then have "last_index [c] b = None" by (simp add: last_index_byte_None_iff)
  then show ?case by simp
qed simp

lemma last_index_byte_Some:
  "last_index [c] s = Some i \<Longrightarrow>
     i < length s \<and> s = take i s @ c # drop (Suc i) s \<and> c \<notin> set (drop (Suc i) s)"
proof (induction s arbitrary: i)
  case (Cons x xs)
  then show ?case
    by (auto split: option.splits if_splits simp: last_index_byte_None_iff)
qed simp

subsection \<open>Split and Join\<close>

function split_acc :: "string \<Rightarrow> string \<Rightarrow> string \<Rightarrow> string list" where
  "split_acc sep acc s =
     (case s of
        [] \<Rightarrow> [rev acc]
      | c # cs \<Rightarrow>
          if sep \<noteq> [] \<and> has_prefix sep s then rev acc # split_acc sep [] (drop (length sep) s)
          else split_acc sep (c # acc) cs)"
  by pat_completeness auto
termination
  by (relation "measure (\<lambda>(sep, acc, s). length s)") auto

declare split_acc.simps [simp del]

definition split_str :: "string \<Rightarrow> string \<Rightarrow> string list" where
  "split_str s sep = split_acc sep [] s"

fun join_str :: "string \<Rightarrow> string list \<Rightarrow> string" where
  "join_str sep [] = []"
| "join_str sep [x] = x"
| "join_str sep (x # y # zs) = x @ sep @ join_str sep (y # zs)"

lemma split_acc_Nil [simp]: "split_acc sep acc [] = [rev acc]"
  by (simp add: split_acc.simps)

lemma split_acc_byte [simp]:
  "split_acc [c] acc (x # xs) =
     (if x = c then rev acc # split_acc [c] [] xs else split_acc [c] (x # acc) xs)"
  by (simp add: split_acc.simps [of "[c]" acc "x # xs"])

lemma split_acc_nonempty [simp]: "split_acc sep acc s \<noteq> []"
proof (induction sep acc s rule: split_acc.induct)
  case (1 sep acc s)
  then show ?case by (subst split_acc.simps) (auto split: list.splits)
qed

lemma split_str_nonempty [simp]: "split_str s sep \<noteq> []"
  by (simp add: split_str_def)

lemma join_Cons: "xs \<noteq> [] \<Longrightarrow> join_str sep (x # xs) = x @ sep @ join_str sep xs"
  by (cases xs) auto

lemma join_split_acc: "join_str sep (split_acc sep acc s) = rev acc @ s"
proof (induction sep acc s rule: split_acc.induct)
  case (1 sep acc s)
  show ?case
  proof (cases s)
    case Nil
    then show ?thesis by (simp add: split_acc.simps)
  next
    case (Cons c cs)
    show ?thesis
    proof (cases "sep \<noteq> [] \<and> has_prefix sep s")
      case True
      then have "s = sep @ drop (length sep) s"
        by (auto simp: has_prefix_iff)
      then show ?thesis
        using 1(1) [OF Cons True] Cons True
        by (subst split_acc.simps) (simp add: join_Cons)
    next
      case False
      then show ?thesis
        using 1(2) [OF Cons False] Cons False by (subst split_acc.simps) auto
    qed
  qed
qed

text \<open>Joining what \<open>Split\<close> returned gives the text back, for any separator.\<close>

lemma join_split: "join_str sep (split_str s sep) = s"
  by (simp add: split_str_def join_split_acc)

lemma split_acc_byte_free:
  "c \<notin> set s \<Longrightarrow> split_acc [c] acc (s @ t) = split_acc [c] (rev s @ acc) t"
  by (induction s arbitrary: acc) auto

text \<open>Splitting a join gives the parts back when no part holds the separator.\<close>

lemma split_join_byte:
  assumes "xs \<noteq> []" and "\<And>x. x \<in> set xs \<Longrightarrow> c \<notin> set x"
  shows "split_str (join_str [c] xs) [c] = xs"
  unfolding split_str_def using assms
proof (induction xs rule: list_nonempty_induct)
  case (single x)
  then show ?case using split_acc_byte_free [of c x "[]" "[]"] by simp
next
  case (cons x xs)
  have "c \<notin> set x" using cons.prems by simp
  then have "split_acc [c] [] (x @ c # join_str [c] xs) = x # split_acc [c] [] (join_str [c] xs)"
    using split_acc_byte_free [of c x "[]" "c # join_str [c] xs"] by simp
  then show ?case using cons by (simp add: join_Cons)
qed

text \<open>No part of a split on one byte holds that byte.\<close>

lemma split_acc_byte_parts:
  "x \<in> set (split_acc [c] acc s) \<Longrightarrow> c \<notin> set acc \<Longrightarrow> c \<notin> set x"
proof (induction s arbitrary: acc)
  case (Cons a s)
  show ?case
  proof (cases "a = c")
    case True
    with Cons.prems have "x = rev acc \<or> x \<in> set (split_acc [c] [] s)" by simp
    then show ?thesis using Cons.IH [of "[]"] Cons.prems(2) by auto
  next
    case False
    with Cons.prems show ?thesis using Cons.IH [of "a # acc"] by auto
  qed
qed simp

lemma split_byte_parts: "x \<in> set (split_str s [c]) \<Longrightarrow> c \<notin> set x"
  using split_acc_byte_parts [of x c "[]" s] by (simp add: split_str_def)

lemma split_acc_chars:
  "x \<in> set (split_acc [c] acc s) \<Longrightarrow> set x \<subseteq> set acc \<union> set s"
  by (induction s arbitrary: acc) (fastforce split: if_splits)+

lemma split_chars: "x \<in> set (split_str s [c]) \<Longrightarrow> set x \<subseteq> set s"
  using split_acc_chars [of x c "[]" s] by (simp add: split_str_def)

subsection \<open>White space\<close>

text \<open>
  \<open>unicode.IsSpace\<close> on UTF-8: the encodings of the white space code points. A text starts with a
  space rune exactly when it starts with one of these byte sequences, and ends with one exactly
  when it ends with one, because none of them can begin inside another valid encoding.
\<close>

definition space_encodings :: "string list" where
  "space_encodings =
     [[CHR 0x09], [CHR 0x0A], [CHR 0x0B], [CHR 0x0C], [CHR 0x0D], [CHR 0x20],
      [CHR 0xC2, CHR 0x85], [CHR 0xC2, CHR 0xA0], [CHR 0xE1, CHR 0x9A, CHR 0x80],
      [CHR 0xE2, CHR 0x80, CHR 0x80], [CHR 0xE2, CHR 0x80, CHR 0x81],
      [CHR 0xE2, CHR 0x80, CHR 0x82], [CHR 0xE2, CHR 0x80, CHR 0x83],
      [CHR 0xE2, CHR 0x80, CHR 0x84], [CHR 0xE2, CHR 0x80, CHR 0x85],
      [CHR 0xE2, CHR 0x80, CHR 0x86], [CHR 0xE2, CHR 0x80, CHR 0x87],
      [CHR 0xE2, CHR 0x80, CHR 0x88], [CHR 0xE2, CHR 0x80, CHR 0x89],
      [CHR 0xE2, CHR 0x80, CHR 0x8A], [CHR 0xE2, CHR 0x80, CHR 0xA8],
      [CHR 0xE2, CHR 0x80, CHR 0xA9], [CHR 0xE2, CHR 0x80, CHR 0xAF],
      [CHR 0xE2, CHR 0x81, CHR 0x9F], [CHR 0xE3, CHR 0x80, CHR 0x80]]"

definition lead_space :: "string list \<Rightarrow> string \<Rightarrow> nat" where
  "lead_space encs s = (case find (\<lambda>e. has_prefix e s) encs of None \<Rightarrow> 0 | Some e \<Rightarrow> length e)"

function trim_lead :: "string list \<Rightarrow> string \<Rightarrow> string" where
  "trim_lead encs s =
     (if s = [] \<or> lead_space encs s = 0 then s else trim_lead encs (drop (lead_space encs s) s))"
  by pat_completeness auto
termination
  by (relation "measure (\<lambda>(e, s). length s)") auto

declare trim_lead.simps [simp del]

definition trim_space :: "string \<Rightarrow> string" where
  "trim_space s =
     rev (trim_lead (List.map rev space_encodings) (rev (trim_lead space_encodings s)))"

function fields_acc :: "string \<Rightarrow> string \<Rightarrow> string list" where
  "fields_acc acc s =
     (case s of
        [] \<Rightarrow> if acc = [] then [] else [rev acc]
      | c # cs \<Rightarrow>
          let n = lead_space space_encodings s in
          if n > 0 then (if acc = [] then [] else [rev acc]) @ fields_acc [] (drop n s)
          else fields_acc (c # acc) cs)"
  by pat_completeness auto
termination
  by (relation "measure (\<lambda>(acc, s). length s)") auto

declare fields_acc.simps [simp del]

definition fields :: "string \<Rightarrow> string list" where
  "fields s = fields_acc [] s"

text \<open>\<open>strings.Trim\<close> with a cutset of ASCII bytes.\<close>

definition trim_chars :: "string \<Rightarrow> string \<Rightarrow> string" where
  "trim_chars cutset s =
     rev (dropWhile (\<lambda>c. c \<in> set cutset) (rev (dropWhile (\<lambda>c. c \<in> set cutset) s)))"

text \<open>A byte that is part of no white space encoding.\<close>

definition plain_char :: "char \<Rightarrow> bool" where
  "plain_char c \<longleftrightarrow> c \<notin> set (concat space_encodings)"

lemma lead_space_plain:
  assumes "\<And>e. e \<in> set encs \<Longrightarrow> e \<noteq> [] \<and> c \<notin> set e"
  shows "lead_space encs (c # cs) = 0"
proof -
  have "\<not> has_prefix e (c # cs)" if "e \<in> set encs" for e
    using assms [OF that] by (cases e) auto
  then have "find (\<lambda>e. has_prefix e (c # cs)) encs = None"
    by (auto simp: find_None_iff)
  then show ?thesis by (simp add: lead_space_def)
qed

lemma encodings_plain:
  assumes "plain_char c" "e \<in> set space_encodings" shows "e \<noteq> [] \<and> c \<notin> set e"
  using assms by (auto simp: plain_char_def space_encodings_def)

lemma trim_lead_plain:
  assumes "\<And>e. e \<in> set encs \<Longrightarrow> e \<noteq> [] \<and> c \<notin> set e"
  shows "trim_lead encs (c # cs) = c # cs"
  using lead_space_plain [OF assms] by (simp add: trim_lead.simps)

lemma trim_space_plain:
  assumes "s \<noteq> []" "plain_char (hd s)" "plain_char (last s)"
  shows "trim_space s = s"
proof -
  obtain c cs where s: "s = c # cs" using assms(1) by (cases s) auto
  have 1: "trim_lead space_encodings s = s"
    unfolding s by (rule trim_lead_plain) (use assms(2) s in \<open>auto dest: encodings_plain\<close>)
  obtain d ds where r: "rev s = d # ds" using assms(1) by (cases "rev s") auto
  then have d: "plain_char d" using assms(3) by (metis hd_rev list.sel(1))
  have 2: "trim_lead (List.map rev space_encodings) (rev s) = rev s"
    unfolding r by (rule trim_lead_plain) (use d in \<open>auto dest: encodings_plain\<close>)
  show ?thesis by (simp add: trim_space_def 1 2)
qed

lemma trim_space_Nil [simp]: "trim_space [] = []"
  by (simp add: trim_space_def trim_lead.simps)

lemma fields_acc_plain:
  "list_all plain_char s \<Longrightarrow> fields_acc acc s = (if rev acc @ s = [] then [] else [rev acc @ s])"
proof (induction s arbitrary: acc)
  case Nil
  then show ?case by (simp add: fields_acc.simps)
next
  case (Cons c cs)
  have "lead_space space_encodings (c # cs) = 0"
    by (rule lead_space_plain) (use Cons.prems in \<open>auto dest: encodings_plain\<close>)
  then show ?case using Cons by (simp add: fields_acc.simps [of acc "c # cs"])
qed

text \<open>A text without white space is its only field.\<close>

lemma fields_plain: "list_all plain_char s \<Longrightarrow> s \<noteq> [] \<Longrightarrow> fields s = [s]"
  by (simp add: fields_def fields_acc_plain)

subsection \<open>Decimal numbers\<close>

definition is_digit :: "char \<Rightarrow> bool" where
  "is_digit c \<longleftrightarrow> CHR ''0'' \<le> c \<and> c \<le> CHR ''9''"

definition digit_val :: "char \<Rightarrow> nat" where
  "digit_val c = of_char c - 48"

definition digits_val :: "string \<Rightarrow> nat" where
  "digits_val s = foldl (\<lambda>n c. 10 * n + digit_val c) 0 s"

text \<open>\<open>strconv.ParseUint(s, 10, 64)\<close>: \<open>None\<close> is the error of a syntax or range failure.\<close>

definition parse_uint :: "string \<Rightarrow> nat option" where
  "parse_uint s =
     (if s = [] \<or> \<not> list_all is_digit s then None
      else if digits_val s < 2 ^ 64 then Some (digits_val s) else None)"

definition digit_char :: "nat \<Rightarrow> char" where
  "digit_char n = char_of (48 + n)"

fun utoa :: "nat \<Rightarrow> string" where
  "utoa n = (if n < 10 then [digit_char n] else utoa (n div 10) @ [digit_char (n mod 10)])"

declare utoa.simps [simp del]

text \<open>\<open>strconv.FormatInt(i, 10)\<close>.\<close>

definition itoa :: "int \<Rightarrow> string" where
  "itoa i = (if i < 0 then CHR ''-'' # utoa (nat (- i)) else utoa (nat i))"

lemma is_digit_iff: "is_digit c \<longleftrightarrow> 48 \<le> (of_char c :: nat) \<and> (of_char c :: nat) \<le> 57"
  by (simp add: is_digit_def less_eq_char_def)

lemma of_digit_char [simp]: "n < 10 \<Longrightarrow> (of_char (digit_char n) :: nat) = 48 + n"
  by (simp add: digit_char_def)

lemma is_digit_digit_char [simp]: "n < 10 \<Longrightarrow> is_digit (digit_char n)"
  by (simp add: is_digit_iff)

lemma digit_val_digit_char [simp]: "n < 10 \<Longrightarrow> digit_val (digit_char n) = n"
  by (simp add: digit_val_def)

lemma utoa_digits: "list_all is_digit (utoa n)"
proof (induction n rule: utoa.induct)
  case (1 n)
  then show ?case by (subst utoa.simps) auto
qed

lemma utoa_free: "\<not> is_digit c \<Longrightarrow> c \<notin> set (utoa n)"
  using utoa_digits [of n] by (auto simp: list_all_iff)

lemma utoa_nonempty [simp]: "utoa n \<noteq> []"
  by (subst utoa.simps) auto

lemma digits_val_snoc: "digits_val (s @ [c]) = 10 * digits_val s + digit_val c"
  by (simp add: digits_val_def)

lemma digits_val_utoa [simp]: "digits_val (utoa n) = n"
proof (induction n rule: utoa.induct)
  case (1 n)
  then show ?case
    by (subst utoa.simps) (auto simp: digits_val_snoc, simp add: digits_val_def)
qed

text \<open>A printed number reads back.\<close>

lemma parse_utoa: "n < 2 ^ 64 \<Longrightarrow> parse_uint (utoa n) = Some n"
  by (simp add: parse_uint_def utoa_digits)

lemma utoa_hd_zero: "hd (utoa n) = CHR ''0'' \<Longrightarrow> n = 0"
proof (induction n rule: utoa.induct)
  case (1 n)
  show ?case
  proof (cases "n < 10")
    case True
    with 1 have "digit_char n = CHR ''0''" by (simp add: utoa.simps [of n])
    then have "(of_char (digit_char n) :: nat) = of_char (CHR ''0'')" by simp
    with True show ?thesis by simp
  next
    case False
    then have "hd (utoa n) = hd (utoa (n div 10))" by (simp add: utoa.simps [of n])
    with 1 False have "n div 10 = 0" by simp
    with False show ?thesis by simp
  qed
qed

lemma utoa_no_leading_zero: "length (utoa n) > 1 \<Longrightarrow> hd (utoa n) \<noteq> CHR ''0''"
proof
  assume l: "length (utoa n) > 1" and "hd (utoa n) = CHR ''0''"
  then have "n = 0" by (simp add: utoa_hd_zero)
  with l show False by (simp add: utoa.simps)
qed

lemma digit_plain: "is_digit c \<Longrightarrow> plain_char c"
  by (auto simp: is_digit_iff plain_char_def space_encodings_def)

end
