(* ===== verification/Interval.thy ===== *)
theory Interval
  imports Prelude
begin

text \<open>
  Validity intervals and interval sets: \<open>internal/graph/interval.go\<close> and
  \<open>internal/query/interval.go\<close>. Instants are Unix seconds; an \<open>int64\<close> is an \<open>int\<close> here because
  the operations only compare instants, take minima and maxima, add one or sum widths, far from
  the bounds of the type. A \<open>Set\<close> is a list of intervals. \<open>span\<close> is the set of instants it stands
  for and \<open>wf_set\<close> is what its comment promises: sorted, maximal, no two members touching.
\<close>

record interval =
  ifrom :: int
  ito :: int

text \<open>\<open>graph.OpenInterval\<close>, 2100-01-01.\<close>

definition open_interval :: int where
  "open_interval = 4102444800"

text \<open>
  \<open>graph.Timestamp\<close>. A \<open>time.Time\<close> is its nanosecond offset from the Unix epoch; the zero time is
  the first instant of year 1, and \<open>Unix\<close> rounds down to a second.
\<close>

type_synonym gotime = int

definition zero_time :: gotime where
  "zero_time = - 62135596800 * 10 ^ 9"

definition timestamp :: "gotime \<Rightarrow> int" where
  "timestamp t = (if t = zero_time then 0 else t div 10 ^ 9)"

definition always :: interval where
  "always = \<lparr>ifrom = 0, ito = open_interval\<rparr>"

definition at_instant :: "int \<Rightarrow> interval" where
  "at_instant t = \<lparr>ifrom = t, ito = t + 1\<rparr>"

definition iv_empty :: "interval \<Rightarrow> bool" where
  "iv_empty i \<longleftrightarrow> ifrom i \<ge> ito i"

definition intersect :: "interval \<Rightarrow> interval \<Rightarrow> interval" where
  "intersect i j = \<lparr>ifrom = max (ifrom i) (ifrom j), ito = min (ito i) (ito j)\<rparr>"

definition iv_contains :: "interval \<Rightarrow> int \<Rightarrow> bool" where
  "iv_contains i t \<longleftrightarrow> t \<ge> ifrom i \<and> t < ito i"

subsection \<open>Sets of intervals\<close>

type_synonym iset = "interval list"

text \<open>The walk of \<open>Covers\<close>: \<open>i\<close> is what still needs cover, consumed from the left.\<close>

fun covers_from :: "iset \<Rightarrow> interval \<Rightarrow> bool" where
  "covers_from [] i = False"
| "covers_from (h # hs) i =
     (if ito h \<le> ifrom i then covers_from hs i
      else if ifrom h > ifrom i then False
      else if ito h \<ge> ito i then True
      else covers_from hs (i\<lparr>ifrom := ito h\<rparr>))"

definition covers :: "iset \<Rightarrow> interval \<Rightarrow> bool" where
  "covers s i = (if iv_empty i then True else covers_from s i)"

text \<open>The loop of \<open>Insert\<close>: members that do not touch the growing \<open>merged\<close> are kept.\<close>

fun insert_loop :: "iset \<Rightarrow> iset \<Rightarrow> interval \<Rightarrow> iset \<times> interval" where
  "insert_loop [] out m = (out, m)"
| "insert_loop (h # hs) out m =
     (if ito h < ifrom m \<or> ifrom h > ito m then insert_loop hs (out @ [h]) m
      else insert_loop hs out
             \<lparr>ifrom = min (ifrom m) (ifrom h), ito = max (ito m) (ito h)\<rparr>)"

definition insert_iv :: "iset \<Rightarrow> interval \<Rightarrow> iset \<times> bool" where
  "insert_iv s i =
     (if iv_empty i \<or> covers s i then (s, False)
      else let (out, m) = insert_loop s [] i
           in (sort_slice (\<lambda>a b. ifrom a < ifrom b) (out @ [m]), True))"

definition width :: "iset \<Rightarrow> int" where
  "width s = foldl (\<lambda>total i. total + (ito i - ifrom i)) 0 s"

definition earliest :: "iset \<Rightarrow> int" where
  "earliest s = (if s = [] then 0 else ifrom (hd s))"

subsection \<open>What a set stands for\<close>

definition instants :: "interval \<Rightarrow> int set" where
  "instants i = {t. ifrom i \<le> t \<and> t < ito i}"

definition span :: "iset \<Rightarrow> int set" where
  "span s = (\<Union>i \<in> set s. instants i)"

definition wf_set :: "iset \<Rightarrow> bool" where
  "wf_set s \<longleftrightarrow> sorted_wrt (\<lambda>a b. ito a < ifrom b) s \<and> (\<forall>i \<in> set s. \<not> iv_empty i)"

lemma span_simps [simp]: "span [] = {}" "span (h # hs) = instants h \<union> span hs"
  by (auto simp: span_def)

lemma instants_empty_iff: "instants i = {} \<longleftrightarrow> iv_empty i"
  by (force simp: instants_def iv_empty_def)

lemma instants_intersect [simp]: "instants (intersect i j) = instants i \<inter> instants j"
  by (auto simp: instants_def intersect_def)

lemma instants_at [simp]: "instants (at_instant t) = {t}"
  by (auto simp: instants_def at_instant_def)

lemma iv_contains_iff: "iv_contains i t \<longleftrightarrow> t \<in> instants i"
  by (auto simp: iv_contains_def instants_def)

lemma wf_set_Nil [simp]: "wf_set []"
  by (simp add: wf_set_def)

lemma wf_set_Cons:
  "wf_set (h # hs) \<longleftrightarrow> \<not> iv_empty h \<and> (\<forall>b \<in> set hs. ito h < ifrom b) \<and> wf_set hs"
  by (auto simp: wf_set_def)

lemma span_right: "(\<And>b. b \<in> set hs \<Longrightarrow> c < ifrom b) \<Longrightarrow> t \<in> span hs \<Longrightarrow> c < t"
  by (force simp: span_def instants_def)

lemma wf_span_right: "wf_set (h # hs) \<Longrightarrow> t \<in> span hs \<Longrightarrow> ito h < t"
  by (rule span_right) (auto simp: wf_set_Cons)

lemma covers_from_iff:
  assumes "wf_set s" "\<not> iv_empty i"
  shows "covers_from s i \<longleftrightarrow> instants i \<subseteq> span s"
  using assms
proof (induction s i rule: covers_from.induct)
  case (1 i)
  then show ?case by (simp add: instants_empty_iff)
next
  case (2 h hs i)
  have wf: "wf_set hs" and right: "\<And>t. t \<in> span hs \<Longrightarrow> ito h < t"
    using 2(3) wf_span_right by (auto simp: wf_set_Cons)
  have ne: "ifrom i \<in> instants i" using 2(4) by (auto simp: instants_def iv_empty_def)
  consider (left) "ito h \<le> ifrom i" | (gap) "ito h > ifrom i" "ifrom h > ifrom i"
    | (all) "ito h > ifrom i" "ifrom h \<le> ifrom i" "ito h \<ge> ito i"
    | (part) "ito h > ifrom i" "ifrom h \<le> ifrom i" "ito h < ito i"
    by linarith
  then show ?case
  proof cases
    case left
    then have "instants i \<inter> instants h = {}" by (auto simp: instants_def)
    then have "instants i \<subseteq> span (h # hs) \<longleftrightarrow> instants i \<subseteq> span hs" by auto
    then show ?thesis using 2(1) left wf 2(4) by simp
  next
    case gap
    then have "ifrom i \<notin> span (h # hs)" using right by (force simp: instants_def)
    then show ?thesis using gap ne by auto
  next
    case all
    then have "instants i \<subseteq> instants h" by (auto simp: instants_def)
    then show ?thesis using all by auto
  next
    case part
    let ?j = "i\<lparr>ifrom := ito h\<rparr>"
    have j: "\<not> iv_empty ?j" using part by (simp add: iv_empty_def)
    have split: "instants i \<subseteq> instants h \<union> instants ?j" "instants ?j \<subseteq> instants i"
      "instants ?j \<inter> instants h = {}"
      using part by (auto simp: instants_def)
    then have "instants i \<subseteq> span (h # hs) \<longleftrightarrow> instants ?j \<subseteq> span hs" by auto
    then show ?thesis using 2(2) part wf j by simp
  qed
qed

text \<open>\<open>Covers\<close> decides containment of instants.\<close>

lemma covers_iff: "wf_set s \<Longrightarrow> covers s i \<longleftrightarrow> instants i \<subseteq> span s"
  using covers_from_iff [of s i] instants_empty_iff [of i] by (auto simp: covers_def)

subsection \<open>Insert keeps the set maximal\<close>

definition apart :: "iset \<Rightarrow> bool" where
  "apart xs \<longleftrightarrow> (\<forall>a \<in> set xs. \<forall>b \<in> set xs. a \<noteq> b \<longrightarrow> ito a < ifrom b \<or> ito b < ifrom a)"

lemma wf_set_from_sorted:
  assumes "sorted_wrt (\<lambda>a b. ifrom a \<le> ifrom b) xs" "distinct xs" "apart xs"
    and "\<And>i. i \<in> set xs \<Longrightarrow> \<not> iv_empty i"
  shows "wf_set xs"
  using assms
proof (induction xs)
  case (Cons x xs)
  have "ito x < ifrom b" if "b \<in> set xs" for b
    using Cons.prems that by (force simp: apart_def iv_empty_def)
  moreover have "wf_set xs"
    using Cons by (simp add: apart_def)
  ultimately show ?case using Cons.prems(4) by (simp add: wf_set_Cons)
qed simp

text \<open>The loop's invariant: what it kept is apart from what it is still merging.\<close>

definition loop_ok :: "iset \<Rightarrow> interval \<Rightarrow> bool" where
  "loop_ok out m \<longleftrightarrow> distinct out \<and> apart out \<and> \<not> iv_empty m \<and>
     (\<forall>q \<in> set out. \<not> iv_empty q \<and> (ito q < ifrom m \<or> ito m < ifrom q))"

lemma loop_ok_keep:
  assumes "loop_ok out m" "\<not> iv_empty h" "ito h < ifrom m \<or> ifrom h > ito m"
    and right: "\<forall>q \<in> set out. ito q < ifrom h"
  shows "loop_ok (out @ [h]) m"
proof -
  have "h \<notin> set out" using right assms(2) by (force simp: iv_empty_def)
  moreover have "apart (out @ [h])" using assms(1) right by (auto simp: loop_ok_def apart_def)
  ultimately show ?thesis using assms by (auto simp: loop_ok_def)
qed

lemma loop_ok_merge:
  assumes "loop_ok out m" "\<not> iv_empty h" "\<not> (ito h < ifrom m \<or> ifrom h > ito m)"
    and "\<forall>q \<in> set out. ito q < ifrom h"
  defines "m' \<equiv> \<lparr>ifrom = min (ifrom m) (ifrom h), ito = max (ito m) (ito h)\<rparr>"
  shows "loop_ok out m'" and "instants m' = instants m \<union> instants h"
proof -
  have "ito q < ifrom m' \<or> ito m' < ifrom q" if "q \<in> set out" for q
    using assms that by (force simp: loop_ok_def iv_empty_def)
  then show "loop_ok out m'" using assms(1) by (auto simp: loop_ok_def m'_def iv_empty_def)
  show "instants m' = instants m \<union> instants h"
    using assms(1-3) by (auto simp: m'_def loop_ok_def instants_def iv_empty_def)
qed

lemma insert_loop_inv:
  assumes "insert_loop hs out m = (out', m')" "wf_set hs" "loop_ok out m"
    and "\<forall>q \<in> set out. \<forall>h \<in> set hs. ito q < ifrom h"
  shows "loop_ok out' m' \<and> span out' \<union> instants m' = span out \<union> instants m \<union> span hs"
  using assms
proof (induction hs out m rule: insert_loop.induct)
  case (1 out m)
  then show ?case by auto
next
  case (2 h hs out m)
  have wf: "wf_set hs" "\<not> iv_empty h" "\<forall>b \<in> set hs. ito h < ifrom b"
    and right: "\<forall>q \<in> set out. ito q < ifrom h"
    using 2(4,6) by (auto simp: wf_set_Cons)
  show ?case
  proof (cases "ito h < ifrom m \<or> ifrom h > ito m")
    case True
    have "loop_ok out' m' \<and> span out' \<union> instants m' = span (out @ [h]) \<union> instants m \<union> span hs"
      using 2(1) [OF True _ wf(1) loop_ok_keep [OF 2(5) wf(2) True right]] 2(3,6) True wf(3)
      by auto
    then show ?thesis by (auto simp: span_def)
  next
    case False
    note merge = loop_ok_merge [OF 2(5) wf(2) False right]
    show ?thesis
      using 2(2) [OF False _ wf(1) merge(1)] 2(3,6) False merge(2) by auto
  qed
qed

lemma slice_order_from: "slice_order (\<lambda>a b. ifrom a < ifrom b) (\<lambda>_. True)"
  by (rule slice_order_key)

interpretation by_from: slice_order "\<lambda>a b. ifrom a < ifrom b" "\<lambda>_. True"
  by (rule slice_order_from)

text \<open>
  \<open>Insert\<close> adds exactly the instants of the interval, keeps the set sorted and maximal, and reports
  an addition exactly when some instant is new.
\<close>

lemma insert_iv_correct:
  assumes "wf_set s"
  shows "wf_set (fst (insert_iv s i)) \<and> span (fst (insert_iv s i)) = span s \<union> instants i \<and>
    snd (insert_iv s i) = (\<not> instants i \<subseteq> span s)"
proof (cases "iv_empty i \<or> covers s i")
  case True
  then have "instants i \<subseteq> span s" using covers_iff [OF assms] instants_empty_iff by auto
  then show ?thesis using True assms by (auto simp: insert_iv_def)
next
  case False
  obtain out m where loop: "insert_loop s [] i = (out, m)" by fastforce
  have ok: "loop_ok out m \<and> span out \<union> instants m = span [] \<union> instants i \<union> span s"
    by (rule insert_loop_inv [OF loop assms]) (use False in \<open>auto simp: loop_ok_def apart_def\<close>)
  note inv = ok [unfolded loop_ok_def]
  let ?r = "sort_slice (\<lambda>a b. ifrom a < ifrom b) (out @ [m])"
  have "m \<notin> set out" using inv by (force simp: iv_empty_def)
  then have d: "distinct ?r" using inv by simp
  have a: "apart ?r" using inv by (auto simp: apart_def)
  have "sorted_wrt (\<lambda>a b. ifrom a \<le> ifrom b) ?r"
    using by_from.sorted_sort_slice [of "out @ [m]"] by (simp add: not_less)
  then have "wf_set ?r"
    by (rule wf_set_from_sorted) (use d a inv in auto)
  moreover have "span ?r = span s \<union> instants i" using inv by (auto simp: span_def)
  ultimately show ?thesis using False covers_iff [OF assms] loop by (simp add: insert_iv_def)
qed

lemmas wf_insert_iv = insert_iv_correct [THEN conjunct1]
lemmas span_insert_iv = insert_iv_correct [THEN conjunct2, THEN conjunct1]
lemmas added_insert_iv = insert_iv_correct [THEN conjunct2, THEN conjunct2]

text \<open>Insertion of a list of intervals, as the callers that merge spans do it.\<close>

definition insert_all :: "iset \<Rightarrow> interval list \<Rightarrow> iset" where
  "insert_all s ivs = foldl (\<lambda>acc i. fst (insert_iv acc i)) s ivs"

lemma insert_all_simps [simp]:
  "insert_all s [] = s" "insert_all s (i # ivs) = insert_all (fst (insert_iv s i)) ivs"
  by (simp_all add: insert_all_def)

lemma insert_all_correct:
  "wf_set s \<Longrightarrow> wf_set (insert_all s ivs) \<and> span (insert_all s ivs) = span s \<union> span ivs"
  by (induction ivs arbitrary: s) (auto simp: wf_insert_iv span_insert_iv)

subsection \<open>The set is canonical\<close>

lemma wf_first:
  assumes "wf_set (h # hs)"
  shows "ifrom h \<in> span (h # hs)" "\<And>t. t \<in> span (h # hs) \<Longrightarrow> ifrom h \<le> t"
    and "ito h \<notin> span (h # hs)" "\<And>t. ifrom h \<le> t \<Longrightarrow> t < ito h \<Longrightarrow> t \<in> span (h # hs)"
proof -
  note right = wf_span_right [OF assms]
  have ne: "ifrom h < ito h" using assms by (simp add: wf_set_Cons iv_empty_def)
  then show "ifrom h \<in> span (h # hs)" by (simp add: instants_def)
  show "ifrom h \<le> t" if "t \<in> span (h # hs)" for t
    using that right [of t] ne by (auto simp: instants_def)
  show "ito h \<notin> span (h # hs)" using right [of "ito h"] by (auto simp: instants_def)
  show "t \<in> span (h # hs)" if "ifrom h \<le> t" "t < ito h" for t
    using that by (simp add: instants_def)
qed

lemma wf_span_empty: "wf_set s \<Longrightarrow> span s = {} \<longleftrightarrow> s = []"
  by (cases s) (auto simp del: span_simps(2) dest: wf_first(1))

text \<open>Two well-formed sets over the same instants are the same list.\<close>

lemma wf_set_canonical:
  assumes "wf_set s" "wf_set s'" "span s = span s'"
  shows "s = s'"
  using assms
proof (induction s arbitrary: s')
  case Nil
  then show ?case using wf_span_empty [of s'] by simp
next
  case (Cons h hs)
  then obtain k ks where s': "s' = k # ks"
    by (cases s') (use wf_first(1) in force)+
  note eq = Cons.prems(3) [unfolded s']
  note F = wf_first [OF Cons.prems(1)] and G = wf_first [OF Cons.prems(2) [unfolded s']]
  have fst_eq: "ifrom h = ifrom k" using F(1,2) G(1,2) eq by (metis order_antisym)
  have ne: "ifrom h < ito h" "ifrom k < ito k"
    using Cons.prems s' by (auto simp: wf_set_Cons iv_empty_def)
  have "\<not> ito h < ito k" using G(4) [of "ito h"] F(3) eq fst_eq ne by auto
  moreover have "\<not> ito k < ito h" using F(4) [of "ito k"] G(3) eq fst_eq ne by auto
  ultimately have hk: "h = k" using fst_eq by simp
  have "instants h \<inter> span hs = {}" "instants h \<inter> span ks = {}"
    using wf_span_right [OF Cons.prems(1)] wf_span_right [of k ks] Cons.prems(2) s' hk
    by (force simp: instants_def)+
  then have "span hs = span ks" using eq hk by auto
  then have "hs = ks" using Cons by (auto simp: wf_set_Cons s')
  then show ?case using hk s' by simp
qed

text \<open>Whatever order spans are merged in, the set is the same.\<close>

lemma insert_all_order:
  assumes "set ivs = set js" shows "insert_all [] ivs = insert_all [] js"
proof (rule wf_set_canonical)
  show "wf_set (insert_all [] ivs)" "wf_set (insert_all [] js)"
    by (simp_all add: insert_all_correct)
  show "span (insert_all [] ivs) = span (insert_all [] js)"
    using assms by (simp add: insert_all_correct) (simp add: span_def)
qed

subsection \<open>Width and Earliest\<close>

lemma finite_span [simp]: "finite (span s)"
proof -
  have "instants i = {ifrom i ..< ito i}" for i by (auto simp: instants_def)
  then show ?thesis by (simp add: span_def)
qed

lemma foldl_width:
  "foldl (\<lambda>total i. total + (ito i - ifrom i)) c s = c + (\<Sum>i\<leftarrow>s. ito i - ifrom i)"
  by (induction s arbitrary: c) auto

lemma width_card: "wf_set s \<Longrightarrow> width s = int (card (span s))"
proof (induction s)
  case Nil
  then show ?case by (simp add: width_def)
next
  case (Cons h hs)
  have i: "instants h = {ifrom h ..< ito h}" by (auto simp: instants_def)
  have "instants h \<inter> span hs = {}"
    using wf_span_right [OF Cons.prems] by (force simp: instants_def)
  then have "card (span (h # hs)) = card (instants h) + card (span hs)"
    by (simp add: card_Un_disjoint i)
  then show ?case using Cons by (auto simp: width_def foldl_width wf_set_Cons i iv_empty_def)
qed

lemma earliest_Min: "wf_set s \<Longrightarrow> s \<noteq> [] \<Longrightarrow> earliest s = Min (span s)"
  by (cases s) (auto simp: earliest_def intro!: Min_eqI [symmetric] simp del: span_simps dest: wf_first)

subsection \<open>The algebra of interval sets\<close>

text \<open>On a sorted set of maximal intervals, \<open>Insert\<close> adds exactly the instants of the interval, leaves a sorted
  set of maximal intervals no two of which touch, and reports an addition exactly when some instant was
  new; \<open>Covers\<close> decides whether every instant of an interval is in the set, and \<open>Width\<close> counts its instants.\<close>

theorem interval_set_algebra:
  assumes "wf_set s"
  shows "wf_set (fst (insert_iv s i)) \<and> span (fst (insert_iv s i)) = span s \<union> instants i
    \<and> snd (insert_iv s i) = (\<not> instants i \<subseteq> span s)
    \<and> covers s i = (instants i \<subseteq> span s)
    \<and> width s = int (card (span s))"
  using insert_iv_correct [OF assms] covers_iff [OF assms] width_card [OF assms] by blast

theorem interval_set_algebra_witness:
  "wf_set (fst (insert_iv [\<lparr>ifrom = 0, ito = 5\<rparr>, \<lparr>ifrom = 10, ito = 20\<rparr>] \<lparr>ifrom = 5, ito = 10\<rparr>))
   \<and> insert_iv [\<lparr>ifrom = 0, ito = 5\<rparr>, \<lparr>ifrom = 10, ito = 20\<rparr>] \<lparr>ifrom = 5, ito = 10\<rparr> = ([\<lparr>ifrom = 0, ito = 20\<rparr>], True)"
  using interval_set_algebra [of "[\<lparr>ifrom = 0, ito = 5\<rparr>, \<lparr>ifrom = 10, ito = 20\<rparr>]" "\<lparr>ifrom = 5, ito = 10\<rparr>"]
  by (simp add: wf_set_def iv_empty_def insert_iv_def covers_def)

text \<open>However the intervals are ordered or repeated, inserting them one by one ends in the same list: spans
  gathered by ranging over a Go map do not depend on the order of the range.\<close>

theorem merge_order_irrelevant:
  assumes "set ivs = set js" shows "insert_all [] ivs = insert_all [] js"
  using assms by (rule insert_all_order)

theorem merge_order_irrelevant_witness:
  "insert_all [] [\<lparr>ifrom = 0, ito = 5\<rparr>, \<lparr>ifrom = 5, ito = 9\<rparr>] = insert_all [] [\<lparr>ifrom = 5, ito = 9\<rparr>, \<lparr>ifrom = 0, ito = 5\<rparr>]"
  by (rule merge_order_irrelevant) auto

end
