(* ===== verification/Identity.thy ===== *)
theory Identity
  imports GoText "HOL-Library.Word"
begin

unbundle bit_operations_syntax

text \<open>
  Node and edge identity: \<open>internal/graph/id.go\<close>, and the two functions that take a version URN
  apart, \<open>PackageURNOf\<close> of \<open>internal/query/audit.go\<close> and \<open>splitVersionURN\<close> of
  \<open>cmd/keyholders/cicheck.go\<close>. The hash is computed on 64-bit words, whose multiplication wraps
  as Go's does.
\<close>

subsection \<open>The hash\<close>

definition fnv_offset64 :: "64 word" where
  "fnv_offset64 = 14695981039346656037"

definition fnv_prime64 :: "64 word" where
  "fnv_prime64 = 1099511628211"

definition non_neg_mask :: "64 word" where
  "non_neg_mask = 0x7FFFFFFFFFFFFFFF"

text \<open>One turn of the loop over the bytes of the URN; a byte is widened to 64 bits.\<close>

definition fnv_step :: "64 word \<Rightarrow> char \<Rightarrow> 64 word" where
  "fnv_step h c = (h XOR of_char c) * fnv_prime64"

definition fnv1a :: "string \<Rightarrow> 64 word" where
  "fnv1a urn = foldl fnv_step fnv_offset64 urn"

text \<open>\<open>ID\<close>: the mask clears the sign bit, so the conversion to \<open>int64\<close> is the unsigned value.\<close>

definition node_id :: "string \<Rightarrow> int" where
  "node_id urn = uint (fnv1a urn AND non_neg_mask)"

definition edge_id :: "string \<Rightarrow> string \<Rightarrow> string \<Rightarrow> string \<Rightarrow> int" where
  "edge_id src edge_type dst discriminator =
     node_id (src @ ''|'' @ edge_type @ ''|'' @ dst @ ''|'' @ discriminator)"

subsection \<open>URNs\<close>

definition package_urn :: "string \<Rightarrow> string \<Rightarrow> string" where
  "package_urn ecosystem name = ''pkg:'' @ ecosystem @ ''/'' @ name"

definition version_urn :: "string \<Rightarrow> string \<Rightarrow> string \<Rightarrow> string" where
  "version_urn ecosystem name version = ''pkg:'' @ ecosystem @ ''/'' @ name @ ''@'' @ version"

definition maintainer_urn :: "string \<Rightarrow> string \<Rightarrow> string" where
  "maintainer_urn ecosystem handle = ''mnt:'' @ ecosystem @ ''/'' @ handle"

definition advisory_urn :: "string \<Rightarrow> string" where
  "advisory_urn osv_id = ''osv:'' @ osv_id"

definition project_urn :: "string \<Rightarrow> string" where
  "project_urn name = ''prj:local/'' @ name"

text \<open>\<open>PackageURNOf\<close>: the empty string when the last \<open>@\<close> is missing or at the front.\<close>

definition package_urn_of :: "string \<Rightarrow> string" where
  "package_urn_of urn =
     (case last_index ''@'' urn of
        None \<Rightarrow> ''''
      | Some at \<Rightarrow> if at = 0 then '''' else take at urn)"

text \<open>\<open>splitVersionURN\<close>: \<open>None\<close> is a false \<open>ok\<close>.\<close>

definition split_version_urn :: "string \<Rightarrow> (string \<times> string) option" where
  "split_version_urn urn =
     (let pkg = package_urn_of urn in
      if pkg = '''' then None
      else let name = trim_prefix ''pkg:npm/'' pkg;
               version = trim_prefix (pkg @ ''@'') urn
           in if version = urn then None else Some (name, version))"

lemma package_urn_of_version_urn [simp]:
  assumes "CHR ''@'' \<notin> set version"
  shows "package_urn_of (version_urn ecosystem name version) = package_urn ecosystem name"
proof -
  have eq: "version_urn ecosystem name version = package_urn ecosystem name @ CHR ''@'' # version"
    by (simp add: version_urn_def package_urn_def)
  show ?thesis
    unfolding package_urn_of_def eq last_index_byte_append [OF assms]
    by (simp add: package_urn_def)
qed

text \<open>Taking a version URN apart gives back what it was built from.\<close>

lemma split_version_urn_version_urn:
  assumes "CHR ''@'' \<notin> set version"
  shows "split_version_urn (version_urn ''npm'' name version) = Some (name, version)"
proof -
  have eq: "version_urn ''npm'' name version = (package_urn ''npm'' name @ ''@'') @ version"
    by (simp add: version_urn_def package_urn_def)
  have pkg: "package_urn ''npm'' name = ''pkg:npm/'' @ name" by (simp add: package_urn_def)
  show ?thesis
    unfolding split_version_urn_def Let_def package_urn_of_version_urn [OF assms]
    by (simp add: pkg trim_prefix_def has_prefix_iff) (auto simp: eq pkg)
qed

lemma package_urn_inj [simp]: "package_urn e a = package_urn e b \<longleftrightarrow> a = b"
  by (simp add: package_urn_def)

lemma version_urn_inj:
  assumes "CHR ''@'' \<notin> set v" "CHR ''@'' \<notin> set w"
  shows "version_urn e n v = version_urn e m w \<longleftrightarrow> n = m \<and> v = w"
proof
  assume eq: "version_urn e n v = version_urn e m w"
  then have "package_urn e n = package_urn e m"
    by (metis assms package_urn_of_version_urn)
  with eq show "n = m \<and> v = w" by (auto simp: version_urn_def)
qed simp

lemma package_urn_of_SomeD:
  assumes "package_urn_of urn = p" "p \<noteq> []"
  obtains v where "urn = p @ CHR ''@'' # v" "CHR ''@'' \<notin> set v"
proof -
  obtain i where i: "last_index ''@'' urn = Some i" "p = take i urn"
    using assms by (auto simp: package_urn_of_def split: option.splits if_splits)
  from last_index_byte_Some [OF i(1)] i(2) that show thesis by metis
qed

subsection \<open>What the hash guarantees\<close>

lemma unat_of_char: "unat (of_char c :: 64 word) = of_char c"
proof -
  have "(of_char c :: nat) < 2 ^ LENGTH(64)"
    by (rule order_less_trans [OF nat_of_char_less_256]) simp
  moreover have "(of_char c :: 64 word) = of_nat (of_char c)" by (simp add: of_nat_of_char)
  ultimately show ?thesis by (metis of_nat_inverse)
qed

lemma take_bit_of_char: "take_bit 63 (of_char c :: 64 word) = take_bit 63 (of_char d) \<longleftrightarrow> c = d"
proof
  assume "take_bit 63 (of_char c :: 64 word) = take_bit 63 (of_char d)"
  then have "unat (take_bit 63 (of_char c :: 64 word)) = unat (take_bit 63 (of_char d :: 64 word))"
    by simp
  then have "take_bit 63 (of_char c :: nat) = take_bit 63 (of_char d)"
    by (simp only: unsigned_take_bit_eq unat_of_char)
  then have "(of_char c :: nat) mod 2 ^ 63 = of_char d mod 2 ^ 63"
    by (simp only: take_bit_eq_mod)
  then have "(of_char c :: nat) = of_char d"
    using nat_of_char_less_256 [of c] nat_of_char_less_256 [of d] by simp
  then show "c = d" by simp
qed simp

text \<open>The prime has an inverse modulo a power of two, so a turn loses nothing of the low 63 bits.\<close>

definition fnv_inverse :: "64 word" where
  "fnv_inverse = 14886173955864302971"

lemma fnv_prime_inverse: "fnv_prime64 * fnv_inverse = 1"
  by (simp add: fnv_prime64_def fnv_inverse_def)

lemma take_bit_mult_low: "take_bit 63 (take_bit 63 x * y) = take_bit 63 (x * y :: 64 word)"
  by transfer (simp add: take_bit_eq_mod mod_mult_left_eq)

lemma take_bit_mult_prime:
  "take_bit 63 (x * fnv_prime64) = take_bit 63 (y * fnv_prime64) \<longleftrightarrow> take_bit 63 x = take_bit 63 (y :: 64 word)"
proof
  assume eq: "take_bit 63 (x * fnv_prime64) = take_bit 63 (y * fnv_prime64)"
  have undo: "take_bit 63 (take_bit 63 (z * fnv_prime64) * fnv_inverse) = take_bit 63 z" for z
    by (simp add: take_bit_mult_low mult.assoc fnv_prime_inverse)
  show "take_bit 63 x = take_bit 63 y" using undo [of x] undo [of y] eq by simp
next
  assume eq: "take_bit 63 x = take_bit 63 y"
  then show "take_bit 63 (x * fnv_prime64) = take_bit 63 (y * fnv_prime64)"
    using take_bit_mult_low [of x fnv_prime64] take_bit_mult_low [of y fnv_prime64] by simp
qed

lemma take_bit_xor_cancel:
  "take_bit 63 (x XOR z) = take_bit 63 (y XOR z) \<longleftrightarrow> take_bit 63 x = take_bit 63 (y :: 64 word)"
proof
  assume "take_bit 63 (x XOR z) = take_bit 63 (y XOR z)"
  then have "take_bit 63 ((x XOR z) XOR z) = take_bit 63 ((y XOR z) XOR z)"
    by (simp only: take_bit_xor [of 63 "x XOR z" z] take_bit_xor [of 63 "y XOR z" z])
  then show "take_bit 63 x = take_bit 63 y" by (simp add: xor.assoc)
next
  assume "take_bit 63 x = take_bit 63 y"
  then show "take_bit 63 (x XOR z) = take_bit 63 (y XOR z)" by (simp add: take_bit_xor)
qed

lemma fnv_step_low:
  "take_bit 63 (fnv_step h c) = take_bit 63 (fnv_step k c) \<longleftrightarrow> take_bit 63 h = take_bit 63 k"
  "take_bit 63 (fnv_step h c) = take_bit 63 (fnv_step h d) \<longleftrightarrow> c = d"
proof -
  show "take_bit 63 (fnv_step h c) = take_bit 63 (fnv_step k c) \<longleftrightarrow> take_bit 63 h = take_bit 63 k"
    by (simp only: fnv_step_def take_bit_mult_prime take_bit_xor_cancel)
  show "take_bit 63 (fnv_step h c) = take_bit 63 (fnv_step h d) \<longleftrightarrow> c = d"
    by (simp only: fnv_step_def take_bit_mult_prime xor.commute [of h] take_bit_xor_cancel take_bit_of_char)
qed

lemma foldl_fnv_low:
  "take_bit 63 (foldl fnv_step h s) = take_bit 63 (foldl fnv_step k s) \<longleftrightarrow> take_bit 63 h = take_bit 63 k"
  by (induction s arbitrary: h k) (simp_all add: fnv_step_low)

lemma node_id_low: "node_id urn = uint (take_bit 63 (fnv1a urn))"
proof -
  have "non_neg_mask = mask 63" by (simp add: non_neg_mask_def mask_eq_exp_minus_1)
  then show ?thesis by (simp add: node_id_def take_bit_eq_mask)
qed

text \<open>\<open>ID\<close> always returns a non-negative \<open>int64\<close>, whatever the URN.\<close>

theorem node_id_range: "0 \<le> node_id urn \<and> node_id urn < 2 ^ 63"
proof -
  have "take_bit 63 (uint (fnv1a urn)) < 2 ^ 63" by (rule take_bit_int_less_exp)
  then show ?thesis by (simp add: node_id_low unsigned_take_bit_eq)
qed

lemma node_id_eq_iff: "node_id urn = node_id urn' \<longleftrightarrow> take_bit 63 (fnv1a urn) = take_bit 63 (fnv1a urn')"
  by (simp only: node_id_low unsigned_word_eqI word_uint_eq_iff)

text \<open>Two URNs of the same length that differ in one byte never share a node id: each turn of the
  hash is a bijection of the low 63 bits in either argument, so masking the sign bit off loses
  nothing of a single difference, wherever it stands.\<close>

theorem node_id_one_byte: "node_id (p @ c # s) = node_id (p @ d # s) \<longleftrightarrow> c = d"
  by (simp only: node_id_eq_iff fnv1a_def foldl_append foldl_Cons foldl_fnv_low fnv_step_low)

text \<open>The version URN of an npm version is taken apart into exactly the name and version it was
  built from, scoped names included, because the cut is at the last \<open>@\<close>; and two version URNs are
  equal only when name and version are.\<close>

theorem version_urn_roundtrip:
  assumes "CHR ''@'' \<notin> set v" and "CHR ''@'' \<notin> set w"
  shows "split_version_urn (version_urn ''npm'' n v) = Some (n, v)
    \<and> package_urn_of (version_urn eco n v) = package_urn eco n
    \<and> (version_urn eco n v = version_urn eco m w \<longleftrightarrow> n = m \<and> v = w)"
  using assms by (simp add: split_version_urn_version_urn version_urn_inj)

theorem version_urn_roundtrip_witness:
  "split_version_urn (version_urn ''npm'' ''@babel/core'' ''7.0.0'') = Some (''@babel/core'', ''7.0.0'')"
  using version_urn_roundtrip [of "''7.0.0''" "''7.0.0''" "''@babel/core''"] by simp

end
