(* ===== verification/Semver.thy ===== *)
theory Semver
  imports GoText "HOL-Library.Word" "HOL-Library.Product_Lexorder"
begin

text \<open>
  Semantic versions: \<open>internal/semver/version.go\<close>. The parser, the printer, and the comparison every
  resolution rests on. The comparison is related to a key in a linear order, and is shown to be a
  total preorder on the versions whose numeric prerelease identifiers have no leading zero.
\<close>

record version =
  major :: "64 word"
  minor :: "64 word"
  patch :: "64 word"
  pre :: "string list"
  build :: string

definition err_invalid_version :: err where
  "err_invalid_version = Sentinel ''invalid version''"

subsection \<open>Parsing\<close>

definition parse_numeric :: "string \<Rightarrow> (64 word) res" where
  "parse_numeric s =
     (if s = [] then Inl err_invalid_version
      else if length s > 1 \<and> hd s = CHR ''0'' then Inl err_invalid_version
      else case parse_uint s of
             None \<Rightarrow> Inl err_invalid_version
           | Some n \<Rightarrow> Inr (of_nat n))"

text \<open>The three numbers, left to right, stopping at the first that is not one.\<close>

fun parse_numbers :: "string list \<Rightarrow> (64 word list) res" where
  "parse_numbers [] = Inr []"
| "parse_numbers (p # ps) =
     (case parse_numeric p of
        Inl e \<Rightarrow> Inl e
      | Inr n \<Rightarrow> (case parse_numbers ps of Inl e \<Rightarrow> Inl e | Inr ns \<Rightarrow> Inr (n # ns)))"

text \<open>The build metadata is cut off at the first \<open>+\<close>, the prerelease at the first \<open>-\<close> of the rest.\<close>

definition cut_build :: "string \<Rightarrow> string \<times> string" where
  "cut_build s = (case index_byte (CHR ''+'') s of
     None \<Rightarrow> (s, []) | Some i \<Rightarrow> (take i s, drop (i + 1) s))"

definition cut_pre :: "string \<Rightarrow> (string \<times> string list) res" where
  "cut_pre s = (case index_byte (CHR ''-'') s of
     None \<Rightarrow> Inr (s, [])
   | Some i \<Rightarrow>
       let p = drop (i + 1) s in
       if p = [] then Inl err_invalid_version
       else let ids = split_str p ''.'' in
            if [] \<in> set ids then Inl err_invalid_version else Inr (take i s, ids))"

definition strip_version :: "string \<Rightarrow> string" where
  "strip_version s = trim_prefix ''='' (trim_prefix ''v'' (trim_space s))"

definition parse :: "string \<Rightarrow> version res" where
  "parse s =
     (let s1 = strip_version s in
      if s1 = [] then Inl err_invalid_version
      else let (s2, bld) = cut_build s1 in
        case cut_pre s2 of
          Inl e \<Rightarrow> Inl e
        | Inr (s3, ids) \<Rightarrow>
            let parts = split_str s3 ''.'' in
            if length parts \<noteq> 3 then Inl err_invalid_version
            else (case parse_numbers parts of
                Inl e \<Rightarrow> Inl e
              | Inr ns \<Rightarrow> Inr \<lparr>major = ns ! 0, minor = ns ! 1, patch = ns ! 2, pre = ids, build = bld\<rparr>))"

definition is_prerelease :: "version \<Rightarrow> bool" where
  "is_prerelease v \<longleftrightarrow> length (pre v) > 0"

subsection \<open>Comparing\<close>

definition cmp_uint :: "64 word \<Rightarrow> 64 word \<Rightarrow> int" where
  "cmp_uint a b = (if a < b then -1 else if a > b then 1 else 0)"

definition cmp_int :: "int \<Rightarrow> int \<Rightarrow> int" where
  "cmp_int a b = (if a < b then -1 else if a > b then 1 else 0)"

text \<open>\<open>None\<close> is a false second result.\<close>

definition numeric_ident :: "string \<Rightarrow> (64 word) option" where
  "numeric_ident s =
     (if s = [] \<or> \<not> list_all is_digit s then None else map_option of_nat (parse_uint s))"

text \<open>
  The loop of \<open>comparePre\<close>. It has passed the same number of identifiers of both lists, so comparing
  what is left of their lengths is comparing their lengths.
\<close>

fun compare_idents :: "string list \<Rightarrow> string list \<Rightarrow> int" where
  "compare_idents (x # xs) (y # ys) =
     (if x = y then compare_idents xs ys
      else case (numeric_ident x, numeric_ident y) of
          (Some an, Some bn) \<Rightarrow> cmp_uint an bn
        | (Some an, None) \<Rightarrow> -1
        | (None, Some bn) \<Rightarrow> 1
        | (None, None) \<Rightarrow> if x < y then -1 else 1)"
| "compare_idents xs ys = cmp_int (int (length xs)) (int (length ys))"

definition compare_pre :: "string list \<Rightarrow> string list \<Rightarrow> int" where
  "compare_pre a b =
     (if a = [] \<and> b = [] then 0 else if a = [] then 1 else if b = [] then -1
      else compare_idents a b)"

definition compare :: "version \<Rightarrow> version \<Rightarrow> int" where
  "compare v w =
     (if cmp_uint (major v) (major w) \<noteq> 0 then cmp_uint (major v) (major w)
      else if cmp_uint (minor v) (minor w) \<noteq> 0 then cmp_uint (minor v) (minor w)
      else if cmp_uint (patch v) (patch w) \<noteq> 0 then cmp_uint (patch v) (patch w)
      else compare_pre (pre v) (pre w))"

definition to_string :: "version \<Rightarrow> string" where
  "to_string v =
     utoa (unat (major v)) @ ''.'' @ utoa (unat (minor v)) @ ''.'' @ utoa (unat (patch v))
     @ (if length (pre v) > 0 then ''-'' @ join_str ''.'' (pre v) else [])
     @ (if build v \<noteq> [] then ''+'' @ build v else [])"

subsection \<open>Decimal text\<close>

lemma digit_char_val: "is_digit c \<Longrightarrow> digit_char (digit_val c) = c"
  by (simp add: is_digit_iff digit_char_def digit_val_def)

lemma digit_val_less: "is_digit c \<Longrightarrow> digit_val c < 10"
  by (simp only: is_digit_iff digit_val_def) arith

lemma digits_val_pos:
  assumes "list_all is_digit s" "s \<noteq> []" "hd s \<noteq> CHR ''0''" shows "digits_val s > 0"
  using assms
proof (induction s rule: rev_induct)
  case (snoc c s)
  show ?case
  proof (cases "s = []")
    case True
    have "digit_val c \<noteq> 0"
    proof
      assume "digit_val c = 0"
      with snoc.prems True have "(of_char c :: nat) = of_char (CHR ''0'')"
        by (simp add: is_digit_iff digit_val_def)
      then have "c = CHR ''0''" by (simp only: of_char_eq_iff)
      with snoc.prems True show False by simp
    qed
    with True show ?thesis by (simp add: digits_val_def)
  next
    case False
    with snoc show ?thesis by (simp add: digits_val_snoc)
  qed
qed simp

text \<open>A numeral without a leading zero is what its value prints as.\<close>

lemma utoa_digits_val:
  assumes "list_all is_digit s" "s \<noteq> []" "length s > 1 \<longrightarrow> hd s \<noteq> CHR ''0''"
  shows "utoa (digits_val s) = s"
  using assms
proof (induction s rule: rev_induct)
  case (snoc c s)
  show ?case
  proof (cases "s = []")
    case True
    with snoc.prems show ?thesis
      by (subst utoa.simps) (simp add: digits_val_def digit_val_less digit_char_val)
  next
    case False
    with snoc.prems have "hd s \<noteq> CHR ''0''" by (cases s) auto
    with snoc.prems False have "digits_val s > 0" by (auto intro!: digits_val_pos)
    moreover have "utoa (digits_val s) = s"
      using snoc.IH snoc.prems False \<open>hd s \<noteq> CHR ''0''\<close> by simp
    moreover have "digit_val c < 10" "digit_char (digit_val c) = c"
      using snoc.prems by (simp_all add: digit_val_less digit_char_val)
    ultimately show ?thesis
      by (subst utoa.simps) (simp add: digits_val_snoc)
  qed
qed simp

lemma parse_numeric_iff:
  "parse_numeric s = Inr w \<longleftrightarrow> s = utoa (unat w)"
proof
  assume "parse_numeric s = Inr w"
  then obtain n where n: "parse_uint s = Some n" "w = of_nat n" "s \<noteq> []"
    "length s > 1 \<longrightarrow> hd s \<noteq> CHR ''0''"
    by (auto simp: parse_numeric_def split: if_splits option.splits)
  then have "list_all is_digit s" "n = digits_val s" "n < 2 ^ 64"
    by (auto simp: parse_uint_def split: if_splits)
  then show "s = utoa (unat w)"
    using utoa_digits_val [of s] n by (simp add: unat_of_nat)
next
  assume s: "s = utoa (unat w)"
  have "unat w < 2 ^ LENGTH(64)" by (rule unsigned_less)
  then have "unat w < 2 ^ 64" by simp
  then show "parse_numeric s = Inr w"
    using s utoa_no_leading_zero [of "unat w"]
    by (simp add: parse_numeric_def parse_utoa)
qed


subsection \<open>Printing and parsing\<close>

text \<open>The versions the printer writes unambiguously.\<close>

definition printable :: "version \<Rightarrow> bool" where
  "printable v \<longleftrightarrow>
     (\<forall>p \<in> set (pre v). p \<noteq> [] \<and> CHR ''.'' \<notin> set p \<and> CHR ''+'' \<notin> set p)
     \<and> plain_char (last (to_string v))"

lemma cut_build_printed:
  "CHR ''+'' \<notin> set s \<Longrightarrow> cut_build (s @ (if b \<noteq> [] then ''+'' @ b else [])) = (s, b)"
  using index_byte_None_iff [of "CHR ''+''" s] by (auto simp: cut_build_def index_byte_append)

lemma set_join: "set (join_str sep xs) \<subseteq> set sep \<union> (\<Union>x \<in> set xs. set x)"
  by (induction sep xs rule: join_str.induct) auto

lemma join_str_eq_Nil: "join_str sep xs = [] \<Longrightarrow> x \<in> set xs \<Longrightarrow> x = []"
  by (induction sep xs rule: join_str.induct) auto

lemma cut_pre_printed:
  assumes "CHR ''-'' \<notin> set s" and "\<And>p. p \<in> set ids \<Longrightarrow> p \<noteq> [] \<and> CHR ''.'' \<notin> set p"
  shows "cut_pre (s @ (if length ids > 0 then ''-'' @ join_str ''.'' ids else [])) = Inr (s, ids)"
proof (cases "ids = []")
  case True
  have "index_byte (CHR ''-'') s = None" using assms(1) by (simp add: index_byte_None_iff)
  with True show ?thesis by (simp add: cut_pre_def)
next
  case False
  then have "join_str ''.'' ids \<noteq> []"
    using assms(2) join_str_eq_Nil [of "''.''" ids "hd ids"] by auto
  moreover have "split_str (join_str ''.'' ids) ''.'' = ids"
    by (rule split_join_byte) (use False assms in auto)
  ultimately show ?thesis
    using False assms by (auto simp: cut_pre_def index_byte_append Let_def)
qed

lemma split_core:
  "split_str (utoa a @ ''.'' @ utoa b @ ''.'' @ utoa c) ''.'' = [utoa a, utoa b, utoa c]"
proof -
  have "split_str (join_str ''.'' [utoa a, utoa b, utoa c]) ''.'' = [utoa a, utoa b, utoa c]"
    by (rule split_join_byte) (auto simp: utoa_free is_digit_iff)
  then show ?thesis by simp
qed

lemma hd_utoa_digit: "is_digit (hd (utoa n))"
  using utoa_digits [of n] by (cases "utoa n") auto

lemma strip_printed:
  assumes "plain_char (last (to_string v))" shows "strip_version (to_string v) = to_string v"
proof -
  have hd: "hd (to_string v) = hd (utoa (unat (major v)))" by (simp add: to_string_def)
  then have dig: "is_digit (hd (to_string v))" by (simp add: hd_utoa_digit)
  have ne: "to_string v \<noteq> []" by (simp add: to_string_def)
  have "trim_space (to_string v) = to_string v"
    using ne assms dig by (auto intro!: trim_space_plain digit_plain)
  moreover have "trim_prefix [c] (to_string v) = to_string v" if "\<not> is_digit c" for c
    using ne dig that by (cases "to_string v") (auto simp: trim_prefix_def)
  ultimately show ?thesis by (simp add: strip_version_def is_digit_iff)
qed

text \<open>Printing a version and parsing the text gives the version back: numbers at their full 64-bit
  range, prerelease identifiers and build metadata included. The condition is that identifiers are
  non-empty and free of the separators and that the text does not end in white space.\<close>

theorem parse_to_string:
  assumes "printable v" shows "parse (to_string v) = Inr v"
proof -
  define core where "core = utoa (unat (major v)) @ ''.'' @ utoa (unat (minor v)) @ ''.'' @ utoa (unat (patch v))"
  define ps where "ps = (if length (pre v) > 0 then ''-'' @ join_str ''.'' (pre v) else [])"
  define bs where "bs = (if build v \<noteq> [] then ''+'' @ build v else [])"
  have str: "to_string v = (core @ ps) @ bs" by (simp add: to_string_def core_def ps_def bs_def)
  have ids: "p \<noteq> [] \<and> CHR ''.'' \<notin> set p \<and> CHR ''+'' \<notin> set p" if "p \<in> set (pre v)" for p
    using assms that by (auto simp: printable_def)
  have "CHR ''+'' \<notin> set core" "CHR ''-'' \<notin> set core"
    by (auto simp: core_def utoa_free is_digit_iff)
  moreover have "CHR ''+'' \<notin> set ps"
    using ids set_join [of "''.''" "pre v"] by (auto simp: ps_def)
  ultimately have "cut_build (to_string v) = (core @ ps, build v)" "cut_pre (core @ ps) = Inr (core, pre v)"
    using cut_build_printed [of "core @ ps" "build v"] cut_pre_printed [of core "pre v"] ids
    by (simp_all add: str bs_def ps_def)
  moreover have "parse_numbers (split_str core ''.'') = Inr [major v, minor v, patch v]"
    by (simp only: core_def split_core parse_numbers.simps) (simp add: parse_numeric_iff [THEN iffD2])
  moreover have "length (split_str core ''.'') = 3" by (simp only: core_def split_core) simp
  moreover have "strip_version (to_string v) = to_string v" "to_string v \<noteq> []"
    using assms strip_printed by (auto simp: printable_def to_string_def)
  ultimately show ?thesis by (simp add: parse_def)
qed

theorem parse_to_string_witness:
  "parse (to_string \<lparr>major = 1, minor = 0, patch = 18446744073709551615, pre = [''rc'', ''1''], build = ''x''\<rparr>)
     = Inr \<lparr>major = 1, minor = 0, patch = 18446744073709551615, pre = [''rc'', ''1''], build = ''x''\<rparr>"
  by (rule parse_to_string) (simp add: printable_def to_string_def plain_char_def space_encodings_def)

lemmas parse_eval = parse_def strip_version_def trim_space_def trim_lead.simps lead_space_def space_encodings_def
  trim_prefix_def Let_def cut_build_def cut_pre_def split_str_def parse_numeric_def parse_uint_def is_digit_iff
  digits_val_def digit_val_def

text \<open>The other direction: the parser accepts nothing but what the printer writes.\<close>

lemma cut_build_eq: "cut_build s = (a, b) \<Longrightarrow> s = a @ (if b \<noteq> [] then ''+'' @ b else []) \<or> s = a @ ''+''"
  by (auto simp: cut_build_def split: option.splits dest: index_byte_split)

lemma cut_pre_eq: "cut_pre s = Inr (a, ids) \<Longrightarrow> s = a @ (if length ids > 0 then ''-'' @ join_str ''.'' ids else [])"
  by (auto simp: cut_pre_def Let_def join_split split: option.splits if_splits dest: index_byte_split)

lemma parse_numbers_eq: "parse_numbers ps = Inr ns \<Longrightarrow> ps = List.map (\<lambda>n. utoa (unat n)) ns"
  by (induction ps arbitrary: ns) (auto split: sum.splits simp: parse_numeric_iff)

text \<open>Whatever \<open>Parse\<close> accepts is, after the white space and the leading \<open>v\<close> or \<open>=\<close> it tolerates, exactly
  the printed form of the version it returns, or that form with an empty build after a \<open>+\<close>. Nothing
  with leading zeroes, missing numbers or more than three of them, or numbers beyond 64 bits parses.\<close>

theorem parse_sound:
  assumes "parse s = Inr v"
  shows "strip_version s = to_string v \<or> strip_version s = to_string v @ ''+'' \<and> build v = []"
proof -
  obtain s2 bld where 1: "cut_build (strip_version s) = (s2, bld)" by (cases "cut_build (strip_version s)")
  obtain s3 ids where 2: "cut_pre s2 = Inr (s3, ids)"
    using assms 1 by (auto simp: parse_def Let_def split: if_splits sum.splits)
  obtain ns where 3: "parse_numbers (split_str s3 ''.'') = Inr ns" "length (split_str s3 ''.'') = 3"
    and v: "v = \<lparr>major = ns ! 0, minor = ns ! 1, patch = ns ! 2, pre = ids, build = bld\<rparr>"
    using assms 1 2 by (auto simp: parse_def Let_def split: if_splits sum.splits)
  have parts: "split_str s3 ''.'' = List.map (\<lambda>n. utoa (unat n)) ns" using 3(1) by (rule parse_numbers_eq)
  with 3(2) obtain a b c where ns: "ns = [a, b, c]" by (auto simp: length_Suc_conv numeral_eq_Suc)
  have "s3 = join_str ''.'' (split_str s3 ''.'')" by (simp add: join_split)
  then have "s3 = utoa (unat a) @ ''.'' @ utoa (unat b) @ ''.'' @ utoa (unat c)" by (simp add: parts ns)
  moreover have "s2 = s3 @ (if length ids > 0 then ''-'' @ join_str ''.'' ids else [])" using 2 by (rule cut_pre_eq)
  moreover have "strip_version s = s2 @ (if bld \<noteq> [] then ''+'' @ bld else []) \<or> strip_version s = s2 @ ''+'' \<and> bld = []"
  proof (cases "bld = []")
    case True then show ?thesis using cut_build_eq [OF 1] by auto
  next
    case False
    then show ?thesis using 1 by (auto simp: cut_build_def split: option.splits dest: index_byte_split)
  qed
  ultimately show ?thesis by (auto simp: v ns to_string_def)
qed

theorem parse_sound_witness: "to_string \<lparr>major = 1, minor = 2, patch = 30, pre = [''rc''], build = []\<rparr> = ''1.2.30-rc''"
proof -
  have st: "strip_version '' v1.2.30-rc'' = ''1.2.30-rc''"
    by (simp add: strip_version_def trim_space_def trim_lead.simps lead_space_def space_encodings_def trim_prefix_def)
  have p: "parse '' v1.2.30-rc'' = Inr \<lparr>major = 1, minor = 2, patch = 30, pre = [''rc''], build = []\<rparr>"
    by (simp add: parse_eval)
  show ?thesis using parse_sound [OF p] by (simp add: st)
qed

subsection \<open>The order\<close>

text \<open>A numeric identifier with a leading zero, which the SemVer specification forbids.\<close>

definition leading_zero :: "string \<Rightarrow> bool" where
  "leading_zero s \<longleftrightarrow> list_all is_digit s \<and> length s > 1 \<and> hd s = CHR ''0''"

definition canonical :: "version \<Rightarrow> bool" where
  "canonical v \<longleftrightarrow> list_all (\<lambda>p. \<not> leading_zero p) (pre v)"

text \<open>
  The key: the three numbers, then a release above every prerelease, then the identifiers in
  lexicographic order, numeric ones by value and below the others.
\<close>

definition ident_key :: "string \<Rightarrow> nat \<times> 64 word \<times> string" where
  "ident_key s = (case numeric_ident s of Some n \<Rightarrow> (0, n, []) | None \<Rightarrow> (1, 0, s))"

definition version_key :: "version \<Rightarrow> 64 word \<times> 64 word \<times> 64 word \<times> nat \<times> (nat \<times> 64 word \<times> string) list" where
  "version_key v = (major v, minor v, patch v, if pre v = [] then 1 else 0, List.map ident_key (pre v))"

definition sign_of :: "'a :: linorder \<Rightarrow> 'a \<Rightarrow> int" where
  "sign_of a b = (if a < b then -1 else if b < a then 1 else 0)"

lemma numeric_ident_Some:
  assumes "numeric_ident s = Some n" "\<not> leading_zero s" shows "s = utoa (unat n)"
proof -
  from assms obtain k where k: "s \<noteq> []" "list_all is_digit s" "parse_uint s = Some k" "n = of_nat k"
    by (auto simp: numeric_ident_def split: if_splits)
  then have "digits_val s < 2 ^ 64" "k = digits_val s" by (auto simp: parse_uint_def split: if_splits)
  moreover have "utoa (digits_val s) = s"
    using k(1,2) assms(2) by (auto intro!: utoa_digits_val simp: leading_zero_def)
  ultimately show ?thesis using k by (simp add: unat_of_nat)
qed

lemma ident_key_inj:
  assumes "\<not> leading_zero x" "\<not> leading_zero y" shows "ident_key x = ident_key y \<longleftrightarrow> x = y"
  using numeric_ident_Some [OF _ assms(1)] numeric_ident_Some [OF _ assms(2)]
  by (auto simp: ident_key_def split: option.splits)

lemma Nil_less_list [simp]: "[] < (xs :: 'a :: order list) \<longleftrightarrow> xs \<noteq> []"
  by (cases xs) auto

lemma compare_idents_key:
  assumes "list_all (\<lambda>p. \<not> leading_zero p) xs" "list_all (\<lambda>p. \<not> leading_zero p) ys"
  shows "compare_idents xs ys = sign_of (List.map ident_key xs) (List.map ident_key ys)"
  using assms
proof (induction xs ys rule: compare_idents.induct)
  case (1 x xs y ys)
  show ?case
  proof (cases "x = y")
    case True
    with 1 show ?thesis by (simp add: sign_of_def)
  next
    case False
    with 1 have "ident_key x \<noteq> ident_key y" by (simp add: ident_key_inj)
    then have "sign_of (List.map ident_key (x # xs)) (List.map ident_key (y # ys)) = sign_of (ident_key x) (ident_key y)"
      by (auto simp: sign_of_def)
    also have "\<dots> = compare_idents (x # xs) (y # ys)"
      using False \<open>ident_key x \<noteq> ident_key y\<close>
      by (auto simp: sign_of_def ident_key_def cmp_uint_def split: option.splits)
    finally show ?thesis by simp
  qed
qed (auto simp: sign_of_def cmp_int_def)

text \<open>On versions whose numeric prerelease identifiers have no leading zero, \<open>Compare\<close> is comparison in
  a linear order: numbers first, a release above its prereleases, identifiers one by one with numeric
  ones by value and below the others, a longer list above its prefix.\<close>

lemma compare_key:
  assumes "canonical v" "canonical w"
  shows "compare v w = sign_of (version_key v) (version_key w)"
  using assms compare_idents_key [of "pre v" "pre w"]
  by (auto simp: compare_def version_key_def canonical_def sign_of_def cmp_uint_def compare_pre_def)

lemma version_key_eq:
  assumes "canonical v" "canonical w"
  shows "version_key v = version_key w \<longleftrightarrow> v\<lparr>build := []\<rparr> = w\<lparr>build := []\<rparr>"
proof -
  have "inj_on ident_key {p. \<not> leading_zero p}" by (auto intro!: inj_onI simp: ident_key_inj)
  then have "List.map ident_key xs = List.map ident_key ys \<longleftrightarrow> xs = ys"
    if "list_all (\<lambda>p. \<not> leading_zero p) xs" "list_all (\<lambda>p. \<not> leading_zero p) ys" for xs ys
    using that by (intro inj_on_map_eq_map) (auto simp: list_all_iff intro: inj_on_subset)
  then show ?thesis using assms by (cases v; cases w) (auto simp: version_key_def canonical_def)
qed

lemma sign_of_simps:
  "sign_of a b < 0 \<longleftrightarrow> a < b" "sign_of a b \<le> 0 \<longleftrightarrow> a \<le> b" "sign_of a b = 0 \<longleftrightarrow> a = b" "sign_of a b > 0 \<longleftrightarrow> b < a"
  by (auto simp: sign_of_def)

lemma sign_of_swap: "sign_of b a = - sign_of a b"
  by (auto simp: sign_of_def)

lemmas compare_simps = compare_key sign_of_simps

text \<open>C14: On versions whose numeric prerelease identifiers have no leading zero, \<open>Compare\<close> is a total preorder,
  namely comparison of keys in a linear order (the three numbers, a release above its prereleases,
  identifiers one by one with numeric ones by value and below the others), and two of them compare equal
  only when they are the same version up to build metadata.\<close>

theorem compare_total_preorder:
  assumes "canonical u" "canonical v" "canonical w"
  shows "(compare u v \<le> 0 \<longrightarrow> compare v w \<le> 0 \<longrightarrow> compare u w \<le> 0)
    \<and> compare w v = - compare v w
    \<and> (compare v w = 0 \<longleftrightarrow> v\<lparr>build := []\<rparr> = w\<lparr>build := []\<rparr>)
    \<and> (compare v w < 0 \<longleftrightarrow> version_key v < version_key w)"
proof (intro conjI impI)
  assume "compare u v \<le> 0" "compare v w \<le> 0"
  then have "version_key u \<le> version_key v" "version_key v \<le> version_key w"
    using assms by (simp_all only: compare_simps)
  then have "version_key u \<le> version_key w" by (rule order_trans)
  then show "compare u w \<le> 0" using assms by (simp only: compare_simps)
next
  show "compare w v = - compare v w"
    unfolding compare_key [OF assms(2,3)] compare_key [OF assms(3,2)] by (rule sign_of_swap)
  show "compare v w = 0 \<longleftrightarrow> v\<lparr>build := []\<rparr> = w\<lparr>build := []\<rparr>"
    using assms version_key_eq [of v w] by (simp only: compare_simps)
  show "compare v w < 0 \<longleftrightarrow> version_key v < version_key w"
    using assms by (simp only: compare_simps)
qed

abbreviation rver :: "nat \<Rightarrow> nat \<Rightarrow> nat \<Rightarrow> version" where
  "rver a b c \<equiv> \<lparr>major = of_nat a, minor = of_nat b, patch = of_nat c, pre = [], build = []\<rparr>"

theorem compare_total_preorder_witness:
  "compare \<lparr>major = 1, minor = 0, patch = 0, pre = [''alpha'', ''2''], build = []\<rparr> (rver 1 0 0) = -1
   \<and> compare (rver 1 0 0) (rver 2 0 0) = -1
   \<and> compare \<lparr>major = 1, minor = 0, patch = 0, pre = [''alpha'', ''2''], build = []\<rparr> (rver 2 0 0) \<le> 0"
  using compare_total_preorder [of "\<lparr>major = 1, minor = 0, patch = 0, pre = [''alpha'', ''2''], build = []\<rparr>"
      "rver 1 0 0" "rver 2 0 0"]
  by (simp add: canonical_def leading_zero_def is_digit_iff compare_def cmp_uint_def compare_pre_def)

text \<open>Sorting with \<open>Compare\<close> sorts: the contract of \<open>sort.Slice\<close> holds on those versions.\<close>

interpretation by_version: slice_order "\<lambda>v w. compare v w < 0" canonical
proof unfold_locales
  fix x y z assume ok: "canonical x" "canonical y" "canonical z"
  show "compare y x < 0 \<Longrightarrow> \<not> compare x y < 0"
    using ok by (simp only: compare_simps order_less_asym not_False_eq_True)
  assume "\<not> compare x y < 0" "\<not> compare y z < 0"
  then have "version_key y \<le> version_key x" "version_key z \<le> version_key y"
    using ok by (simp_all only: compare_simps not_less)
  then have "version_key z \<le> version_key x" by (rule order_trans [rotated])
  then show "\<not> compare x z < 0" using ok by (simp only: compare_simps not_less)
qed

text \<open>
  The parser lets numeric identifiers with leading zeroes through, and there \<open>Compare\<close> is no order:
  it stops at the first pair of identifiers with equal values, so \<open>1.0.0-1.b \<le> 1.0.0-01 \<le> 1.0.0-1.a\<close>
  although \<open>1.0.0-1.b\<close> is above \<open>1.0.0-1.a\<close>.
\<close>

theorem compare_leading_zero_intransitive:
  "\<exists>u v w. parse ''1.0.0-1.b'' = Inr u \<and> parse ''1.0.0-01'' = Inr v \<and> parse ''1.0.0-1.a'' = Inr w
     \<and> compare u v \<le> 0 \<and> compare v w \<le> 0 \<and> compare u w > 0"
proof (intro exI conjI)
  show "parse ''1.0.0-1.b'' = Inr \<lparr>major = 1, minor = 0, patch = 0, pre = [''1'', ''b''], build = []\<rparr>"
    and "parse ''1.0.0-01'' = Inr \<lparr>major = 1, minor = 0, patch = 0, pre = [''01''], build = []\<rparr>"
    and "parse ''1.0.0-1.a'' = Inr \<lparr>major = 1, minor = 0, patch = 0, pre = [''1'', ''a''], build = []\<rparr>"
    by (simp_all add: parse_eval)
qed (simp_all add: compare_def cmp_uint_def compare_pre_def cmp_int_def numeric_ident_def parse_eval)

end
