(* ===== verification/SemverRange.thy ===== *)
theory SemverRange
  imports Semver
begin

text \<open>
  Version ranges: \<open>internal/semver/range.go\<close>. The desugaring of every range form node-semver has into
  comparator sets, the satisfaction test with its prerelease rule, and the choice of the highest
  satisfying version. The lemmas give the meaning of caret and tilde ranges from their text on.
\<close>

datatype op = OpLT | OpLTE | OpGT | OpGTE | OpEQ

record comparator =
  cop :: op
  cver :: version

type_synonym comparator_set = "comparator list"

record range =
  rsets :: "comparator_set list"
  raw :: string

text \<open>Go's composite literals: fields that are not named are zero.\<close>

abbreviation vers :: "64 word \<Rightarrow> 64 word \<Rightarrow> 64 word \<Rightarrow> string list \<Rightarrow> version" where
  "vers a b c p \<equiv> \<lparr>major = a, minor = b, patch = c, pre = p, build = []\<rparr>"

abbreviation cmp :: "op \<Rightarrow> version \<Rightarrow> comparator" where
  "cmp k v \<equiv> \<lparr>cop = k, cver = v\<rparr>"

definition zero_version :: version where
  "zero_version = vers 0 0 0 []"

definition any_set :: comparator_set where
  "any_set = [cmp OpGTE zero_version]"

subsection \<open>Partial versions\<close>

record partial =
  pmajor :: "64 word"
  pminor :: "64 word"
  ppatch :: "64 word"
  has_minor :: bool
  has_patch :: bool
  ppre :: "string list"

definition is_wildcard :: "string \<Rightarrow> bool" where
  "is_wildcard s \<longleftrightarrow> s = [] \<or> s = ''x'' \<or> s = ''X'' \<or> s = ''*''"

text \<open>The loop over the dotted segments, at index \<open>i\<close>.\<close>

fun partial_segs :: "nat \<Rightarrow> string list \<Rightarrow> partial \<Rightarrow> partial res" where
  "partial_segs i [] p = Inr p"
| "partial_segs i (seg # segs) p =
     (if is_wildcard seg then Inr p
      else case parse_numeric seg of
          Inl e \<Rightarrow> Inl e
        | Inr n \<Rightarrow> partial_segs (Suc i) segs
            (if i = 0 then p\<lparr>pmajor := n\<rparr>
             else if i = 1 then p\<lparr>pminor := n, has_minor := True\<rparr>
             else if i = 2 then p\<lparr>ppatch := n, has_patch := True\<rparr>
             else p))"

definition partial_pre :: "string \<Rightarrow> string \<times> string list" where
  "partial_pre s = (case index_byte (CHR ''-'') s of
     None \<Rightarrow> (s, [])
   | Some i \<Rightarrow> (take i s, let p = drop (i + 1) s in if p \<noteq> [] then split_str p ''.'' else []))"

definition parse_partial :: "string \<Rightarrow> partial res" where
  "parse_partial s =
     (let s1 = trim_prefix ''v'' (trim_space s) in
      if s1 = [] then Inl err_invalid_version
      else let (s2, ids) = partial_pre (fst (cut_build s1));
               parts = split_str s2 ''.'' in
        if length parts > 3 then Inl err_invalid_version
        else partial_segs 0 parts
          \<lparr>pmajor = 0, pminor = 0, ppatch = 0, has_minor = False, has_patch = False, ppre = ids\<rparr>)"

definition version_of :: "partial \<Rightarrow> version" where
  "version_of p = vers (pmajor p) (pminor p) (ppatch p) (ppre p)"

definition zero_pre :: "version \<Rightarrow> version" where
  "zero_pre v = v\<lparr>pre := [''0'']\<rparr>"

subsection \<open>Desugaring\<close>

definition bound_comparator :: "op \<Rightarrow> string \<Rightarrow> comparator_set res" where
  "bound_comparator k s =
     (case parse_partial s of
        Inl e \<Rightarrow> Inl e
      | Inr p \<Rightarrow>
          Inr (if has_patch p then [cmp k (version_of p)]
               else case k of
                   OpGT \<Rightarrow> if has_minor p then [cmp OpGTE (vers (pmajor p) (pminor p + 1) 0 [])]
                           else [cmp OpGTE (vers (pmajor p + 1) 0 0 [])]
                 | OpLTE \<Rightarrow> if has_minor p then [cmp OpLT (zero_pre (vers (pmajor p) (pminor p + 1) 0 []))]
                            else [cmp OpLT (zero_pre (vers (pmajor p + 1) 0 0 []))]
                 | _ \<Rightarrow> [cmp k (version_of p)]))"

definition exact_range :: "string \<Rightarrow> comparator_set res" where
  "exact_range s =
     (case parse_partial s of
        Inl e \<Rightarrow> Inl e
      | Inr p \<Rightarrow>
          Inr (if has_patch p then [cmp OpEQ (version_of p)]
               else [cmp OpGTE (version_of p),
                     cmp OpLT (if has_minor p then zero_pre (vers (pmajor p) (pminor p + 1) 0 [])
                               else zero_pre (vers (pmajor p + 1) 0 0 []))]))"

definition tilde_range :: "string \<Rightarrow> comparator_set res" where
  "tilde_range s =
     (case parse_partial s of
        Inl e \<Rightarrow> Inl e
      | Inr p \<Rightarrow>
          Inr [cmp OpGTE (version_of p),
               cmp OpLT (if has_minor p then zero_pre (vers (pmajor p) (pminor p + 1) 0 [])
                         else zero_pre (vers (pmajor p + 1) 0 0 []))])"

definition caret_range :: "string \<Rightarrow> comparator_set res" where
  "caret_range s =
     (case parse_partial s of
        Inl e \<Rightarrow> Inl e
      | Inr p \<Rightarrow>
          Inr [cmp OpGTE (version_of p),
               cmp OpLT (if pmajor p > 0 \<or> \<not> has_minor p then zero_pre (vers (pmajor p + 1) 0 0 [])
                         else if pminor p > 0 \<or> \<not> has_patch p
                              then zero_pre (vers (pmajor p) (pminor p + 1) 0 [])
                         else zero_pre (vers (pmajor p) (pminor p) (ppatch p + 1) []))])"

definition hyphen_range :: "string \<Rightarrow> string \<Rightarrow> comparator_set res" where
  "hyphen_range lo_tok hi_tok =
     (case parse_partial lo_tok of
        Inl e \<Rightarrow> Inl e
      | Inr lp \<Rightarrow>
          (case parse_partial hi_tok of
             Inl e \<Rightarrow> Inl e
           | Inr hp \<Rightarrow>
               Inr [cmp OpGTE (version_of lp),
                    if has_patch hp then cmp OpLTE (version_of hp)
                    else if has_minor hp then cmp OpLT (zero_pre (vers (pmajor hp) (pminor hp + 1) 0 []))
                    else cmp OpLT (zero_pre (vers (pmajor hp + 1) 0 0 []))]))"

definition parse_comparator :: "string \<Rightarrow> comparator_set res" where
  "parse_comparator tok =
     (if is_wildcard tok then Inr any_set
      else if has_prefix ''^'' tok then caret_range (drop 1 tok)
      else if has_prefix ''~>'' tok then tilde_range (drop 2 tok)
      else if has_prefix ''~'' tok then tilde_range (drop 1 tok)
      else if has_prefix ''>='' tok then bound_comparator OpGTE (drop 2 tok)
      else if has_prefix ''<='' tok then bound_comparator OpLTE (drop 2 tok)
      else if has_prefix ''>'' tok then bound_comparator OpGT (drop 1 tok)
      else if has_prefix ''<'' tok then bound_comparator OpLT (drop 1 tok)
      else if has_prefix ''='' tok then exact_range (drop 1 tok)
      else exact_range tok)"

fun join_loose_operators :: "string list \<Rightarrow> string list" where
  "join_loose_operators (f # g # fs) =
     (if f \<in> {''>'', ''>='', ''<'', ''<='', ''='', ''~'', ''~>'', ''^''}
      then (f @ g) # join_loose_operators fs
      else f # join_loose_operators (g # fs))"
| "join_loose_operators fs = fs"

fun parse_tokens :: "string list \<Rightarrow> comparator_set res" where
  "parse_tokens [] = Inr []"
| "parse_tokens (f # fs) =
     (case fs of
        h # g # rest \<Rightarrow>
          if h = ''-'' then
            (case hyphen_range f g of
               Inl e \<Rightarrow> Inl e
             | Inr cs \<Rightarrow> (case parse_tokens rest of Inl e \<Rightarrow> Inl e | Inr cset \<Rightarrow> Inr (cs @ cset)))
          else (case parse_comparator f of
                  Inl e \<Rightarrow> Inl e
                | Inr cs \<Rightarrow> (case parse_tokens fs of Inl e \<Rightarrow> Inl e | Inr cset \<Rightarrow> Inr (cs @ cset)))
      | _ \<Rightarrow> (case parse_comparator f of
               Inl e \<Rightarrow> Inl e
             | Inr cs \<Rightarrow> (case parse_tokens fs of Inl e \<Rightarrow> Inl e | Inr cset \<Rightarrow> Inr (cs @ cset))))"

definition parse_comparator_set :: "string \<Rightarrow> comparator_set res" where
  "parse_comparator_set s =
     (let fs = join_loose_operators (GoText.fields s) in
      if length fs = 0 then Inr any_set else parse_tokens fs)"

fun parse_sets :: "string \<Rightarrow> string list \<Rightarrow> comparator_set list res" where
  "parse_sets r [] = Inr []"
| "parse_sets r (part # parts) =
     (case parse_comparator_set (trim_space part) of
        Inl e \<Rightarrow> Inl (Wrap (''range '' @ r) e)
      | Inr cset \<Rightarrow> (case parse_sets r parts of Inl e \<Rightarrow> Inl e | Inr csets \<Rightarrow> Inr (cset # csets)))"

definition parse_range :: "string \<Rightarrow> range res" where
  "parse_range s =
     (let t = trim_space s in
      if t = [] \<or> t = ''latest'' \<or> t = ''*'' then Inr \<lparr>rsets = [any_set], raw = s\<rparr>
      else case parse_sets s (split_str t ''||'') of
          Inl e \<Rightarrow> Inl e
        | Inr sets \<Rightarrow> Inr \<lparr>rsets = sets, raw = s\<rparr>)"

subsection \<open>Satisfaction\<close>

definition comparator_satisfies :: "comparator \<Rightarrow> version \<Rightarrow> bool" where
  "comparator_satisfies c v =
     (let r = compare v (cver c) in
      case cop c of OpLT \<Rightarrow> r < 0 | OpLTE \<Rightarrow> r \<le> 0 | OpGT \<Rightarrow> r > 0 | OpGTE \<Rightarrow> r \<ge> 0 | OpEQ \<Rightarrow> r = 0)"

text \<open>A comparator that mentions a prerelease of the very version.\<close>

definition mentions :: "comparator \<Rightarrow> version \<Rightarrow> bool" where
  "mentions c v \<longleftrightarrow> is_prerelease (cver c) \<and>
     major (cver c) = major v \<and> minor (cver c) = minor v \<and> patch (cver c) = patch v"

definition set_satisfies :: "comparator_set \<Rightarrow> version \<Rightarrow> bool" where
  "set_satisfies s v \<longleftrightarrow>
     list_all (\<lambda>c. comparator_satisfies c v) s
     \<and> (\<not> is_prerelease v \<or> list_ex (\<lambda>c. mentions c v) s)"

definition satisfies :: "range \<Rightarrow> version \<Rightarrow> bool" where
  "satisfies r v \<longleftrightarrow> list_ex (\<lambda>s. set_satisfies s v) (rsets r)"

definition is_any :: "range \<Rightarrow> bool" where
  "is_any r =
     (if length (rsets r) \<noteq> 1 \<or> length (rsets r ! 0) \<noteq> 1 then False
      else let c = rsets r ! 0 ! 0 in
        cop c = OpGTE \<and> compare (cver c) zero_version = 0 \<and> \<not> is_prerelease (cver c))"

text \<open>The loop of \<open>MaxSatisfying\<close>; \<open>None\<close> is a false \<open>found\<close>.\<close>

fun max_loop :: "range \<Rightarrow> version option \<Rightarrow> version list \<Rightarrow> version option" where
  "max_loop r best [] = best"
| "max_loop r best (v # vs) =
     (if \<not> satisfies r v then max_loop r best vs
      else case best of
          None \<Rightarrow> max_loop r (Some v) vs
        | Some b \<Rightarrow> max_loop r (if compare v b > 0 then Some v else best) vs)"

definition max_satisfying :: "version list \<Rightarrow> range \<Rightarrow> version option" where
  "max_satisfying vs r = max_loop r None vs"

subsection \<open>Reading one token\<close>

lemma split_acc_absent:
  "c \<notin> set s \<Longrightarrow> split_acc (c # cs) acc s = [rev acc @ s]"
proof (induction s arbitrary: acc)
  case (Cons x s)
  then show ?case by (subst split_acc.simps) auto
qed simp

lemma parse_range_token:
  assumes "list_all plain_char tok" "tok \<noteq> []" "CHR ''|'' \<notin> set tok" "tok \<noteq> ''latest''" "tok \<noteq> ''*''"
    and "parse_comparator tok = Inr cs"
  shows "parse_range tok = Inr \<lparr>rsets = [cs], raw = tok\<rparr>"
proof -
  have "plain_char (hd tok)" "plain_char (last tok)" using assms(1,2) by (auto simp: list_all_iff)
  then have "trim_space tok = tok" using assms(2) by (intro trim_space_plain)
  moreover have "split_str tok ''||'' = [tok]"
    using split_acc_absent [OF assms(3), of "''|''" "[]"] by (simp add: split_str_def)
  moreover have "parse_comparator_set tok = Inr cs"
    using assms(1,2,6) by (simp add: parse_comparator_set_def fields_plain)
  ultimately show ?thesis using assms(2,4,5) by (simp add: parse_range_def)
qed

lemma plain_utoa [simp]: "list_all plain_char (utoa n)"
  using utoa_digits [of n] digit_plain by (auto simp: list_all_iff)

lemma plain_punct [simp]:
  "plain_char (CHR ''.'')" "plain_char (CHR ''^'')" "plain_char (CHR ''~'')"
  "plain_char (CHR ''<'')" "plain_char (CHR ''>'')" "plain_char (CHR ''='')"
  by (simp_all add: plain_char_def space_encodings_def)

abbreviation core :: "64 word \<Rightarrow> 64 word \<Rightarrow> 64 word \<Rightarrow> string" where
  "core a b c \<equiv> to_string (vers a b c [])"

lemma core_eq: "core a b c = utoa (unat a) @ ''.'' @ utoa (unat b) @ ''.'' @ utoa (unat c)"
  by (simp add: to_string_def)

lemma core_chars: "list_all plain_char (core a b c)" "x \<in> set (core a b c) \<Longrightarrow> is_digit x \<or> x = CHR ''.''"
  using utoa_free by (auto simp: core_eq)

lemma core_no_bar [simp]: "CHR ''|'' \<notin> set (core a b c)"
  using core_chars(2) [of "CHR ''|''" a b c] by (auto simp: is_digit_iff)

lemma core_facts:
  "core a b c \<noteq> []" "trim_space (core a b c) = core a b c" "\<not> is_digit x \<Longrightarrow> trim_prefix [x] (core a b c) = core a b c"
  "x \<noteq> CHR ''.'' \<Longrightarrow> \<not> is_digit x \<Longrightarrow> index_byte x (core a b c) = None"
proof -
  have "plain_char (last (core a b c))" using core_chars(1) [of a b c] by (auto simp: list_all_iff core_eq)
  then have "strip_version (core a b c) = core a b c" by (rule strip_printed)
  show ne: "core a b c \<noteq> []" by (simp add: core_eq)
  show "trim_space (core a b c) = core a b c"
    using core_chars(1) [of a b c] ne by (auto intro!: trim_space_plain simp: list_all_iff)
  have "hd (core a b c) = hd (utoa (unat a))" by (simp add: core_eq)
  then have "is_digit (hd (core a b c))" by (simp add: hd_utoa_digit)
  then show "\<not> is_digit x \<Longrightarrow> trim_prefix [x] (core a b c) = core a b c"
    using ne by (cases "core a b c") (auto simp: trim_prefix_def)
  show "x \<noteq> CHR ''.'' \<Longrightarrow> \<not> is_digit x \<Longrightarrow> index_byte x (core a b c) = None"
    using core_chars(2) [of x a b c] by (auto simp: index_byte_None_iff)
qed

lemma utoa_not_wildcard: "\<not> is_wildcard (utoa n)"
  using hd_utoa_digit [of n] by (auto simp: is_wildcard_def is_digit_iff)

lemma parse_partial_core:
  "parse_partial (core a b c) =
     Inr \<lparr>pmajor = a, pminor = b, ppatch = c, has_minor = True, has_patch = True, ppre = []\<rparr>"
proof -
  have "split_str (core a b c) ''.'' = [utoa (unat a), utoa (unat b), utoa (unat c)]"
    unfolding core_eq by (rule split_core)
  moreover have "parse_numeric (utoa (unat w)) = Inr w" for w by (simp add: parse_numeric_iff)
  ultimately show ?thesis
    by (simp add: parse_partial_def core_facts is_digit_iff Let_def cut_build_def partial_pre_def utoa_not_wildcard)
qed

subsection \<open>The meaning of comparators\<close>

definition num :: "version \<Rightarrow> 64 word \<times> 64 word \<times> 64 word" where
  "num v = (major v, minor v, patch v)"

lemma compare_idents_zero: "xs \<noteq> [] \<Longrightarrow> compare_idents xs [''0''] \<ge> 0"
  by (cases xs) (auto simp: cmp_uint_def cmp_int_def numeric_ident_def parse_uint_def is_digit_iff
      digits_val_def digit_val_def split: option.splits)

text \<open>Nothing of a version, prereleases included, is below its \<open>-0\<close>.\<close>

lemma compare_zero_pre:
  "compare v (vers a b c [''0'']) < 0 \<longleftrightarrow> num v < (a, b, c)"
  using compare_idents_zero [of "pre v"]
  by (auto simp: compare_def num_def cmp_uint_def compare_pre_def)

lemma compare_release:
  "compare v (vers a b c []) < 0 \<longleftrightarrow> num v < (a, b, c) \<or> num v = (a, b, c) \<and> is_prerelease v"
  by (auto simp: compare_def num_def cmp_uint_def compare_pre_def is_prerelease_def)

lemma compare_release_eq:
  "compare v (vers a b c []) = 0 \<longleftrightarrow> num v = (a, b, c) \<and> \<not> is_prerelease v"
  by (auto simp: compare_def num_def cmp_uint_def compare_pre_def is_prerelease_def)

lemma mentions_simps:
  "mentions (cmp k (vers a b c [])) v = False"
  "mentions (cmp k (vers a b c [''0''])) v \<longleftrightarrow> num v = (a, b, c)"
  by (auto simp: mentions_def is_prerelease_def num_def)

lemma compare_release_ge:
  "0 \<le> compare v (vers a b c []) \<longleftrightarrow> (a, b, c) \<le> num v \<and> \<not> (num v = (a, b, c) \<and> is_prerelease v)"
  unfolding linorder_not_less [symmetric] compare_release by blast

lemma between_satisfies:
  "set_satisfies [cmp OpGTE (vers a b c []), cmp OpLT (vers a' b' c' [''0''])] v \<longleftrightarrow>
     \<not> is_prerelease v \<and> (a, b, c) \<le> num v \<and> num v < (a', b', c')"
proof -
  have irrefl: "\<not> (num v < (a', b', c') \<and> num v = (a', b', c'))" by (metis order_less_irrefl)
  have "set_satisfies [cmp OpGTE (vers a b c []), cmp OpLT (vers a' b' c' [''0''])] v \<longleftrightarrow>
     (0 \<le> compare v (vers a b c []) \<and> compare v (vers a' b' c' [''0'']) < 0)
     \<and> (\<not> is_prerelease v \<or> num v = (a', b', c'))"
    by (simp add: set_satisfies_def comparator_satisfies_def Let_def mentions_simps)
  then show ?thesis
    unfolding compare_release_ge compare_zero_pre using irrefl by blast
qed

lemma word_less_Suc: "a + 1 \<noteq> 0 \<Longrightarrow> x < a + 1 \<longleftrightarrow> x \<le> (a :: 64 word)"
  using unatSuc [of a] by (simp add: word_less_nat_alt word_le_nat_alt add.commute less_Suc_eq_le)

text \<open>The changes a caret admits: those that keep the left-most non-zero number.\<close>

definition caret_admits :: "64 word \<Rightarrow> 64 word \<Rightarrow> 64 word \<Rightarrow> version \<Rightarrow> bool" where
  "caret_admits a b c v \<longleftrightarrow>
     \<not> is_prerelease v \<and> (a, b, c) \<le> num v
     \<and> (if a > 0 then major v = a else if b > 0 then major v = 0 \<and> minor v = b
         else major v = 0 \<and> minor v = 0 \<and> patch v = c)"

lemma caret_upper:
  assumes "a + 1 \<noteq> 0" "b + 1 \<noteq> 0" "c + 1 \<noteq> 0" "(a, b, c) \<le> num v"
  shows "num v < (if a > 0 then (a + 1, 0, 0) else if b > 0 then (a, b + 1, 0) else (a, b, c + 1)) \<longleftrightarrow>
    (if a > 0 then major v = a else if b > 0 then major v = 0 \<and> minor v = b
     else major v = 0 \<and> minor v = 0 \<and> patch v = c)"
  using assms(4) word_less_Suc [OF assms(1)] word_less_Suc [OF assms(2)] word_less_Suc [OF assms(3)]
  by (auto simp: num_def word_gt_0 split: if_splits)

lemma lex_pinned:
  fixes x a :: "'a :: linorder" and y b :: "'b :: linorder"
  shows "a < x \<or> a = x \<and> (b < y \<or> b = y \<and> Q) \<Longrightarrow> (x < a \<or> x = a \<and> y \<le> b) \<longleftrightarrow> x = a \<and> y = b"
  by auto

lemma tilde_upper:
  assumes "b + 1 \<noteq> 0" "(a, b, c) \<le> num v"
  shows "num v < (a, b + 1, 0) \<longleftrightarrow> major v = a \<and> minor v = b"
proof -
  have "a < major v \<or> a = major v \<and> (b < minor v \<or> b = minor v \<and> c \<le> patch v)"
    using assms(2) by (auto simp only: num_def less_eq_prod_simp)
  from lex_pinned [OF this] show ?thesis
    by (simp only: num_def less_prod_simp word_less_Suc [OF assms(1)] word_not_simps simp_thms)
      (metis order_le_less)
qed

lemma parse_caret:
  "parse_range (''^'' @ core a b c) =
     Inr \<lparr>rsets = [[cmp OpGTE (vers a b c []),
       cmp OpLT (if a > 0 then vers (a + 1) 0 0 [''0''] else if b > 0 then vers a (b + 1) 0 [''0'']
                 else vers a b (c + 1) [''0''])]], raw = ''^'' @ core a b c\<rparr>"
  by (rule parse_range_token)
     (use core_chars(1) [of a b c] core_chars(2) [where a = a and b = b and c = c] in \<open>auto simp: list_all_iff parse_comparator_def is_wildcard_def caret_range_def
        parse_partial_core version_of_def zero_pre_def is_digit_iff\<close>)

lemma parse_tilde:
  "parse_range (''~'' @ core a b c) =
     Inr \<lparr>rsets = [[cmp OpGTE (vers a b c []), cmp OpLT (vers a (b + 1) 0 [''0''])]],
          raw = ''~'' @ core a b c\<rparr>"
proof (rule parse_range_token)
  have "hd (core a b c) = hd (utoa (unat a))" by (simp add: core_eq)
  then have "hd (core a b c) \<noteq> CHR ''>''" using hd_utoa_digit [of "unat a"] by (auto simp: is_digit_iff)
  then have "\<not> has_prefix ''>'' (core a b c)" using core_facts(1) [of a b c] by (cases "core a b c") auto
  then show "parse_comparator (''~'' @ core a b c) =
      Inr [cmp OpGTE (vers a b c []), cmp OpLT (vers a (b + 1) 0 [''0''])]"
    by (simp add: parse_comparator_def is_wildcard_def tilde_range_def parse_partial_core version_of_def zero_pre_def)
qed (use core_chars(1) [of a b c] core_chars(2) [where a = a and b = b and c = c] in \<open>auto simp: list_all_iff is_digit_iff\<close>)

lemma one_set: "satisfies \<lparr>rsets = [s], raw = t\<rparr> v = set_satisfies s v"
  by (simp add: satisfies_def)

text \<open>A caret range read from its text admits exactly the releases at or above its version that keep the
  left-most non-zero number (so \<open>^0.0.c\<close> admits one version, \<open>^0.b.c\<close> one minor line), and no prerelease,
  of the excluded upper version included; a tilde range admits exactly the releases of its minor line at
  or above it. The numbers must not be the largest 64-bit one, whose increment wraps.\<close>

theorem caret_tilde_meaning:
  assumes "a + 1 \<noteq> 0" "b + 1 \<noteq> 0" "c + 1 \<noteq> 0"
  shows "\<exists>r q. parse_range (''^'' @ core a b c) = Inr r \<and> parse_range (''~'' @ core a b c) = Inr q
    \<and> (\<forall>v. satisfies r v = caret_admits a b c v)
    \<and> (\<forall>v. satisfies q v = (\<not> is_prerelease v \<and> major v = a \<and> minor v = b \<and> c \<le> patch v))"
proof (intro exI conjI allI)
  show "parse_range (''^'' @ core a b c) = Inr (projr (parse_range (''^'' @ core a b c)))"
    "parse_range (''~'' @ core a b c) = Inr (projr (parse_range (''~'' @ core a b c)))"
    by (simp_all only: parse_caret parse_tilde sum.sel)
  fix v
  have "satisfies (projr (parse_range (''^'' @ core a b c))) v \<longleftrightarrow>
      \<not> is_prerelease v \<and> (a, b, c) \<le> num v \<and>
      num v < (if a > 0 then (a + 1, 0, 0) else if b > 0 then (a, b + 1, 0) else (a, b, c + 1))"
    by (cases "a > 0"; cases "b > 0") (simp_all only: parse_caret sum.sel one_set if_True if_False
        between_satisfies)
  then show "satisfies (projr (parse_range (''^'' @ core a b c))) v = caret_admits a b c v"
    unfolding caret_admits_def using caret_upper [OF assms] by blast
  have "satisfies (projr (parse_range (''~'' @ core a b c))) v \<longleftrightarrow>
      \<not> is_prerelease v \<and> (a, b, c) \<le> num v \<and> num v < (a, b + 1, 0)"
    by (simp only: parse_tilde sum.sel one_set between_satisfies)
  moreover have "major v = a \<and> minor v = b \<Longrightarrow> (a, b, c) \<le> num v \<longleftrightarrow> c \<le> patch v" by (auto simp: num_def)
  ultimately show "satisfies (projr (parse_range (''~'' @ core a b c))) v =
      (\<not> is_prerelease v \<and> major v = a \<and> minor v = b \<and> c \<le> patch v)"
    using tilde_upper [OF assms(2)] by blast
qed

theorem caret_tilde_meaning_witness:
  "\<exists>r. parse_range (''^'' @ core 0 2 3) = Inr r \<and> satisfies r (vers 0 2 9 []) \<and> \<not> satisfies r (vers 0 3 0 [])
     \<and> \<not> satisfies r (vers 0 3 0 [''alpha''])"
  using caret_tilde_meaning [of 0 2 3]
  by (auto simp: caret_admits_def num_def is_prerelease_def)

text \<open>A prerelease is only ever admitted by a set that itself mentions a prerelease of the same three numbers;
  a release is admitted by exactly the sets all of whose comparators hold.\<close>

theorem prerelease_rule:
  assumes "satisfies r v"
  shows "\<exists>s \<in> set (rsets r). (\<forall>c \<in> set s. comparator_satisfies c v)
    \<and> (is_prerelease v \<longrightarrow> (\<exists>c \<in> set s. is_prerelease (cver c) \<and> num (cver c) = num v))"
  using assms by (auto simp: satisfies_def set_satisfies_def list_ex_iff list_all_iff mentions_def num_def)

theorem prerelease_rule_witness:
  "satisfies \<lparr>rsets = [[cmp OpGTE (vers 1 0 0 [''beta''])]], raw = []\<rparr> (vers 1 0 0 [''rc''])
   \<and> (\<exists>s \<in> {[cmp OpGTE (vers 1 0 0 [''beta''])]}. \<exists>c \<in> set s. num (cver c) = num (vers 1 0 0 [''rc'']))"
proof -
  have "satisfies \<lparr>rsets = [[cmp OpGTE (vers 1 0 0 [''beta''])]], raw = []\<rparr> (vers 1 0 0 [''rc''])"
    by (simp add: satisfies_def set_satisfies_def comparator_satisfies_def mentions_def is_prerelease_def
        compare_def cmp_uint_def compare_pre_def numeric_ident_def is_digit_iff)
  from this prerelease_rule [OF this] show ?thesis by (simp add: is_prerelease_def)
qed

subsection \<open>The highest satisfying version\<close>

lemma max_loop_Some:
  assumes "max_loop r best vs = Some m"
  shows "(best = Some m \<or> m \<in> set vs \<and> satisfies r m)"
  using assms by (induction r best vs rule: max_loop.induct) (auto split: if_splits option.splits)

lemma max_loop_None: "max_loop r best vs = None \<longleftrightarrow> best = None \<and> (\<forall>v \<in> set vs. \<not> satisfies r v)"
  by (induction r best vs rule: max_loop.induct) (auto split: option.splits)

lemma max_loop_key:
  assumes "\<And>v. v \<in> set vs \<Longrightarrow> canonical v" "\<And>b. best = Some b \<Longrightarrow> canonical b"
    and "max_loop r best vs = Some m"
  shows "(\<forall>v \<in> set vs. satisfies r v \<longrightarrow> version_key v \<le> version_key m)
    \<and> (\<forall>b. best = Some b \<longrightarrow> version_key b \<le> version_key m)"
  using assms
proof (induction r best vs rule: max_loop.induct)
  case (2 r best v vs)
  note prems = "2.prems"
  show ?case
  proof (cases "satisfies r v")
    case False
    with 2 show ?thesis by simp
  next
    case sat: True
    show ?thesis
    proof (cases best)
      case None
      with 2 sat show ?thesis by simp
    next
      case (Some b)
      let ?n = "if compare v b > 0 then Some v else best"
      have run: "max_loop r ?n vs = Some m" using prems(3) sat Some by (simp split: if_splits)
      have can: "canonical v" "canonical b" "\<And>u. u \<in> set vs \<Longrightarrow> canonical u" using prems Some by auto
      then have n: "\<And>c. ?n = Some c \<Longrightarrow> canonical c"
        and above: "\<And>c. ?n = Some c \<Longrightarrow> version_key v \<le> version_key c \<and> version_key b \<le> version_key c"
        using Some by (auto simp: compare_simps order_less_imp_le not_less split: if_splits)
      have ih: "(\<forall>u \<in> set vs. satisfies r u \<longrightarrow> version_key u \<le> version_key m)
          \<and> (\<forall>c. ?n = Some c \<longrightarrow> version_key c \<le> version_key m)"
        by (rule "2.IH"(3)) (use sat Some can n run in \<open>auto split: if_splits\<close>)
      obtain c where c: "?n = Some c" using Some by (cases "compare v b > 0") auto
      have "version_key c \<le> version_key m" using ih c by blast
      then have "version_key v \<le> version_key m" "version_key b \<le> version_key m"
        using above [OF c] by (auto intro: order_trans)
      then show ?thesis using ih Some by auto
    qed
  qed
qed simp

lemma max_satisfying_key:
  assumes "\<And>v. v \<in> set vs \<Longrightarrow> canonical v" "max_satisfying vs r = Some m"
  shows "m \<in> set vs" "satisfies r m" "\<And>v. v \<in> set vs \<Longrightarrow> satisfies r v \<Longrightarrow> version_key v \<le> version_key m"
  using assms max_loop_Some [of r None vs m] max_loop_key [of vs None r m]
  by (auto simp: max_satisfying_def)

text \<open>\<open>MaxSatisfying\<close> returns a version of the list the range admits that no other admitted version exceeds,
  and reports nothing exactly when the range admits none of them.\<close>

theorem max_satisfying_maximal:
  assumes "list_all canonical vs"
  shows "case max_satisfying vs r of
      None \<Rightarrow> (\<forall>v \<in> set vs. \<not> satisfies r v)
    | Some m \<Rightarrow> m \<in> set vs \<and> satisfies r m \<and> (\<forall>v \<in> set vs. satisfies r v \<longrightarrow> compare v m \<le> 0)"
proof (cases "max_satisfying vs r")
  case None
  then have "\<forall>v \<in> set vs. \<not> satisfies r v" by (simp add: max_satisfying_def max_loop_None)
  with None show ?thesis by simp
next
  case (Some m)
  have can: "\<And>v. v \<in> set vs \<Longrightarrow> canonical v" using assms by (simp add: list_all_iff)
  note facts = max_satisfying_key [OF can Some]
  then show ?thesis using can Some by (simp add: compare_simps)
qed

theorem max_satisfying_maximal_witness:
  "case max_satisfying [rver 1 2 0, rver 1 10 0, rver 2 0 0] \<lparr>rsets = [[cmp OpLT (rver 2 0 0)]], raw = []\<rparr> of
     None \<Rightarrow> False | Some m \<Rightarrow> m = rver 1 10 0 \<and> compare (rver 1 2 0) m \<le> 0"
  using max_satisfying_maximal [of "[rver 1 2 0, rver 1 10 0, rver 2 0 0]" "\<lparr>rsets = [[cmp OpLT (rver 2 0 0)]], raw = []\<rparr>"]
  by (simp add: canonical_def max_satisfying_def satisfies_def set_satisfies_def comparator_satisfies_def
      compare_def cmp_uint_def compare_pre_def is_prerelease_def)

subsection \<open>Where the desugaring departs from node-semver\<close>

abbreviation below_one :: comparator_set where
  "below_one \<equiv> [cmp OpGTE (vers 0 0 0 []), cmp OpLT (vers 1 0 0 [''0''])]"

lemmas range_eval = parse_comparator_def is_wildcard_def exact_range_def caret_range_def
  parse_partial_def partial_pre_def zero_pre_def version_of_def parse_eval

lemma wildcard_tokens:
  "parse_comparator ''x.x.x'' = Inr below_one"
  "parse_comparator ''*.*'' = Inr below_one"
  "parse_comparator ''^*'' = Inr below_one"
  by (simp_all add: range_eval)

lemma wrapped_caret:
  "parse_range ''^18446744073709551615.0.0'' =
      Inr \<lparr>rsets = [[cmp OpGTE (vers 18446744073709551615 0 0 []), cmp OpLT (vers 0 0 0 [''0''])]],
           raw = ''^18446744073709551615.0.0''\<rparr>"
proof -
  have "''^18446744073709551615.0.0'' = ''^'' @ core 18446744073709551615 0 0"
    by (simp add: core_eq utoa.simps digit_char_def char_of_def bit_0)
  then show ?thesis using parse_caret [of 18446744073709551615 0 0] by simp
qed

lemmas satisfies_eval = one_set set_satisfies_def comparator_satisfies_def any_set_def zero_version_def
    compare_def cmp_uint_def compare_pre_def is_prerelease_def

text \<open>
  \<open>x.x.x\<close>, \<open>*.*\<close> and \<open>^*\<close> are read as major version 0, because the first wildcard leaves the numbers
  read so far, none: \<open>1.0.0\<close> is outside, although \<open>x\<close> and \<open>*\<close> alone admit it. A caret on the largest
  64-bit major wraps to an upper bound of \<open>0.0.0-0\<close> and admits not even its own version.
\<close>

theorem wildcard_and_wrap:
  "(\<exists>r. parse_range ''x.x.x'' = Inr r \<and> \<not> satisfies r (vers 1 0 0 []))
   \<and> (\<exists>r. parse_range ''*.*'' = Inr r \<and> \<not> satisfies r (vers 1 0 0 []))
   \<and> (\<exists>r. parse_range ''^*'' = Inr r \<and> \<not> satisfies r (vers 1 0 0 []))
   \<and> (\<exists>r. parse_range ''x'' = Inr r \<and> satisfies r (vers 1 0 0 []))
   \<and> (\<exists>r. parse_range ''^18446744073709551615.0.0'' = Inr r
        \<and> \<not> satisfies r (vers 18446744073709551615 0 0 []))"
proof -
  have wild: "\<exists>r. parse_range t = Inr r \<and> \<not> satisfies r (vers 1 0 0 [])"
    if "t \<in> {''x.x.x'', ''*.*'', ''^*''}" for t
  proof -
  from that have "parse_range t = Inr \<lparr>rsets = [below_one], raw = t\<rparr>"
    by (intro parse_range_token) (auto simp: plain_char_def space_encodings_def wildcard_tokens)
  then show ?thesis by (simp add: satisfies_eval)
  qed
  have "parse_range ''x'' = Inr \<lparr>rsets = [any_set], raw = ''x''\<rparr>"
    by (rule parse_range_token) (simp_all add: plain_char_def space_encodings_def parse_comparator_def is_wildcard_def)
  then have "\<exists>r. parse_range ''x'' = Inr r \<and> satisfies r (vers 1 0 0 [])" by (simp add: satisfies_eval)
  moreover have "\<exists>r. parse_range ''^18446744073709551615.0.0'' = Inr r \<and> \<not> satisfies r (vers 18446744073709551615 0 0 [])"
    by (simp add: wrapped_caret satisfies_eval)
  ultimately show ?thesis using wild [of "''x.x.x''"] wild [of "''*.*''"] wild [of "''^*''"] by blast
qed

end
