(* ===== verification/Windows.thy ===== *)
theory Windows
  imports SemverRange Interval
begin

text \<open>
  The resolution of a range over time: \<open>internal/resolve/windows.go\<close>. A dependency range resolves, at
  an instant, to the highest admitted version published by then; the windows are the steps of that
  function. The theorems relate them to it at every instant and give the shape the edges rely on.
\<close>

record release =
  rversion :: string
  published_at :: int

record window =
  wversion :: string
  wfrom :: int
  wto :: int

record candidate =
  cand_version :: version
  cand_raw :: string
  cand_published :: int

text \<open>The releases with a publish time, a version that parses, and the range's consent.\<close>

fun admit :: "range \<Rightarrow> release list \<Rightarrow> candidate list" where
  "admit r [] = []"
| "admit r (rel # rels) =
     (if published_at rel \<le> 0 then admit r rels
      else case parse (rversion rel) of
          Inl e \<Rightarrow> admit r rels
        | Inr v \<Rightarrow>
            if \<not> satisfies r v then admit r rels
            else \<lparr>cand_version = v, cand_raw = rversion rel, cand_published = published_at rel\<rparr> # admit r rels)"

definition publish_less :: "candidate \<Rightarrow> candidate \<Rightarrow> bool" where
  "publish_less a b =
     (if cand_published a \<noteq> cand_published b then cand_published a < cand_published b
      else compare (cand_version a) (cand_version b) < 0)"

definition open_window :: "candidate \<Rightarrow> window" where
  "open_window c = \<lparr>wversion = cand_raw c, wfrom = cand_published c, wto = open_interval\<rparr>"

text \<open>One turn of the loop: a version above the best closes the last window and opens its own.\<close>

definition window_step :: "window list \<times> candidate \<Rightarrow> candidate \<Rightarrow> window list \<times> candidate" where
  "window_step st c =
     (let (ws, best) = st in
      if compare (cand_version c) (cand_version best) \<le> 0 then (ws, best)
      else (ws[length ws - 1 := (ws ! (length ws - 1))\<lparr>wto := cand_published c\<rparr>] @ [open_window c], c))"

text \<open>The body of the loop of \<open>clamp\<close> on one window; \<open>None\<close> is a \<open>continue\<close>.\<close>

definition clamp_one :: "int \<Rightarrow> window \<Rightarrow> window option" where
  "clamp_one declared_at w =
     (if declared_at > 0 \<and> wto w \<le> declared_at then None
      else let w' = (if declared_at > 0 \<and> wfrom w < declared_at then w\<lparr>wfrom := declared_at\<rparr> else w) in
        if wfrom w' \<ge> wto w' then None else Some w')"

definition clamp :: "window list \<Rightarrow> int \<Rightarrow> window list" where
  "clamp ws declared_at = List.map_filter (clamp_one declared_at) ws"

definition windows :: "release list \<Rightarrow> range \<Rightarrow> int \<Rightarrow> window list" where
  "windows releases r declared_at =
     (case sort_slice publish_less (admit r releases) of
        [] \<Rightarrow> []
      | c # cs \<Rightarrow> clamp (fst (foldl window_step ([open_window c], c) cs)) declared_at)"

subsection \<open>The loop as a recursion\<close>

fun steps :: "candidate \<Rightarrow> candidate list \<Rightarrow> window list" where
  "steps best [] = [open_window best]"
| "steps best (c # cs) =
     (if compare (cand_version c) (cand_version best) \<le> 0 then steps best cs
      else (open_window best)\<lparr>wto := cand_published c\<rparr> # steps c cs)"

lemma foldl_window_step:
  "fst (foldl window_step (ws @ [open_window best], best) cs) = ws @ steps best cs"
proof (induction cs arbitrary: ws best)
  case (Cons c cs)
  show ?case
    using Cons.IH [of ws best] Cons.IH [of "ws @ [(open_window best)\<lparr>wto := cand_published c\<rparr>]" c]
    by (simp add: window_step_def)
qed simp

lemma windows_steps:
  "windows releases r d =
     (case sort_slice publish_less (admit r releases) of [] \<Rightarrow> [] | c # cs \<Rightarrow> clamp (steps c cs) d)"
  using foldl_window_step [of "[]"] by (auto simp: windows_def split: list.splits)

subsection \<open>Publish order\<close>

definition cand_ok :: "candidate \<Rightarrow> bool" where
  "cand_ok c \<longleftrightarrow> canonical (cand_version c) \<and> 0 < cand_published c \<and> cand_published c < open_interval"

abbreviation cand_key :: "candidate \<Rightarrow> 64 word \<times> 64 word \<times> 64 word \<times> nat \<times> (nat \<times> 64 word \<times> string) list" where
  "cand_key c \<equiv> version_key (cand_version c)"

lemma publish_less_key:
  "cand_ok a \<Longrightarrow> cand_ok b \<Longrightarrow>
   publish_less a b \<longleftrightarrow> cand_published a < cand_published b \<or> cand_published a = cand_published b \<and> cand_key a < cand_key b"
  by (auto simp: publish_less_def cand_ok_def compare_simps)

interpretation by_publish: slice_order publish_less cand_ok
proof unfold_locales
  fix x y z assume ok: "cand_ok x" "cand_ok y" "cand_ok z"
  show "publish_less y x \<Longrightarrow> \<not> publish_less x y"
    using ok by (auto simp: publish_less_key)
  assume "\<not> publish_less x y" "\<not> publish_less y z"
  then show "\<not> publish_less x z"
    unfolding publish_less_key [OF ok(1,2)] publish_less_key [OF ok(2,3)] publish_less_key [OF ok(1,3)]
    by (auto simp: not_less)
qed

lemma sorted_publish:
  assumes "\<And>c. c \<in> set cs \<Longrightarrow> cand_ok c"
  shows "sorted_wrt (\<lambda>a b. cand_published a \<le> cand_published b) (sort_slice publish_less cs)"
proof (rule sorted_wrt_mono_rel [OF _ by_publish.sorted_sort_slice])
  fix a b assume "a \<in> set (sort_slice publish_less cs)" "b \<in> set (sort_slice publish_less cs)" "\<not> publish_less b a"
  then show "cand_published a \<le> cand_published b" by (auto simp: publish_less_def split: if_splits)
qed (use assms in auto)

subsection \<open>The window of an instant\<close>

abbreviation in_window :: "int \<Rightarrow> window \<Rightarrow> bool" where
  "in_window t w \<equiv> wfrom w \<le> t \<and> t < wto w"

lemma steps_from:
  assumes "sorted_wrt (\<lambda>a b. cand_published a \<le> cand_published b) (best # cs)" "w \<in> set (steps best cs)"
  shows "cand_published best \<le> wfrom w"
  using assms
  by (induction best cs rule: steps.induct) (fastforce simp: open_window_def split: if_splits)+

lemma steps_in_window:
  assumes "sorted_wrt (\<lambda>a b. cand_published a \<le> cand_published b) (best # cs)"
    and "\<And>c. c \<in> set (best # cs) \<Longrightarrow> canonical (cand_version c)"
    and "w \<in> set (steps best cs)" "in_window t w"
  shows "\<exists>b \<in> set (best # cs). wversion w = cand_raw b \<and> cand_published b \<le> t \<and>
    (\<forall>c \<in> set (best # cs). cand_published c \<le> t \<longrightarrow> cand_key c \<le> cand_key b)"
  using assms
proof (induction best cs rule: steps.induct)
  case (1 best)
  then show ?case by (auto simp: open_window_def)
next
  case (2 best c cs)
  have sorted: "sorted_wrt (\<lambda>a b. cand_published a \<le> cand_published b) (x # cs)" if "x = best \<or> x = c" for x
    using "2.prems"(1) that by auto
  have can: "canonical (cand_version best)" "canonical (cand_version c)" using "2.prems"(2) by auto
  show ?case
  proof (cases "compare (cand_version c) (cand_version best) \<le> 0")
    case True
    then have le: "cand_key c \<le> cand_key best" using can by (simp add: compare_simps)
    have w: "w \<in> set (steps best cs)" using "2.prems"(3) True by simp
    from "2.IH"(1) [OF True sorted _ w "2.prems"(4)] "2.prems"(2)
    obtain b where b: "b \<in> set (best # cs)" "wversion w = cand_raw b" "cand_published b \<le> t"
      "\<And>d. d \<in> set (best # cs) \<Longrightarrow> cand_published d \<le> t \<Longrightarrow> cand_key d \<le> cand_key b"
      by auto
    have "cand_published best \<le> t" using steps_from [OF sorted w] "2.prems"(4) by auto
    then have "cand_key best \<le> cand_key b" by (intro b(4)) auto
    then have "cand_key c \<le> cand_key b" using le by (rule order_trans [rotated])
    then show ?thesis using b by (intro bexI [of _ b]) auto
  next
    case False
    then have less: "cand_key best < cand_key c" using can by (simp add: compare_simps not_le)
    show ?thesis
    proof (cases "w \<in> set (steps c cs)")
      case True
      from "2.IH"(2) [OF False sorted _ True "2.prems"(4)] "2.prems"(2)
      obtain b where b: "b \<in> set (c # cs)" "wversion w = cand_raw b" "cand_published b \<le> t"
        "\<And>d. d \<in> set (c # cs) \<Longrightarrow> cand_published d \<le> t \<Longrightarrow> cand_key d \<le> cand_key b"
        by auto
      have "cand_published c \<le> t" using steps_from [OF sorted True] "2.prems"(4) by auto
      then have "cand_key c \<le> cand_key b" by (intro b(4)) auto
      then have "cand_key best \<le> cand_key b" using less by (meson order_less_imp_le order_trans)
      then show ?thesis using b by (intro bexI [of _ b]) auto
    next
      case F: False
      then have w: "w = (open_window best)\<lparr>wto := cand_published c\<rparr>" using "2.prems"(3) False by simp
      then have "cand_published best \<le> t" "t < cand_published c" using "2.prems"(4) by (auto simp: open_window_def)
      moreover have "cand_published c \<le> cand_published d" if "d \<in> set cs" for d
        using "2.prems"(1) that by simp
      ultimately have "cand_key d \<le> cand_key best" if "d \<in> set (best # c # cs)" "cand_published d \<le> t" for d
        using that by fastforce
      then show ?thesis using w \<open>cand_published best \<le> t\<close>
        by (intro bexI [of _ best]) (auto simp: open_window_def)
    qed
  qed
qed

lemma steps_cover:
  assumes "cand_published best \<le> t" "t < open_interval"
  shows "\<exists>w \<in> set (steps best cs). in_window t w"
  using assms
proof (induction best cs rule: steps.induct)
  case (2 best c cs)
  then show ?case by (cases "t < cand_published c") (auto simp: open_window_def)
qed (auto simp: open_window_def)

text \<open>Clamping changes nothing about the instants at or after the dependent's publish.\<close>

lemma clamp_window:
  assumes "d > 0 \<longrightarrow> d \<le> t"
  shows "(\<exists>w \<in> set (clamp ws d). in_window t w \<and> P (wversion w)) \<longleftrightarrow> (\<exists>w \<in> set ws. in_window t w \<and> P (wversion w))"
proof
  assume "\<exists>w \<in> set (clamp ws d). in_window t w \<and> P (wversion w)"
  then obtain w w' where w: "w \<in> set ws" "clamp_one d w = Some w'" "in_window t w'" "P (wversion w')"
    by (auto simp: clamp_def set_map_filter)
  then have "in_window t w \<and> wversion w = wversion w'"
    by (auto simp: clamp_one_def Let_def split: if_splits)
  then show "\<exists>w \<in> set ws. in_window t w \<and> P (wversion w)" using w by auto
next
  assume "\<exists>w \<in> set ws. in_window t w \<and> P (wversion w)"
  then obtain w where w: "w \<in> set ws" "in_window t w" "P (wversion w)" by auto
  let ?w = "if d > 0 \<and> wfrom w < d then w\<lparr>wfrom := d\<rparr> else w"
  have "clamp_one d w = Some ?w" using w assms by (auto simp: clamp_one_def Let_def)
  then have "?w \<in> set (clamp ws d)" using w(1) by (force simp: clamp_def set_map_filter)
  then show "\<exists>w \<in> set (clamp ws d). in_window t w \<and> P (wversion w)"
    using w assms by (intro bexI [of _ ?w]) auto
qed

lemma admit_set:
  "set (admit r rels) =
     {\<lparr>cand_version = v, cand_raw = rversion rel, cand_published = published_at rel\<rparr> | rel v.
        rel \<in> set rels \<and> published_at rel > 0 \<and> parse (rversion rel) = Inr v \<and> satisfies r v}"
  by (induction rels) (auto split: sum.splits, (metis not_le)+)

text \<open>What an install at \<open>t\<close> may pick from: the admitted releases published by then.\<close>

definition admissible :: "release list \<Rightarrow> range \<Rightarrow> int \<Rightarrow> (string \<times> version) set" where
  "admissible releases r t =
     {(rversion rel, v) | rel v. rel \<in> set releases \<and> 0 < published_at rel \<and> published_at rel \<le> t
        \<and> parse (rversion rel) = Inr v \<and> satisfies r v}"

lemma admissible_admit:
  "admissible releases r t = {(cand_raw c, cand_version c) | c. c \<in> set (admit r releases) \<and> cand_published c \<le> t}"
  by (force simp: admissible_def admit_set)

definition sane_releases :: "release list \<Rightarrow> bool" where
  "sane_releases releases \<longleftrightarrow> list_all (\<lambda>rel. published_at rel < open_interval
     \<and> (case parse (rversion rel) of Inl e \<Rightarrow> True | Inr v \<Rightarrow> canonical v)) releases"

lemma admit_ok: "sane_releases releases \<Longrightarrow> c \<in> set (admit r releases) \<Longrightarrow> cand_ok c"
  by (fastforce simp: admit_set cand_ok_def sane_releases_def list_all_iff)

text \<open>The window open at an instant is the resolution then; the property below states it for a reader.\<close>

lemma windows_pick:
  assumes "sane_releases releases" "t < open_interval" "declared_at > 0 \<longrightarrow> declared_at \<le> t"
  shows "((\<exists>w \<in> set (windows releases r declared_at). in_window t w) \<longleftrightarrow> admissible releases r t \<noteq> {})
    \<and> (\<forall>w \<in> set (windows releases r declared_at). in_window t w \<longrightarrow>
         (\<exists>v. (wversion w, v) \<in> admissible releases r t
            \<and> (\<forall>(raw, u) \<in> admissible releases r t. compare u v \<le> 0)))"
proof (cases "sort_slice publish_less (admit r releases)")
  case Nil
  then show ?thesis by (auto simp: windows_def admissible_admit)
next
  case (Cons c cs)
  have ok: "cand_ok d" if "d \<in> set (c # cs)" for d
    using that admit_ok [OF assms(1)] unfolding Cons [symmetric] by simp
  then have can: "\<And>d. d \<in> set (c # cs) \<Longrightarrow> canonical (cand_version d)"
    by (simp add: cand_ok_def)
  have sorted: "sorted_wrt (\<lambda>a b. cand_published a \<le> cand_published b) (c # cs)"
    unfolding Cons [symmetric] by (rule sorted_publish) (rule admit_ok [OF assms(1)])
  have adm: "admissible releases r t = {(cand_raw d, cand_version d) | d. d \<in> set (c # cs) \<and> cand_published d \<le> t}"
    unfolding admissible_admit Cons [symmetric] by simp
  have win: "windows releases r declared_at = clamp (steps c cs) declared_at" by (simp add: windows_steps Cons)
  have pick: "\<exists>v. (wversion w, v) \<in> admissible releases r t \<and> (\<forall>(raw, u) \<in> admissible releases r t. compare u v \<le> 0)"
    if hw: "w \<in> set (steps c cs)" "in_window t w" for w
  proof -
    obtain b where b: "b \<in> set (c # cs)" "wversion w = cand_raw b" "cand_published b \<le> t"
      "\<And>d. d \<in> set (c # cs) \<Longrightarrow> cand_published d \<le> t \<Longrightarrow> cand_key d \<le> cand_key b"
      using steps_in_window [OF sorted _ hw] can by blast
    have "compare u (cand_version b) \<le> 0" if "(raw, u) \<in> admissible releases r t" for raw u
      using that b can unfolding adm by (auto simp: compare_simps)
    then show ?thesis using b by (intro exI [of _ "cand_version b"]) (auto simp: adm)
  qed
  have "admissible releases r t \<noteq> {} \<Longrightarrow> cand_published c \<le> t"
    using sorted by (fastforce simp: adm)
  then have "(\<exists>w \<in> set (steps c cs). in_window t w) \<longleftrightarrow> admissible releases r t \<noteq> {}"
    using pick steps_cover [of c t cs] assms(2) by blast
  then have 1: "(\<exists>w \<in> set (clamp (steps c cs) declared_at). in_window t w) \<longleftrightarrow> admissible releases r t \<noteq> {}"
    using clamp_window [OF assms(3), of "steps c cs" "\<lambda>_. True"] by simp
  have 2: "\<exists>v. (wversion w, v) \<in> admissible releases r t \<and> (\<forall>(raw, u) \<in> admissible releases r t. compare u v \<le> 0)"
    if "w \<in> set (clamp (steps c cs) declared_at)" "in_window t w" for w
  proof -
    have "\<exists>w' \<in> set (clamp (steps c cs) declared_at). in_window t w' \<and> wversion w' = wversion w"
      using that by blast
    then have "\<exists>w0 \<in> set (steps c cs). in_window t w0 \<and> wversion w0 = wversion w"
      by (rule clamp_window [OF assms(3), of "steps c cs" "\<lambda>x. x = wversion w", THEN iffD1])
    then obtain w0 where "w0 \<in> set (steps c cs)" "in_window t w0" "wversion w0 = wversion w" by blast
    with pick [of w0] show ?thesis by simp
  qed
  show ?thesis unfolding win using 1 2 by (intro conjI ballI impI) simp_all
qed

subsection \<open>The shape of the windows\<close>

fun chain :: "int \<Rightarrow> window list \<Rightarrow> bool" where
  "chain s [] = True"
| "chain s (w # ws) = (wfrom w = s \<and> s \<le> wto w \<and> chain (wto w) ws)"

lemma steps_chain:
  assumes "sorted_wrt (\<lambda>a b. cand_published a \<le> cand_published b) (best # cs)"
    and "\<And>c. c \<in> set (best # cs) \<Longrightarrow> cand_published c < open_interval"
  shows "chain (cand_published best) (steps best cs) \<and> steps best cs \<noteq> [] \<and> wto (last (steps best cs)) = open_interval"
  using assms
  by (induction best cs rule: steps.induct) (auto simp: open_window_def order_less_imp_le)

lemma steps_versions:
  assumes "\<And>c. c \<in> set (best # cs) \<Longrightarrow> canonical (cand_version c) \<and> parse (cand_raw c) = Inr (cand_version c)"
  shows "hd (List.map wversion (steps best cs)) = cand_raw best \<and>
    sorted_wrt (\<lambda>a b. version_key (projr (parse a)) < version_key (projr (parse b))) (List.map wversion (steps best cs))"
  using assms
proof (induction best cs rule: steps.induct)
  case (1 best)
  then show ?case by (simp add: open_window_def)
next
  case (2 best c cs)
  show ?case
  proof (cases "compare (cand_version c) (cand_version best) \<le> 0")
    case True
    have "canonical (cand_version x) \<and> parse (cand_raw x) = Inr (cand_version x)" if "x \<in> set (best # cs)" for x
      using "2.prems" that by auto
    from "2.IH"(1) [OF True this] True show ?thesis by simp
  next
    case False
    then have less: "cand_key best < cand_key c" using "2.prems" by (simp add: compare_simps not_le)
    have ih: "hd (List.map wversion (steps c cs)) = cand_raw c \<and>
      sorted_wrt (\<lambda>a b. version_key (projr (parse a)) < version_key (projr (parse b))) (List.map wversion (steps c cs))"
      using 2 False by auto
    have key: "version_key (projr (parse (cand_raw c))) = cand_key c"
      "version_key (projr (parse (cand_raw best))) = cand_key best" using "2.prems" by auto
    have "cand_key best < version_key (projr (parse x))" if "x \<in> set (List.map wversion (steps c cs))" for x
    proof (cases "List.map wversion (steps c cs)")
      case (Cons y ys)
      then have "y = cand_raw c" using ih by simp
      with that Cons ih key less show ?thesis by (auto intro: order_less_trans)
    qed (use that in simp)
    with ih key show ?thesis using False by (simp add: open_window_def)
  qed
qed

definition raised :: "int \<Rightarrow> int \<Rightarrow> int" where
  "raised d s = (if d > 0 \<and> s < d then d else s)"

lemma clamp_Cons:
  "clamp (w # ws) d =
     (if d > 0 \<and> wto w \<le> d \<or> wto w \<le> raised d (wfrom w) then clamp ws d
      else w\<lparr>wfrom := raised d (wfrom w)\<rparr> # clamp ws d)"
  by (simp add: clamp_def clamp_one_def raised_def Let_def)

lemma clamp_Nil [simp]: "clamp [] d = []"
  by (simp add: clamp_def)

lemma chain_clamp:
  "chain s ws \<Longrightarrow> chain (raised d s) (clamp ws d) \<and> list_all (\<lambda>w. wfrom w < wto w) (clamp ws d)"
proof (induction ws arbitrary: s)
  case (Cons w ws)
  then have w: "wfrom w = s" "s \<le> wto w"
    and ih: "chain (raised d (wto w)) (clamp ws d)" "list_all (\<lambda>w. wfrom w < wto w) (clamp ws d)" by auto
  show ?case
  proof (cases "d > 0 \<and> wto w \<le> d \<or> wto w \<le> raised d s")
    case True
    then have "raised d (wto w) = raised d s" using w by (auto simp: raised_def)
    with True ih w show ?thesis by (simp add: clamp_Cons)
  next
    case False
    then have "raised d (wto w) = wto w" "raised d s < wto w" by (auto simp: raised_def)
    with False ih w show ?thesis by (auto simp: clamp_Cons)
  qed
qed simp

lemma clamp_sub: "wversion ` set (clamp ws d) \<subseteq> wversion ` set ws"
  by (induction ws) (auto simp: clamp_Cons)

lemma clamp_versions: "sorted_wrt P (List.map wversion ws) \<Longrightarrow> sorted_wrt P (List.map wversion (clamp ws d))"
proof (induction ws)
  case (Cons w ws)
  then show ?case using clamp_sub [of ws d] by (auto simp: clamp_Cons)
qed simp

lemma clamp_last:
  assumes "ws \<noteq> []" "wto (last ws) = open_interval" "wfrom (last ws) < open_interval" "d < open_interval"
  shows "clamp ws d \<noteq> [] \<and> wto (last (clamp ws d)) = open_interval"
proof -
  obtain us w where ws: "ws = us @ [w]" using assms(1) by (cases ws rule: rev_cases) auto
  have "List.map_filter f (us @ [w]) = List.map_filter f us @ List.map_filter f [w]" for f :: "window \<Rightarrow> window option"
    by (induction us) (auto split: option.splits)
  then show ?thesis using assms ws by (auto simp: clamp_def clamp_one_def Let_def)
qed

lemma admit_parse: "c \<in> set (admit r rels) \<Longrightarrow> parse (cand_raw c) = Inr (cand_version c)"
  by (auto simp: admit_set)

lemma chain_last: "chain s ws \<Longrightarrow> ws \<noteq> [] \<Longrightarrow> wfrom (last ws) \<le> wto (last ws)"
  by (induction ws arbitrary: s) auto

lemma steps_nonempty: "steps best cs \<noteq> []"
  by (induction best cs rule: steps.induct) auto

lemma last_from:
  "(\<And>c. c \<in> set (best # cs) \<Longrightarrow> cand_published c < open_interval) \<Longrightarrow> wfrom (last (steps best cs)) < open_interval"
proof (induction best cs rule: steps.induct)
  case (2 best c cs)
  with steps_nonempty [of c cs] show ?case by (auto split: if_splits)
qed (simp add: open_window_def)

text \<open>Windows that follow each other without a gap, the last one open.\<close>

definition contiguous :: "window list \<Rightarrow> bool" where
  "contiguous ws \<longleftrightarrow> (\<forall>i. Suc i < length ws \<longrightarrow> wto (ws ! i) = wfrom (ws ! Suc i))
     \<and> (ws \<noteq> [] \<longrightarrow> wto (last ws) = open_interval)"

lemma chain_nth: "chain s ws \<Longrightarrow> Suc i < length ws \<Longrightarrow> wto (ws ! i) = wfrom (ws ! Suc i)"
proof (induction ws arbitrary: s i)
  case (Cons w ws)
  then show ?case by (cases i; cases ws) auto
qed simp

lemma chain_from: "chain s ws \<Longrightarrow> w \<in> set ws \<Longrightarrow> s \<le> wfrom w"
  by (induction ws arbitrary: s) fastforce+

lemma steps_raws: "wversion ` set (steps best cs) \<subseteq> cand_raw ` set (best # cs)"
proof (induction best cs rule: steps.induct)
  case (2 best c cs)
  then show ?case by (cases "compare (cand_version c) (cand_version best) \<le> 0") (auto simp: open_window_def)
qed (simp add: open_window_def)

lemma strict_distinct: "sorted_wrt (\<lambda>a b. f a < (f b :: 'k :: order)) xs \<Longrightarrow> distinct xs"
  by (induction xs) auto

text \<open>The windows of a declaration follow each other without gap or overlap up to the open end, none is empty
  or starts before the dependent was published, and their versions strictly ascend; so each version owns
  one window, which is why the edge needs no discriminator. There are none only when the range admits no
  release at all: an admitted release that predates the dependent leaves a window open at its publish.\<close>

theorem windows_shape:
  assumes "sane_releases releases" "declared_at < open_interval"
  shows "contiguous (windows releases r declared_at)
    \<and> (\<forall>w \<in> set (windows releases r declared_at). wfrom w < wto w \<and> declared_at \<le> wfrom w)
    \<and> sorted_wrt (\<lambda>a b. compare (projr (parse a)) (projr (parse b)) < 0) (List.map wversion (windows releases r declared_at))
    \<and> distinct (List.map wversion (windows releases r declared_at))
    \<and> (windows releases r declared_at = [] \<longleftrightarrow> admit r releases = [])"
proof (cases "sort_slice publish_less (admit r releases)")
  case Nil
  then show ?thesis by (simp add: windows_def contiguous_def)
next
  case (Cons c cs)
  have ok: "cand_ok d" and parses: "parse (cand_raw d) = Inr (cand_version d)" if "d \<in> set (c # cs)" for d
    using that admit_ok [OF assms(1)] admit_parse [of d r releases] unfolding Cons [symmetric] by simp_all
  have "admit r releases \<noteq> []" using Cons by auto
  have sorted: "sorted_wrt (\<lambda>a b. cand_published a \<le> cand_published b) (c # cs)"
    unfolding Cons [symmetric] by (rule sorted_publish) (rule admit_ok [OF assms(1)])
  have early: "\<And>d. d \<in> set (c # cs) \<Longrightarrow> cand_published d < open_interval" using ok by (simp add: cand_ok_def)
  let ?ws = "steps c cs" and ?cl = "clamp (steps c cs) declared_at"
  have win: "windows releases r declared_at = ?cl" by (simp add: windows_steps Cons)
  have st: "chain (cand_published c) ?ws" "?ws \<noteq> []" "wto (last ?ws) = open_interval"
    using steps_chain [OF sorted] early by blast+
  have ch: "chain (raised declared_at (cand_published c)) ?cl" "\<forall>w \<in> set ?cl. wfrom w < wto w"
    using chain_clamp [OF st(1)] by (auto simp: list_all_iff)
  have lst: "?cl \<noteq> []" "wto (last ?cl) = open_interval"
    using clamp_last [OF st(2,3) last_from assms(2)] early by blast+
  have "0 < cand_published c" using ok [of c] by (simp add: cand_ok_def)
  then have "declared_at \<le> raised declared_at (cand_published c)" by (auto simp: raised_def)
  then have after: "\<forall>w \<in> set ?cl. declared_at \<le> wfrom w" using chain_from [OF ch(1)] by (meson order_trans)
  have keys: "sorted_wrt (\<lambda>a b. version_key (projr (parse a)) < version_key (projr (parse b))) (List.map wversion ?cl)"
    using steps_versions [of c cs] ok parses by (intro clamp_versions) (auto simp: cand_ok_def)
  have raws: "canonical (projr (parse x))" if "x \<in> set (List.map wversion ?cl)" for x
  proof -
    have "x \<in> cand_raw ` set (c # cs)" using that clamp_sub [of ?ws declared_at] steps_raws [of c cs] by auto
    then obtain d where "d \<in> set (c # cs)" "x = cand_raw d" by blast
    then show ?thesis using ok parses by (simp add: cand_ok_def)
  qed
  have ascending: "sorted_wrt (\<lambda>a b. compare (projr (parse a)) (projr (parse b)) < 0) (List.map wversion ?cl)"
    using keys by (rule sorted_wrt_mono_rel [rotated]) (simp add: compare_simps raws)
  have dist: "distinct (List.map wversion ?cl)"
    using keys by (rule strict_distinct)
  have "contiguous ?cl" using chain_nth [OF ch(1)] lst by (simp add: contiguous_def)
  moreover have "\<forall>w \<in> set ?cl. wfrom w < wto w \<and> declared_at \<le> wfrom w" using ch(2) after by blast
  moreover have "?cl = [] \<longleftrightarrow> admit r releases = []" using lst(1) \<open>admit r releases \<noteq> []\<close> by simp
  ultimately show ?thesis unfolding win using ascending dist by (intro conjI)
qed

subsection \<open>A timeline\<close>

text \<open>Two releases and a backport between and after them.\<close>

abbreviation timeline3 :: "release list" where
  "timeline3 \<equiv> [\<lparr>rversion = ''1.1.0'', published_at = 200\<rparr>, \<lparr>rversion = ''1.0.0'', published_at = 100\<rparr>,
     \<lparr>rversion = ''1.0.1'', published_at = 300\<rparr>]"

abbreviation any_range :: range where
  "any_range \<equiv> \<lparr>rsets = [any_set], raw = []\<rparr>"

lemma parse_timeline3:
  "parse ''1.1.0'' = Inr (rver 1 1 0)" "parse ''1.0.0'' = Inr (rver 1 0 0)" "parse ''1.0.1'' = Inr (rver 1 0 1)"
  by (simp_all add: parse_eval)

lemma sane_timeline3: "sane_releases timeline3"
  by (simp add: sane_releases_def parse_timeline3 canonical_def open_interval_def)

lemma windows_timeline3:
  "windows timeline3 any_range 150 =
     [\<lparr>wversion = ''1.0.0'', wfrom = 150, wto = 200\<rparr>, \<lparr>wversion = ''1.1.0'', wfrom = 200, wto = open_interval\<rparr>]"
  by (simp add: windows_def parse_timeline3 satisfies_eval publish_less_def window_step_def open_window_def
      clamp_def clamp_one_def open_interval_def)

text \<open>C3: At every instant from the dependent's publish on, some window is open exactly when an admitted version
  was published by then, and the window that is open names an admitted version published by then which no
  other one exceeds: what \<open>npm\<close> would have installed. Releases without a publish time and versions that do
  not parse never count; versions are canonical and published before 2100.\<close>

theorem windows_are_resolution:
  assumes "sane_releases releases" "t < open_interval" "declared_at > 0 \<longrightarrow> declared_at \<le> t"
  shows "((\<exists>w \<in> set (windows releases r declared_at). in_window t w) \<longleftrightarrow> admissible releases r t \<noteq> {})
    \<and> (\<forall>w \<in> set (windows releases r declared_at). in_window t w \<longrightarrow>
         (\<exists>v. (wversion w, v) \<in> admissible releases r t
            \<and> (\<forall>(raw, u) \<in> admissible releases r t. compare u v \<le> 0)))"
  by (rule windows_pick [OF assms])

theorem windows_are_resolution_witness:
  "(\<exists>w \<in> set (windows timeline3 any_range 150). in_window 350 w)
   \<and> (\<exists>v. (''1.1.0'', v) \<in> admissible timeline3 any_range 350
        \<and> (\<forall>(raw, u) \<in> admissible timeline3 any_range 350. compare u v \<le> 0))"
proof -
  let ?w = "\<lparr>wversion = ''1.1.0'', wfrom = 200, wto = open_interval\<rparr>"
  have w: "?w \<in> set (windows timeline3 any_range 150)" "in_window 350 ?w"
    by (simp_all add: windows_timeline3 open_interval_def)
  have bounds: "(350 :: int) < open_interval" "(150 :: int) > 0 \<longrightarrow> (150 :: int) \<le> 350"
    by (simp_all add: open_interval_def)
  show ?thesis
    using windows_are_resolution [OF sane_timeline3 bounds, of any_range, THEN conjunct2, rule_format, OF w] w
    by (intro conjI bexI [of _ ?w]) simp_all
qed

theorem windows_shape_witness:
  "contiguous (windows timeline3 any_range 150) \<and> distinct (List.map wversion (windows timeline3 any_range 150))"
  using windows_shape [OF sane_timeline3, of 150 any_range] by (simp add: open_interval_def)

end
