(* ===== verification/GraphDb.thy ===== *)
theory GraphDb
  imports GoText
begin

text \<open>
  The graph client: \<open>internal/graph/client.go\<close>. HydraDB and the Bolt driver are not part of the
  repository: running one statement is the parameter \<open>run\<close>, on a world the model leaves abstract, and
  what the writes rely on (a statement is a MERGE, so running it again changes nothing) is the locale
  \<open>merge_store\<close>. The property values the readers take apart are here too.
\<close>

subsection \<open>Values\<close>

datatype prim = PNull | PInt int | PStr string | PBool bool | PFloat nat

type_synonym props = "(string, prim) gomap"

text \<open>What a returned column holds: a scalar or a path, given by the properties of its nodes and edges.\<close>

datatype gvalue = Scalar prim | Path "props list" "props list"

type_synonym grecord = "(string, gvalue) gomap"
type_synonym row = props

text \<open>\<open>Client.Query\<close>: the records a statement is answered with.\<close>

type_synonym query_fun = "string \<Rightarrow> grecord list res"

text \<open>Type assertions with two results: the zero value when the type is another.\<close>

definition as_int :: "prim \<Rightarrow> int" where
  "as_int v = (case v of PInt i \<Rightarrow> i | _ \<Rightarrow> 0)"

definition as_str :: "prim \<Rightarrow> string" where
  "as_str v = (case v of PStr s \<Rightarrow> s | _ \<Rightarrow> [])"

definition as_bool :: "prim \<Rightarrow> bool" where
  "as_bool v = (case v of PBool b \<Rightarrow> b | _ \<Rightarrow> False)"

definition int_prop :: "props \<Rightarrow> string \<Rightarrow> int" where
  "int_prop ps key = as_int (getd PNull ps key)"

definition string_prop :: "props \<Rightarrow> string \<Rightarrow> string" where
  "string_prop ps key = as_str (getd PNull ps key)"

definition bool_prop :: "props \<Rightarrow> string \<Rightarrow> bool" where
  "bool_prop ps key = as_bool (getd PNull ps key)"

text \<open>A column of a record read as a scalar; a missing column is a nil value.\<close>

definition column :: "grecord \<Rightarrow> string \<Rightarrow> prim" where
  "column rec key = (case map_of rec key of Some (Scalar v) \<Rightarrow> v | _ \<Rightarrow> PNull)"

subsection \<open>Batched writes\<close>

definition max_batch :: int where
  "max_batch = 1024"

definition default_batch :: int where
  "default_batch = 256"

definition ctx_canceled :: err where
  "ctx_canceled = Sentinel ''context canceled''"

definition ctx_deadline :: err where
  "ctx_deadline = Sentinel ''context deadline exceeded''"

text \<open>\<open>transient\<close> is the driver's classification, \<open>IsRetryable\<close> or \<open>IsConnectivityError\<close>.\<close>

definition retryable :: "(err \<Rightarrow> bool) \<Rightarrow> err \<Rightarrow> bool" where
  "retryable transient e =
     (if err_is e ctx_canceled \<or> err_is e ctx_deadline then False
      else if contains_str (err_text e) ''rejected by admission control'' then False
      else transient e)"

text \<open>
  One chunk. \<open>run\<close> is \<open>sess.Run\<close> followed by \<open>Consume\<close>, \<open>done\<close> says whether the context has ended when
  the wait before a retry looks. The arguments count the attempts made and those left.
\<close>

type_synonym 'w runner = "string \<Rightarrow> row list \<Rightarrow> 'w \<Rightarrow> err option \<times> 'w"

fun run_attempts :: "'w runner \<Rightarrow> (err \<Rightarrow> bool) \<Rightarrow> ('w \<Rightarrow> err option) \<Rightarrow> string \<Rightarrow> row list
    \<Rightarrow> nat \<Rightarrow> nat \<Rightarrow> err option \<Rightarrow> 'w \<Rightarrow> err option \<times> 'w" where
  "run_attempts run transient ended stmt chunk attempt 0 err w = (err, w)"
| "run_attempts run transient ended stmt chunk attempt (Suc left) err w =
     (if attempt > 0 \<and> ended w \<noteq> None then (ended w, w)
      else case run stmt chunk w of
          (None, w') \<Rightarrow> (None, w')
        | (Some e, w') \<Rightarrow>
            if \<not> retryable transient e then (Some e, w')
            else run_attempts run transient ended stmt chunk (attempt + 1) left (Some e) w')"

definition run_chunk :: "'w runner \<Rightarrow> (err \<Rightarrow> bool) \<Rightarrow> ('w \<Rightarrow> err option) \<Rightarrow> string \<Rightarrow> row list \<Rightarrow> 'w \<Rightarrow> err option \<times> 'w" where
  "run_chunk run transient ended stmt chunk w = run_attempts run transient ended stmt chunk 0 3 None w"

function write_chunks :: "'w runner \<Rightarrow> (err \<Rightarrow> bool) \<Rightarrow> ('w \<Rightarrow> err option) \<Rightarrow> string \<Rightarrow> nat \<Rightarrow> nat
    \<Rightarrow> nat \<Rightarrow> row list \<Rightarrow> 'w \<Rightarrow> nat \<times> err option \<times> 'w" where
  "write_chunks run transient ended stmt batch ntotal written rows w =
     (if rows = [] \<or> batch = 0 then (written, None, w)
      else let chunk = take batch rows in
        case run_chunk run transient ended stmt chunk w of
          (Some e, w') \<Rightarrow>
            (written, Some (Wrap (''rows '' @ utoa written @ ''-'' @ utoa (written + length chunk)
               @ '' of '' @ utoa ntotal) e), w')
        | (None, w') \<Rightarrow>
            write_chunks run transient ended stmt batch ntotal (written + length chunk) (drop batch rows) w')"
  by pat_completeness auto
termination
  by (relation "measure (\<lambda>(_, _, _, _, _, _, _, rows, _). length rows)") auto

declare write_chunks.simps [simp del]

definition write_batch :: "'w runner \<Rightarrow> (err \<Rightarrow> bool) \<Rightarrow> ('w \<Rightarrow> err option) \<Rightarrow> string \<Rightarrow> row list \<Rightarrow> int
    \<Rightarrow> 'w \<Rightarrow> nat \<times> err option \<times> 'w" where
  "write_batch run transient ended stmt rows batch w =
     (let b = (if batch \<le> 0 then default_batch else batch) in
      if b > max_batch
      then (0, Some (Msg (''batch size '' @ itoa b @ '' exceeds the HydraDB admission limit of '' @ itoa max_batch)), w)
      else write_chunks run transient ended stmt (nat b) (length rows) 0 rows w)"

subsection \<open>What a write leaves in the graph\<close>

text \<open>
  A statement that succeeds has merged every row; one that fails may have merged some of them. A row
  counts together with its statement.
\<close>

locale merge_store =
  fixes run :: "'w runner" and rows_in :: "'w \<Rightarrow> (string \<times> row) set"
  assumes merged: "run stmt chunk w = (None, w') \<Longrightarrow> rows_in w' = rows_in w \<union> {stmt} \<times> set chunk"
    and failed: "run stmt chunk w = (Some e, w') \<Longrightarrow>
      rows_in w \<subseteq> rows_in w' \<and> rows_in w' \<subseteq> rows_in w \<union> {stmt} \<times> set chunk"
begin

lemma run_attempts_rows:
  assumes "run_attempts run transient ended stmt chunk attempt left err w = (res, w')" "err = None \<Longrightarrow> left > 0"
  shows "rows_in w \<subseteq> rows_in w' \<and> rows_in w' \<subseteq> rows_in w \<union> {stmt} \<times> set chunk
    \<and> (res = None \<longrightarrow> rows_in w' = rows_in w \<union> {stmt} \<times> set chunk)"
  using assms
proof (induction left arbitrary: attempt err w)
  case 0
  then show ?case by (cases err) auto
next
  case (Suc left)
  obtain r1 w1 where one: "run stmt chunk w = (r1, w1)" by fastforce
  consider (ended) "attempt > 0" "ended w \<noteq> None" | (ok) "\<not> (attempt > 0 \<and> ended w \<noteq> None)" "r1 = None"
    | (fail) e where "\<not> (attempt > 0 \<and> ended w \<noteq> None)" "r1 = Some e" by (cases r1) auto
  then show ?case
  proof cases
    case ended
    then have "res \<noteq> None" "w' = w" using Suc.prems(1) by auto
    then show ?thesis by auto
  next
    case ok
    then have "w' = w1" using Suc.prems(1) one by (simp only: run_attempts.simps if_False) simp
    then show ?thesis using merged one ok by simp
  next
    case fail
    note mono = failed [OF one [unfolded fail(2)]]
    show ?thesis
    proof (cases "retryable transient e")
      case True
      then have "run_attempts run transient ended stmt chunk (attempt + 1) left (Some e) w1 = (res, w')"
        using Suc.prems(1) one fail by (simp only: run_attempts.simps if_False) simp
      from Suc.IH [OF this] mono show ?thesis by simp blast
    next
      case False
      then have "res = Some e \<and> w' = w1"
        using Suc.prems(1) one fail by (simp only: run_attempts.simps if_False) simp
      then show ?thesis using mono by simp
    qed
  qed
qed

lemma run_chunk_rows:
  assumes "run_chunk run transient ended stmt chunk w = (res, w')"
  shows "rows_in w \<subseteq> rows_in w' \<and> rows_in w' \<subseteq> rows_in w \<union> {stmt} \<times> set chunk
    \<and> (res = None \<longrightarrow> rows_in w' = rows_in w \<union> {stmt} \<times> set chunk)"
  using run_attempts_rows assms by (simp add: run_chunk_def)

lemma write_chunks_rows:
  assumes "write_chunks run transient ended stmt batch ntotal written rows w = (n, e, w')" "batch > 0"
  shows "written \<le> n \<and> n - written \<le> length rows
    \<and> rows_in w \<union> {stmt} \<times> set (take (n - written) rows) \<subseteq> rows_in w'
    \<and> rows_in w' \<subseteq> rows_in w \<union> {stmt} \<times> set rows
    \<and> (e = None \<longrightarrow> n = written + length rows)"
  using assms
proof (induction "length rows" arbitrary: rows written w rule: less_induct)
  case less
  show ?case
  proof (cases "rows = []")
    case True
    then show ?thesis using less.prems by (auto simp: write_chunks.simps)
  next
    case False
    obtain r1 w1 where one: "run_chunk run transient ended stmt (take batch rows) w = (r1, w1)" by fastforce
    note C = run_chunk_rows [OF one]
    show ?thesis
    proof (cases r1)
      case (Some x)
      then have "n = written" "e \<noteq> None" "w' = w1"
        using less.prems False one by (auto simp: write_chunks.simps [of run _ _ _ _ _ _ rows] Let_def)
      then show ?thesis using C set_take_subset [of batch rows] by auto
    next
      case None
      let ?d = "drop batch rows"
      have rec: "write_chunks run transient ended stmt batch ntotal (written + length (take batch rows)) ?d w1 = (n, e, w')"
        using less.prems False one None by (simp add: write_chunks.simps [of run _ _ _ _ _ _ rows] Let_def)
      have IH: "written + length (take batch rows) \<le> n \<and> n - (written + length (take batch rows)) \<le> length ?d
        \<and> rows_in w1 \<union> {stmt} \<times> set (take (n - (written + length (take batch rows))) ?d) \<subseteq> rows_in w'
        \<and> rows_in w' \<subseteq> rows_in w1 \<union> {stmt} \<times> set ?d
        \<and> (e = None \<longrightarrow> n = written + length (take batch rows) + length ?d)"
        by (rule less.hyps [OF _ rec less.prems(2)]) (use False less.prems(2) in simp)
      have w1: "rows_in w1 = rows_in w \<union> {stmt} \<times> set (take batch rows)" using C None by simp
      have parts: "set (take batch rows) \<union> set ?d = set rows" by (metis append_take_drop_id set_append)
      have "take (n - written) rows = take batch rows @ take (n - (written + length (take batch rows))) ?d"
        using IH by (auto simp: min_def take_add [symmetric] split: if_splits)
      then show ?thesis using IH w1 parts by auto
    qed
  qed
qed

lemma write_batch_rows:
  assumes "write_batch run transient ended stmt rows batch w = (n, e, w')"
  shows "rows_in w \<union> {stmt} \<times> set (take n rows) \<subseteq> rows_in w'
    \<and> rows_in w' \<subseteq> rows_in w \<union> {stmt} \<times> set rows \<and> n \<le> length rows
    \<and> (e = None \<longrightarrow> n = length rows \<and> rows_in w' = rows_in w \<union> {stmt} \<times> set rows)"
proof -
  let ?b = "if batch \<le> 0 then default_batch else batch"
  show ?thesis
  proof (cases "?b > max_batch")
    case True
    then show ?thesis using assms by (auto simp: write_batch_def Let_def)
  next
    case False
    then have "write_chunks run transient ended stmt (nat ?b) (length rows) 0 rows w = (n, e, w')"
      using assms by (simp add: write_batch_def Let_def)
    moreover have "nat ?b > 0" by (simp add: default_batch_def)
    ultimately show ?thesis
      using write_chunks_rows [of transient ended stmt "nat ?b" "length rows" 0 rows w n e w']
      by auto
  qed
qed

end

text \<open>An in-memory graph: a script of the errors the next statements fail with, and the merged rows.\<close>

record mem_graph =
  mem_script :: "err option list"
  mem_rows :: "(string \<times> row) list"

definition mem_run :: "mem_graph runner" where
  "mem_run stmt chunk w =
     (case mem_script w of
        Some e # rest \<Rightarrow> (Some e, w\<lparr>mem_script := rest\<rparr>)
      | sc \<Rightarrow> (None, w\<lparr>mem_script := tl sc, mem_rows := mem_rows w @ List.map (Pair stmt) chunk\<rparr>))"

interpretation mem: merge_store mem_run "\<lambda>w. set (mem_rows w)"
  by unfold_locales (auto simp: mem_run_def split: list.splits option.splits)

text \<open>When a statement merges its rows and re-merging is harmless, \<open>WriteBatch\<close> that reports success has merged
  every row and counted them all; when it reports an error, every row it counted is in the graph and nothing
  but rows of the call was added. Retries, the short last chunk and a failing middle chunk included.\<close>

theorem write_batch_merges:
  assumes "merge_store run rows_in" "write_batch run transient ended stmt rows batch w = (n, e, w')"
  shows "rows_in w \<union> {stmt} \<times> set (take n rows) \<subseteq> rows_in w'
    \<and> rows_in w' \<subseteq> rows_in w \<union> {stmt} \<times> set rows \<and> n \<le> length rows
    \<and> (e = None \<longrightarrow> n = length rows \<and> rows_in w' = rows_in w \<union> {stmt} \<times> set rows)"
  by (rule merge_store.write_batch_rows [OF assms])

theorem write_batch_merges_witness:
  "let rows = [[(''id'', PInt 1)], [(''id'', PInt 2)]];
       w0 = \<lparr>mem_script = [Some (Msg ''leader changed''), None], mem_rows = []\<rparr>;
       r = write_batch mem_run (\<lambda>_. True) (\<lambda>_. None) ''s'' rows 1 w0
   in fst r = 2 \<and> set (mem_rows (snd (snd r))) = {''s''} \<times> set rows"
proof -
  let ?w0 = "\<lparr>mem_script = [Some (Msg ''leader changed''), None], mem_rows = []\<rparr>"
  let ?rows = "[[(''id'', PInt 1)], [(''id'', PInt 2)]] :: row list"
  obtain n e w' where r: "write_batch mem_run (\<lambda>_. True) (\<lambda>_. None) ''s'' ?rows 1 ?w0 = (n, e, w')"
    by (metis prod_cases3)
  then have "e = None"
    by (simp add: write_batch_def max_batch_def write_chunks.simps run_chunk_def numeral_3_eq_3 mem_run_def
        retryable_def ctx_canceled_def ctx_deadline_def contains_str_def)
  then show ?thesis using write_batch_merges [OF mem.merge_store_axioms r] by (simp add: Let_def r)
qed

lemma write_chunks_admitted:
  assumes "\<And>chunk w. chunk \<noteq> [] \<Longrightarrow> length chunk \<le> batch \<Longrightarrow> run stmt chunk w = run' stmt chunk w"
  shows "write_chunks run transient ended stmt batch ntotal written rows w =
    write_chunks run' transient ended stmt batch ntotal written rows w"
proof (induction "length rows" arbitrary: rows written w rule: less_induct)
  case less
  have att: "run_attempts run transient ended stmt chunk a l e v = run_attempts run' transient ended stmt chunk a l e v"
    if "chunk \<noteq> []" "length chunk \<le> batch" for chunk a l e v
    by (induction l arbitrary: a e v) (auto simp: assms [OF that] split: prod.splits option.splits)
  show ?case
  proof (cases "rows = [] \<or> batch = 0")
    case True
    then show ?thesis by (simp add: write_chunks.simps)
  next
    case False
    have "run_chunk run transient ended stmt (take batch rows) w = run_chunk run' transient ended stmt (take batch rows) w"
      unfolding run_chunk_def by (rule att) (use False in auto)
    moreover have "write_chunks run transient ended stmt batch ntotal k (drop batch rows) v =
        write_chunks run' transient ended stmt batch ntotal k (drop batch rows) v" for k v
      by (rule less.hyps) (use False in auto)
    ultimately show ?thesis
      by (simp add: write_chunks.simps [of _ _ _ _ _ _ _ rows] Let_def split: prod.split option.split)
  qed
qed

text \<open>\<open>WriteBatch\<close> never sends the server an empty statement or more than 1,024 rows: two servers that agree on
  the statements of one to 1,024 rows cannot be told apart by it, whatever batch size it is asked for.\<close>

theorem write_batch_admission:
  assumes "\<And>chunk w. chunk \<noteq> [] \<Longrightarrow> int (length chunk) \<le> max_batch \<Longrightarrow> run stmt chunk w = run' stmt chunk w"
  shows "write_batch run transient ended stmt rows batch w = write_batch run' transient ended stmt rows batch w"
  using write_chunks_admitted [of "nat (if batch \<le> 0 then default_batch else batch)" run stmt run'] assms
  by (simp add: write_batch_def Let_def default_batch_def max_batch_def)

theorem write_batch_admission_witness:
  "write_batch mem_run (\<lambda>_. True) (\<lambda>_. None) ''s'' [[(''id'', PInt 1)]] 256 \<lparr>mem_script = [], mem_rows = []\<rparr> =
   write_batch (\<lambda>stmt chunk w. if chunk = [] then (Some (Msg ''rejected''), w) else mem_run stmt chunk w)
     (\<lambda>_. True) (\<lambda>_. None) ''s'' [[(''id'', PInt 1)]] 256 \<lparr>mem_script = [], mem_rows = []\<rparr>"
  by (rule write_batch_admission) simp

end
