(* ===== verification/Reach.thy ===== *)
theory Reach
  imports Complex_Main Interval GoText
begin

text \<open>
  Coexistence-constrained reachability: \<open>internal/query/reach.go\<close>. The union pass reads the graph
  breadth first and caches its edges; the replay walks the cache with interval semantics. The reader of
  edges is the interface \<open>Expander\<close>, here the parameter \<open>out\<close>; its contract is the locale
  \<open>edge_source\<close>. The theorems relate the result to walks whose edges share an instant. The result's
  \<open>float64\<close> ratio is a rational number here; rounding is not modelled.
\<close>

record edge =
  efrom :: string
  eto :: string
  evalid :: interval

record entry =
  eurn :: string
  espan :: interval

record frontier =
  fdepth :: nat
  fentries :: "entry list"

type_synonym reached = "(string, iset) gomap"
type_synonym edge_map = "(string, edge list) gomap"

text \<open>The observer is not a field: what it would be called with is returned as a trace.\<close>

record options =
  owithin :: interval
  max_depth :: int

record reach_result =
  coexistence :: reached
  union_set :: "string list"
  depth_reached :: nat
  truncated :: bool
  edges :: edge_map
  rsources :: "entry list"
  ropts :: options
  kappa :: rat

definition sources :: "string list \<Rightarrow> entry list" where
  "sources urns = List.map (\<lambda>u. \<lparr>eurn = u, espan = always\<rparr>) urns"

definition default_max_depth :: int where
  "default_max_depth = 12"

subsection \<open>The union pass\<close>

record union_state =
  u_seen :: "string list"
  u_edges :: edge_map
  u_depth :: nat

text \<open>Marking a node: the second component collects the nodes not seen before.\<close>

definition mark :: "string list \<times> string list \<Rightarrow> string \<Rightarrow> string list \<times> string list" where
  "mark sn u = (let (seen, new) = sn in if u \<in> set seen then (seen, new) else (seen @ [u], new @ [u]))"

definition take_edge :: "edge_map \<times> string list \<times> string list \<Rightarrow> edge \<Rightarrow> edge_map \<times> string list \<times> string list" where
  "take_edge st e = (let (m, sn) = st in (put (efrom e) (getd [] m (efrom e) @ [e]) m, mark sn (eto e)))"

fun union_loop :: "(string list \<Rightarrow> edge list res) \<Rightarrow> nat \<Rightarrow> nat \<Rightarrow> string list \<Rightarrow> union_state
    \<Rightarrow> (union_state \<times> bool) res" where
  "union_loop out 0 depth frontier st = Inr (st, frontier \<noteq> [])"
| "union_loop out (Suc k) depth frontier st =
     (if frontier = [] then Inr (st, False)
      else case out frontier of
          Inl e \<Rightarrow> Inl (Wrap (''expand depth '' @ utoa depth) e)
        | Inr es \<Rightarrow>
            let (m, seen, nxt) = foldl take_edge (u_edges st, u_seen st, []) es
            in union_loop out k (depth + 1) nxt \<lparr>u_seen = seen, u_edges = m, u_depth = depth + 1\<rparr>)"

definition union_pass :: "(string list \<Rightarrow> edge list res) \<Rightarrow> entry list \<Rightarrow> options \<Rightarrow> (union_state \<times> bool) res" where
  "union_pass out srcs opts =
     (let (seen, frontier) = foldl mark ([], []) (List.map eurn srcs)
      in union_loop out (nat (max_depth opts)) 0 frontier \<lparr>u_seen = seen, u_edges = [], u_depth = 0\<rparr>)"

subsection \<open>The replay\<close>

text \<open>
  What both loops of \<open>replay\<close> do with a candidate node and span: skip a blocked node or an empty
  span, insert, and queue the candidate when the insertion added an instant.
\<close>

definition offer :: "string list \<Rightarrow> reached \<times> entry list \<Rightarrow> entry \<Rightarrow> reached \<times> entry list" where
  "offer blocked st c =
     (let (reached, nxt) = st in
      if eurn c \<in> set blocked then st
      else if iv_empty (espan c) then st
      else let (s, added) = insert_iv (getd [] reached (eurn c)) (espan c) in
        if \<not> added then st else (put (eurn c) s reached, nxt @ [c]))"

definition start_entry :: "options \<Rightarrow> entry \<Rightarrow> entry" where
  "start_entry opts s = \<lparr>eurn = eurn s, espan = intersect (espan s) (owithin opts)\<rparr>"

definition follow :: "entry \<Rightarrow> edge \<Rightarrow> entry" where
  "follow en e = \<lparr>eurn = eto e, espan = intersect (espan en) (evalid e)\<rparr>"

definition replay_round :: "string list \<Rightarrow> edge_map \<Rightarrow> reached \<Rightarrow> entry list \<Rightarrow> reached \<times> entry list" where
  "replay_round blocked es reached frontier =
     foldl (\<lambda>st en. foldl (\<lambda>st e. offer blocked st (follow en e)) st (getd [] es (eurn en))) (reached, []) frontier"

fun replay_loop :: "string list \<Rightarrow> edge_map \<Rightarrow> nat \<Rightarrow> nat \<Rightarrow> reached \<Rightarrow> entry list \<Rightarrow> reached \<times> frontier list" where
  "replay_loop blocked es 0 depth reached fr = (reached, [])"
| "replay_loop blocked es (Suc k) depth reached fr =
     (if fr = [] then (reached, [])
      else let (reached', fr') = replay_round blocked es reached fr;
               (final, seen) = replay_loop blocked es k (depth + 1) reached' fr'
           in (final, (if fr' \<noteq> [] then [\<lparr>fdepth = depth, fentries = fr'\<rparr>] else []) @ seen))"

definition replay :: "entry list \<Rightarrow> options \<Rightarrow> edge_map \<Rightarrow> string list \<Rightarrow> reached \<times> frontier list" where
  "replay srcs opts es blocked =
     (let (reached, fr) = foldl (offer blocked) ([], []) (List.map (start_entry opts) srcs);
          (final, seen) = replay_loop blocked es (nat (max_depth opts)) 1 reached fr
      in (final, (if fr \<noteq> [] then [\<lparr>fdepth = 0, fentries = fr\<rparr>] else []) @ seen))"

subsection \<open>Reach\<close>

definition with_defaults :: "options \<Rightarrow> options" where
  "with_defaults opts =
     \<lparr>owithin = (if owithin opts = \<lparr>ifrom = 0, ito = 0\<rparr> then always else owithin opts),
      max_depth = (if max_depth opts \<le> 0 then default_max_depth else max_depth opts)\<rparr>"

definition kappa_of :: "reached \<Rightarrow> rat" where
  "kappa_of reached =
     (let intervals = foldl (\<lambda>n kv. n + length (snd kv)) 0 reached
      in if length reached > 0 then of_nat intervals / of_nat (length reached) else 0)"

definition reach :: "(string list \<Rightarrow> edge list res) \<Rightarrow> entry list \<Rightarrow> options \<Rightarrow> (reach_result \<times> frontier list) res" where
  "reach out srcs opts0 =
     (let opts = with_defaults opts0 in
      case union_pass out srcs opts of
        Inl e \<Rightarrow> Inl e
      | Inr (us, trunc) \<Rightarrow>
          let (coex, seen) = replay srcs opts (u_edges us) []
          in Inr (\<lparr>coexistence = coex, union_set = u_seen us, depth_reached = u_depth us, truncated = trunc,
                   edges = u_edges us, rsources = srcs, ropts = opts, kappa = kappa_of coex\<rparr>, seen))"

definition phantom_reach :: "reach_result \<Rightarrow> nat" where
  "phantom_reach r = foldl (\<lambda>n u. if length (getd [] (coexistence r) u) = 0 then n + 1 else n) 0 (union_set r)"

definition reached_at :: "reach_result \<Rightarrow> int \<Rightarrow> string list" where
  "reached_at r t = List.map fst (List.filter (\<lambda>kv. list_ex (\<lambda>i. iv_contains i t) (snd kv)) (coexistence r))"

subsection \<open>Walks whose edges coexist\<close>

text \<open>
  A node is reached at instant \<open>t\<close> in \<open>n\<close> steps when a source that exists at \<open>t\<close>, inside the span the
  search is restricted to, has a walk of \<open>n\<close> edges to it, all valid at \<open>t\<close>, that meets no blocked node.
\<close>

inductive coexist :: "string set \<Rightarrow> edge set \<Rightarrow> entry list \<Rightarrow> interval \<Rightarrow> int \<Rightarrow> nat \<Rightarrow> string \<Rightarrow> bool"
  for blocked :: "string set" and E :: "edge set" and srcs :: "entry list" and w :: interval and t :: int where
  source: "s \<in> set srcs \<Longrightarrow> eurn s \<notin> blocked \<Longrightarrow> t \<in> instants (espan s) \<Longrightarrow> t \<in> instants w
    \<Longrightarrow> coexist blocked E srcs w t 0 (eurn s)"
| step: "coexist blocked E srcs w t n (efrom e) \<Longrightarrow> e \<in> E \<Longrightarrow> t \<in> instants (evalid e) \<Longrightarrow> eto e \<notin> blocked
    \<Longrightarrow> coexist blocked E srcs w t (Suc n) (eto e)"

inductive_cases coexist_zeroE: "coexist blocked E srcs w t 0 v"
inductive_cases coexist_SucE: "coexist blocked E srcs w t (Suc n) v"

definition edge_set :: "edge_map \<Rightarrow> edge set" where
  "edge_set m = {e. e \<in> set (getd [] m (efrom e))}"

definition reach_span :: "reached \<Rightarrow> string \<Rightarrow> int set" where
  "reach_span r v = span (getd [] r v)"

definition reach_ok :: "reached \<Rightarrow> bool" where
  "reach_ok r \<longleftrightarrow> distinct (keys r) \<and> (\<forall>v. wf_set (getd [] r v)) \<and> (\<forall>v \<in> set (keys r). getd [] r v \<noteq> [])"

lemma reach_ok_Nil [simp]: "reach_ok []"
  by (simp add: reach_ok_def)

lemma reach_span_Nil [simp]: "reach_span [] v = {}"
  by (simp add: reach_span_def)

lemma reach_ok_keys: "reach_ok r \<Longrightarrow> v \<in> set (keys r) \<longleftrightarrow> reach_span r v \<noteq> {}"
  using wf_span_empty [of "getd [] r v"] getd_notin [of v r "[]"]
  by (cases "v \<in> set (keys r)") (auto simp: reach_ok_def reach_span_def)

text \<open>The candidates of a fold of \<open>offer\<close> that count, at a node.\<close>

definition offered :: "string set \<Rightarrow> entry list \<Rightarrow> string \<Rightarrow> int set" where
  "offered blocked cs v = (\<Union>c \<in> {c \<in> set cs. eurn c = v \<and> v \<notin> blocked}. instants (espan c))"

lemma offered_mem:
  "c \<in> set cs \<Longrightarrow> eurn c \<notin> blocked \<Longrightarrow> t \<in> instants (espan c) \<Longrightarrow> t \<in> offered blocked cs (eurn c)"
  by (auto simp: offered_def)

lemma offered_Cons:
  "offered blocked (c # cs) v =
     (if eurn c = v \<and> v \<notin> blocked then instants (espan c) else {}) \<union> offered blocked cs v"
  by (auto simp: offered_def)

lemma offer_cases:
  assumes "reach_ok r" "offer blocked (r, n) c = (r', n')"
  shows "reach_ok r' \<and> (\<forall>v. reach_span r' v = reach_span r v \<union> offered (set blocked) [c] v)
    \<and> (n' = n \<and> r' = r \<and> offered (set blocked) [c] (eurn c) \<subseteq> reach_span r (eurn c)
       \<or> n' = n @ [c] \<and> eurn c \<notin> set blocked)"
proof -
  let ?s = "getd [] r (eurn c)"
  have wf: "wf_set ?s" using assms(1) by (simp add: reach_ok_def)
  note ins = wf_insert_iv [OF wf, of "espan c"] span_insert_iv [OF wf, of "espan c"] added_insert_iv [OF wf, of "espan c"]
  consider (skip) "eurn c \<in> set blocked \<or> iv_empty (espan c)"
    | (old) "eurn c \<notin> set blocked" "\<not> iv_empty (espan c)" "\<not> snd (insert_iv ?s (espan c))"
    | (new) "eurn c \<notin> set blocked" "\<not> iv_empty (espan c)" "snd (insert_iv ?s (espan c))" by auto
  then show ?thesis
  proof cases
    case skip
    then have "offered (set blocked) [c] v = {}" for v
      using instants_empty_iff [of "espan c"] by (auto simp: offered_def)
    moreover have "r' = r \<and> n' = n" using skip assms(2) by (auto simp: offer_def split: if_splits)
    ultimately show ?thesis using assms(1) by blast
  next
    case old
    then have "instants (espan c) \<subseteq> span ?s" using ins by simp
    then have "offered (set blocked) [c] v \<subseteq> reach_span r v" for v
      by (auto simp: offered_def reach_span_def)
    moreover have "r' = r" "n' = n" using old assms(2) by (auto simp: offer_def split: prod.splits)
    ultimately show ?thesis using assms(1) by blast
  next
    case new
    then have r': "r' = put (eurn c) (fst (insert_iv ?s (espan c))) r" "n' = n @ [c]"
      using assms(2) by (auto simp: offer_def split: prod.splits)
    have "reach_span r' v = reach_span r v \<union> offered (set blocked) [c] v" for v
      using new ins(2) by (auto simp: r' reach_span_def offered_def)
    moreover have "fst (insert_iv ?s (espan c)) \<noteq> []"
      using ins(2) new instants_empty_iff [of "espan c"] by auto
    ultimately show ?thesis
      using assms(1) new ins(1) r' by (auto simp: reach_ok_def distinct_keys_put)
  qed
qed

lemma offer_fold:
  assumes "reach_ok r" "foldl (offer blocked) (r, n) cs = (r', n')"
  shows "reach_ok r' \<and> (\<forall>v. reach_span r' v = reach_span r v \<union> offered (set blocked) cs v)
    \<and> (\<exists>new. n' = n @ new \<and> set new \<subseteq> {c \<in> set cs. eurn c \<notin> set blocked}
        \<and> (\<forall>v. reach_span r' v \<subseteq> reach_span r v \<union> offered (set blocked) new v))"
  using assms
proof (induction cs arbitrary: r n)
  case Nil
  then show ?case by (auto simp: offered_def)
next
  case (Cons c cs)
  obtain r1 n1 where one: "offer blocked (r, n) c = (r1, n1)" by fastforce
  note O = offer_cases [OF Cons.prems(1) one]
  from Cons.prems(2) one have "foldl (offer blocked) (r1, n1) cs = (r', n')" by simp
  note IH = Cons.IH [OF conjunct1 [OF O] this]
  obtain new where new: "n' = n1 @ new" "set new \<subseteq> {c \<in> set cs. eurn c \<notin> set blocked}"
    "\<And>v. reach_span r' v \<subseteq> reach_span r1 v \<union> offered (set blocked) new v"
    using IH by blast
  have "\<exists>new'. n' = n @ new' \<and> set new' \<subseteq> {c' \<in> set (c # cs). eurn c' \<notin> set blocked}
        \<and> (\<forall>v. reach_span r' v \<subseteq> reach_span r v \<union> offered (set blocked) new' v)"
  proof (cases "n1 = n \<and> r1 = r")
    case True
    then show ?thesis using new by (intro exI [of _ new]) auto
  next
    case False
    then have "n1 = n @ [c]" "eurn c \<notin> set blocked" using O by auto
    then show ?thesis
      using new O by (intro exI [of _ "c # new"]) (auto simp: offered_Cons offered_def)
  qed
  then show ?case using IH O by (auto simp: offered_Cons [of _ c cs] offered_def)
qed

lemma offered_map:
  "offered blocked (concat (List.map (\<lambda>en. List.map (follow en) (getd [] m (eurn en))) fr)) v =
     {t. v \<notin> blocked \<and> (\<exists>en \<in> set fr. \<exists>e \<in> set (getd [] m (eurn en)). eto e = v \<and> t \<in> instants (espan en) \<and> t \<in> instants (evalid e))}"
  by (fastforce simp: offered_def follow_def)

lemma replay_round_fold:
  "replay_round blocked m r fr =
     foldl (offer blocked) (r, []) (concat (List.map (\<lambda>en. List.map (follow en) (getd [] m (eurn en))) fr))"
proof -
  have "foldl (\<lambda>st en. foldl (\<lambda>st e. offer blocked st (follow en e)) st (getd [] m (eurn en))) st fr =
     foldl (offer blocked) st (concat (List.map (\<lambda>en. List.map (follow en) (getd [] m (eurn en))) fr))" for st
    by (induction fr arbitrary: st) (simp_all add: foldl_map)
  then show ?thesis by (simp add: replay_round_def)
qed

text \<open>
  The invariant after the round of depth \<open>d\<close>: a node holds an instant exactly when a walk of at most
  \<open>d\<close> edges reaches it then, and the instants no shorter walk gives are in the frontier.
\<close>

definition keyed_by_source :: "edge_map \<Rightarrow> bool" where
  "keyed_by_source m \<longleftrightarrow> (\<forall>u. \<forall>e \<in> set (getd [] m u). efrom e = u)"

definition replay_inv :: "string set \<Rightarrow> edge_map \<Rightarrow> entry list \<Rightarrow> interval \<Rightarrow> nat \<Rightarrow> reached \<Rightarrow> entry list \<Rightarrow> bool" where
  "replay_inv blocked m srcs w d r fr \<longleftrightarrow>
     reach_ok r
     \<and> (\<forall>v t. t \<in> reach_span r v \<longleftrightarrow> (\<exists>n \<le> d. coexist blocked (edge_set m) srcs w t n v))
     \<and> (\<forall>en \<in> set fr. \<forall>t \<in> instants (espan en). coexist blocked (edge_set m) srcs w t d (eurn en))
     \<and> (\<forall>v t. coexist blocked (edge_set m) srcs w t d v \<longrightarrow> (\<forall>n < d. \<not> coexist blocked (edge_set m) srcs w t n v)
          \<longrightarrow> (\<exists>en \<in> set fr. eurn en = v \<and> t \<in> instants (espan en)))"

lemma coexist_not_blocked: "coexist blocked E srcs w t n v \<Longrightarrow> v \<notin> blocked"
  by (induction rule: coexist.induct) auto

lemma replay_start:
  assumes "foldl (offer blocked) ([], []) (List.map (start_entry opts) srcs) = (r, fr)"
  shows "replay_inv (set blocked) m srcs (owithin opts) 0 r fr"
proof -
  let ?cs = "List.map (start_entry opts) srcs"
  have zero: "coexist (set blocked) (edge_set m) srcs (owithin opts) t 0 v \<longleftrightarrow> t \<in> offered (set blocked) ?cs v" for t v
    by (force simp: offered_def start_entry_def elim!: coexist_zeroE intro: coexist.source)
  note F = offer_fold [OF reach_ok_Nil assms]
  have spans: "t \<in> reach_span r v \<longleftrightarrow> coexist (set blocked) (edge_set m) srcs (owithin opts) t 0 v" for t v
    using F zero by simp
  obtain new where "fr = [] @ new" "set new \<subseteq> {c \<in> set ?cs. eurn c \<notin> set blocked}"
    "\<And>v. reach_span r v \<subseteq> reach_span [] v \<union> offered (set blocked) new v"
    using F by blast
  then have fr: "set fr \<subseteq> {c \<in> set ?cs. eurn c \<notin> set blocked}" "\<And>v. reach_span r v \<subseteq> offered (set blocked) fr v"
    by simp_all
  have "coexist (set blocked) (edge_set m) srcs (owithin opts) t 0 (eurn en)"
    if "en \<in> set fr" "t \<in> instants (espan en)" for en t
    using that fr(1) unfolding zero by (auto simp: offered_def)
  moreover have "\<exists>en \<in> set fr. eurn en = v \<and> t \<in> instants (espan en)"
    if "coexist (set blocked) (edge_set m) srcs (owithin opts) t 0 v" for t v
    using that fr(2) [of v] spans by (auto simp: offered_def)
  ultimately show ?thesis using F spans by (simp add: replay_inv_def)
qed

lemma replay_round_inv:
  assumes "keyed_by_source m" "replay_inv (set blocked) m srcs w d r fr" "replay_round blocked m r fr = (r', fr')"
  shows "replay_inv (set blocked) m srcs w (Suc d) r' fr'"
proof -
  let ?C = "coexist (set blocked) (edge_set m) srcs w"
  let ?cs = "concat (List.map (\<lambda>en. List.map (follow en) (getd [] m (eurn en))) fr)"
  note inv = assms(2) [unfolded replay_inv_def]
  note F = offer_fold [OF conjunct1 [OF inv] assms(3) [unfolded replay_round_fold]]
  have edge_iff: "e \<in> set (getd [] m u) \<longleftrightarrow> e \<in> edge_set m \<and> efrom e = u" for e u
    using assms(1) by (auto simp: keyed_by_source_def edge_set_def)
  have step_sound: "?C t (Suc d) v" if "t \<in> offered (set blocked) ?cs v" for t v
  proof -
    from that obtain en e where e: "v \<notin> set blocked" "en \<in> set fr" "e \<in> set (getd [] m (eurn en))" "eto e = v"
      "t \<in> instants (espan en)" "t \<in> instants (evalid e)"
      unfolding offered_map by blast
    have "?C t d (efrom e)" using inv e edge_iff by auto
    then show ?thesis using coexist.step [of "set blocked" "edge_set m" srcs w t d e] e edge_iff by auto
  qed
  have step_complete: "t \<in> offered (set blocked) ?cs v"
    if "?C t (Suc d) v" "\<And>n. n < Suc d \<Longrightarrow> \<not> ?C t n v" for t v
  proof -
    from that(1) obtain e where e: "?C t d (efrom e)" "e \<in> edge_set m" "t \<in> instants (evalid e)" "eto e = v" "v \<notin> set blocked"
      by (auto elim: coexist_SucE)
    have "\<not> ?C t n (efrom e)" if "n < d" for n
      using coexist.step [of "set blocked" "edge_set m" srcs w t n e] e \<open>\<And>n. n < Suc d \<Longrightarrow> \<not> ?C t n v\<close> [of "Suc n"] that by auto
    then obtain en where "en \<in> set fr" "eurn en = efrom e" "t \<in> instants (espan en)" using inv e(1) by blast
    moreover from this have "e \<in> set (getd [] m (eurn en))" using e edge_iff by simp
    ultimately show ?thesis unfolding offered_map using e by blast
  qed
  have spans: "t \<in> reach_span r' v \<longleftrightarrow> (\<exists>n \<le> Suc d. ?C t n v)" for t v
  proof
    assume "t \<in> reach_span r' v"
    then consider "t \<in> reach_span r v" | "t \<in> offered (set blocked) ?cs v" using F by blast
    then show "\<exists>n \<le> Suc d. ?C t n v"
    proof cases
      case 1
      then obtain n where "n \<le> d" "?C t n v" using inv by blast
      then show ?thesis by (intro exI [of _ n]) simp
    next
      case 2
      then show ?thesis using step_sound by blast
    qed
  next
    assume "\<exists>n \<le> Suc d. ?C t n v"
    then obtain n where n: "n \<le> Suc d" "?C t n v" by blast
    show "t \<in> reach_span r' v"
    proof (cases "\<exists>n \<le> d. ?C t n v")
      case True
      then have "t \<in> reach_span r v" using inv by blast
      then show ?thesis using F by blast
    next
      case False
      then have "n = Suc d" using n le_SucE by blast
      then have "t \<in> offered (set blocked) ?cs v"
        using step_complete [of t v] n False by (simp add: less_Suc_eq_le)
      then show ?thesis using F by blast
    qed
  qed
  obtain nw where "fr' = [] @ nw" "set nw \<subseteq> {c \<in> set ?cs. eurn c \<notin> set blocked}"
    "\<And>v. reach_span r' v \<subseteq> reach_span r v \<union> offered (set blocked) nw v"
    using F by blast
  then have new: "set fr' \<subseteq> {c \<in> set ?cs. eurn c \<notin> set blocked}"
    "\<And>v. reach_span r' v \<subseteq> reach_span r v \<union> offered (set blocked) fr' v"
    by simp_all
  have "?C t (Suc d) (eurn en)" if "en \<in> set fr'" "t \<in> instants (espan en)" for en t
    by (rule step_sound, rule offered_mem) (use that new(1) in blast)+
  moreover have "\<exists>en \<in> set fr'. eurn en = v \<and> t \<in> instants (espan en)"
    if "?C t (Suc d) v" "\<forall>n < Suc d. \<not> ?C t n v" for t v
  proof -
    have "t \<in> reach_span r' v" using that(1) spans by blast
    moreover have "t \<notin> reach_span r v" using that(2) inv by (auto simp: less_Suc_eq_le)
    ultimately have "t \<in> offered (set blocked) fr' v" using new(2) [of v] by blast
    then show ?thesis by (auto simp: offered_def)
  qed
  ultimately show ?thesis unfolding replay_inv_def using F spans by blast
qed

text \<open>An empty frontier is a fixed point: no longer walk reaches anything new.\<close>

lemma replay_inv_empty:
  assumes "replay_inv blocked m srcs w d r []" "coexist blocked (edge_set m) srcs w t n v"
  shows "\<exists>n' < d. coexist blocked (edge_set m) srcs w t n' v"
  using assms(2)
proof (induction n arbitrary: v rule: less_induct)
  case (less n)
  have at_d: "\<exists>k < d. coexist blocked (edge_set m) srcs w t k u" if "coexist blocked (edge_set m) srcs w t d u" for u
    using assms(1) that by (auto simp: replay_inv_def)
  show ?case
  proof (cases "n < d")
    case True
    then show ?thesis using less.prems by blast
  next
    case False
    show ?thesis
    proof (cases n)
      case 0
      then show ?thesis using False at_d less.prems by auto
    next
      case (Suc k)
      then obtain e where e: "coexist blocked (edge_set m) srcs w t k (efrom e)" "e \<in> edge_set m"
        "t \<in> instants (evalid e)" "eto e = v" "v \<notin> blocked"
        using less.prems by (auto elim: coexist_SucE)
      obtain k' where k': "k' < d" "coexist blocked (edge_set m) srcs w t k' (efrom e)"
        using less.IH [of k] e Suc by auto
      then have "coexist blocked (edge_set m) srcs w t (Suc k') v" using coexist.step e by metis
      then show ?thesis using k'(1) at_d by (metis Suc_lessI)
    qed
  qed
qed

lemma replay_loop_inv:
  assumes "keyed_by_source m" "replay_inv (set blocked) m srcs w d r fr"
    "fst (replay_loop blocked m k depth r fr) = r'"
  shows "reach_ok r' \<and> (\<forall>v t. t \<in> reach_span r' v \<longleftrightarrow> (\<exists>n \<le> d + k. coexist (set blocked) (edge_set m) srcs w t n v))"
  using assms(2,3)
proof (induction k arbitrary: d depth r fr)
  case 0
  then show ?case by (simp add: replay_inv_def)
next
  case (Suc k)
  show ?case
  proof (cases "fr = []")
    case True
    note inv = Suc.prems(1) [unfolded True]
    have "(\<exists>n \<le> d + Suc k. coexist (set blocked) (edge_set m) srcs w t n v) \<longleftrightarrow>
        (\<exists>n \<le> d. coexist (set blocked) (edge_set m) srcs w t n v)" for t v
      using replay_inv_empty [OF inv] by (meson le_add1 le_trans less_imp_le)
    then show ?thesis using inv Suc.prems(2) True by (simp add: replay_inv_def)
  next
    case False
    obtain r1 fr1 where one: "replay_round blocked m r fr = (r1, fr1)" by fastforce
    have "replay_inv (set blocked) m srcs w (Suc d) r1 fr1"
      by (rule replay_round_inv [OF assms(1) Suc.prems(1) one])
    moreover have "fst (replay_loop blocked m k (depth + 1) r1 fr1) = r'"
      using Suc.prems(2) False one by (simp add: case_prod_unfold Let_def)
    ultimately show ?thesis using Suc.IH [of "Suc d" r1 fr1 "depth + 1"] by simp
  qed
qed

text \<open>What the replay returns: the instants of the walks of at most \<open>MaxDepth\<close> edges, as maximal spans.\<close>

lemma replay_correct:
  assumes "keyed_by_source m"
  shows "reach_ok (fst (replay srcs opts m blocked))
    \<and> (\<forall>v t. t \<in> reach_span (fst (replay srcs opts m blocked)) v \<longleftrightarrow>
         (\<exists>n \<le> nat (max_depth opts). coexist (set blocked) (edge_set m) srcs (owithin opts) t n v))"
proof -
  obtain r fr where start: "foldl (offer blocked) ([], []) (List.map (start_entry opts) srcs) = (r, fr)" by fastforce
  have "fst (replay srcs opts m blocked) = fst (replay_loop blocked m (nat (max_depth opts)) 1 r fr)"
    by (simp add: replay_def start case_prod_unfold Let_def)
  then show ?thesis
    using replay_loop_inv [OF assms replay_start [OF start], of "nat (max_depth opts)" 1] by simp
qed

subsection \<open>The graph read through an expander\<close>

text \<open>Walks that ignore the intervals.\<close>

inductive uwalk :: "edge set \<Rightarrow> string set \<Rightarrow> nat \<Rightarrow> string \<Rightarrow> bool" for G :: "edge set" and S :: "string set" where
  source: "v \<in> S \<Longrightarrow> uwalk G S 0 v"
| step: "uwalk G S n (efrom e) \<Longrightarrow> e \<in> G \<Longrightarrow> uwalk G S (Suc n) (eto e)"

inductive_cases uwalk_zeroE: "uwalk G S 0 v"
inductive_cases uwalk_SucE: "uwalk G S (Suc n) v"

lemma coexist_uwalk: "coexist blocked G srcs w t n v \<Longrightarrow> uwalk G (eurn ` set srcs) n v"
  by (induction rule: coexist.induct) (auto intro: uwalk.intros)

lemma take_edge_fold:
  assumes "foldl take_edge (m, seen, new) es = (m', seen', new')"
    and "distinct seen" "distinct new" "set new \<subseteq> set seen"
  shows "(\<forall>u. set (getd [] m' u) = set (getd [] m u) \<union> {e \<in> set es. efrom e = u})
    \<and> set seen' = set seen \<union> eto ` set es \<and> set new' = set new \<union> (eto ` set es - set seen)
    \<and> distinct seen' \<and> distinct new' \<and> set new' \<subseteq> set seen'"
  using assms
proof (induction es arbitrary: m seen new)
  case (Cons e es)
  obtain m1 seen1 new1 where one: "take_edge (m, seen, new) e = (m1, seen1, new1)" by (metis prod_cases3)
  then have "distinct seen1" "distinct new1" "set new1 \<subseteq> set seen1"
    and 1: "set seen1 = insert (eto e) (set seen)" "set new1 = set new \<union> ({eto e} - set seen)"
      "\<And>u. set (getd [] m1 u) = set (getd [] m u) \<union> (if efrom e = u then {e} else {})"
    using Cons.prems(2-4) by (auto simp: take_edge_def mark_def split: if_splits)
  moreover have "foldl take_edge (m1, seen1, new1) es = (m', seen', new')" using Cons.prems(1) one by simp
  ultimately show ?case using Cons.IH [of m1 seen1 new1] by (auto simp: 1)
qed simp

text \<open>The contract of \<open>Expander\<close>: an answer holds exactly the edges that leave the nodes asked about.\<close>

locale edge_source =
  fixes out :: "string list \<Rightarrow> edge list res" and G :: "edge set"
  assumes answers: "out urns = Inr es \<Longrightarrow> set es = {e \<in> G. efrom e \<in> set urns}"
begin

definition union_inv :: "string set \<Rightarrow> nat \<Rightarrow> string list \<Rightarrow> union_state \<Rightarrow> bool" where
  "union_inv S d fr st \<longleftrightarrow>
     set (u_seen st) = {v. \<exists>n \<le> d. uwalk G S n v} \<and> distinct (u_seen st)
     \<and> set fr = {v. uwalk G S d v \<and> (\<forall>n < d. \<not> uwalk G S n v)} \<and> distinct fr
     \<and> (\<forall>u. set (getd [] (u_edges st) u) = (if \<exists>n < d. uwalk G S n u then {e \<in> G. efrom e = u} else {}))"

lemma union_inv_step:
  assumes "union_inv S d fr st" "out fr = Inr es"
    and "foldl take_edge (u_edges st, u_seen st, []) es = (m, seen, nxt)"
  shows "union_inv S (Suc d) nxt \<lparr>u_seen = seen, u_edges = m, u_depth = k\<rparr>"
proof -
  note inv = assms(1) [unfolded union_inv_def]
  note F = take_edge_fold [OF assms(3) conjunct1 [OF conjunct2 [OF inv]]]
  have es: "set es = {e \<in> G. efrom e \<in> set fr}" by (rule answers [OF assms(2)])
  have tos: "eto ` set es \<subseteq> {v. uwalk G S (Suc d) v}"
    using inv by (auto simp: es intro: uwalk.step)
  have fresh: "v \<in> eto ` set es" if "uwalk G S (Suc d) v" "\<And>n. n < Suc d \<Longrightarrow> \<not> uwalk G S n v" for v
  proof -
    from that(1) obtain e where e: "uwalk G S d (efrom e)" "e \<in> G" "eto e = v" by (auto elim: uwalk_SucE)
    have "\<not> uwalk G S n (efrom e)" if "n < d" for n
      using uwalk.step [of G S n e] e \<open>\<And>n. n < Suc d \<Longrightarrow> \<not> uwalk G S n v\<close> [of "Suc n"] that by auto
    then have "efrom e \<in> set fr" using inv e by blast
    then show ?thesis using es e by blast
  qed
  have seen: "set seen = {v. \<exists>n \<le> Suc d. uwalk G S n v}"
  proof -
    have "set seen = {v. \<exists>n \<le> d. uwalk G S n v} \<union> eto ` set es" using F inv by simp
    then show ?thesis using tos fresh by (auto simp: le_Suc_eq less_Suc_eq_le)
  qed
  have "set nxt = eto ` set es - {v. \<exists>n \<le> d. uwalk G S n v}" using F inv by simp
  then have nxt: "set nxt = {v. uwalk G S (Suc d) v \<and> (\<forall>n < Suc d. \<not> uwalk G S n v)}"
    using tos fresh by (auto simp: less_Suc_eq_le)
  have "set (getd [] m u) = (if \<exists>n < Suc d. uwalk G S n u then {e \<in> G. efrom e = u} else {})" for u
  proof -
    have "set (getd [] m u) = (if \<exists>n < d. uwalk G S n u then {e \<in> G. efrom e = u} else {}) \<union> {e \<in> G. e \<in> set es \<and> efrom e = u}"
      using F inv es by auto
    moreover have "u \<in> set fr \<longleftrightarrow> uwalk G S d u \<and> (\<forall>n < d. \<not> uwalk G S n u)" using inv by simp
    ultimately show ?thesis unfolding es by (auto simp: less_Suc_eq)
  qed
  then show ?thesis using F seen nxt unfolding union_inv_def by simp
qed

lemma union_inv_empty:
  assumes "union_inv S d [] st" "uwalk G S n v" shows "\<exists>n' < d. uwalk G S n' v"
  using assms(2)
proof (induction n arbitrary: v rule: less_induct)
  case (less n)
  have at_d: "\<exists>k < d. uwalk G S k u" if "uwalk G S d u" for u
    using assms(1) that by (auto simp: union_inv_def)
  show ?case
  proof (cases "n < d")
    case False
    show ?thesis
    proof (cases n)
      case 0
      then show ?thesis using False at_d less.prems by auto
    next
      case (Suc k)
      then obtain e where e: "uwalk G S k (efrom e)" "e \<in> G" "eto e = v" using less.prems by (auto elim: uwalk_SucE)
      then obtain k' where "k' < d" "uwalk G S (Suc k') v" using less.IH [of k] Suc uwalk.step by blast
      then show ?thesis using at_d by (metis Suc_lessI)
    qed
  qed (use less.prems in blast)
qed

lemma union_inv_done:
  assumes "union_inv S d [] st" "d \<le> j"
  shows "(\<exists>n \<le> j. uwalk G S n v) \<longleftrightarrow> (\<exists>n \<le> d. uwalk G S n v)"
    and "(\<exists>n < j. uwalk G S n v) \<longleftrightarrow> (\<exists>n < d. uwalk G S n v)"
    and "uwalk G S m v \<Longrightarrow> v \<in> set (u_seen st)"
proof -
  have stop: "\<exists>n' < d. uwalk G S n' v" if "uwalk G S n v" for n by (rule union_inv_empty [OF assms(1) that])
  show "(\<exists>n \<le> j. uwalk G S n v) \<longleftrightarrow> (\<exists>n \<le> d. uwalk G S n v)"
    using stop assms(2) by (meson le_trans less_imp_le)
  show "(\<exists>n < j. uwalk G S n v) \<longleftrightarrow> (\<exists>n < d. uwalk G S n v)"
    using stop assms(2) by (meson less_le_trans)
  assume "uwalk G S m v"
  then have "\<exists>n \<le> d. uwalk G S n v" using stop by (meson less_imp_le)
  then show "v \<in> set (u_seen st)" using assms(1) by (simp add: union_inv_def)
qed

lemma union_loop_inv:
  assumes "union_inv S d fr st" "union_loop out k depth fr st = Inr (st', trunc)"
  shows "set (u_seen st') = {v. \<exists>n \<le> d + k. uwalk G S n v} \<and> distinct (u_seen st')
    \<and> (\<forall>u. set (getd [] (u_edges st') u) = (if \<exists>n < d + k. uwalk G S n u then {e \<in> G. efrom e = u} else {}))
    \<and> (\<not> trunc \<longrightarrow> (\<forall>n v. uwalk G S n v \<longrightarrow> v \<in> set (u_seen st')))"
  using assms
proof (induction k arbitrary: d depth fr st)
  case 0
  have "\<forall>n v. uwalk G S n v \<longrightarrow> v \<in> set (u_seen st)" if empty: "fr = []"
    using union_inv_done(3) [OF 0(1) [unfolded empty] order_refl] by blast
  then show ?case using 0 by (auto simp: union_inv_def)
next
  case (Suc k)
  show ?case
  proof (cases "fr = []")
    case True
    note inv = Suc.prems(1) [unfolded True] and st = Suc.prems(2)
    note stopped = union_inv_done [OF inv, of "d + Suc k", simplified]
    have "st' = st" "\<not> trunc" using st True by auto
    then show ?thesis using inv stopped unfolding union_inv_def by simp
  next
    case False
    then obtain es where es: "out fr = Inr es" using Suc.prems(2) by (auto split: sum.splits)
    obtain m seen nxt where F: "foldl take_edge (u_edges st, u_seen st, []) es = (m, seen, nxt)" by (metis prod_cases3)
    have "union_loop out k (depth + 1) nxt \<lparr>u_seen = seen, u_edges = m, u_depth = depth + 1\<rparr> = Inr (st', trunc)"
      using Suc.prems(2) False es F by simp
    from Suc.IH [OF union_inv_step [OF Suc.prems(1) es F] this] show ?thesis
      unfolding add_Suc_right add_Suc .
  qed
qed

lemma union_pass_correct:
  assumes "union_pass out srcs opts = Inr (st, trunc)"
  defines "S \<equiv> eurn ` set srcs" and "D \<equiv> nat (max_depth opts)"
  shows "set (u_seen st) = {v. \<exists>n \<le> D. uwalk G S n v}" "distinct (u_seen st)"
    and "\<And>u. set (getd [] (u_edges st) u) = (if \<exists>n < D. uwalk G S n u then {e \<in> G. efrom e = u} else {})"
    and "\<not> trunc \<Longrightarrow> uwalk G S n v \<Longrightarrow> v \<in> set (u_seen st)"
proof -
  obtain seen fr where start: "foldl mark ([], []) (List.map eurn srcs) = (seen, fr)" by fastforce
  have marks: "set (fst (foldl mark (a, a) us)) = set a \<union> set us \<and> distinct (fst (foldl mark (a, a) us))
      \<and> snd (foldl mark (a, a) us) = fst (foldl mark (a, a) us)" if "distinct a" for a us
    using that by (induction us arbitrary: a) (auto simp: mark_def Let_def)
  from marks [of "[]" "List.map eurn srcs"] start have 0: "set seen = S" "distinct seen" "fr = seen" by (auto simp: S_def)
  have "uwalk G S 0 v \<longleftrightarrow> v \<in> S" for v by (auto elim: uwalk_zeroE intro: uwalk.source)
  then have inv: "union_inv S 0 fr \<lparr>u_seen = seen, u_edges = [], u_depth = 0\<rparr>"
    using 0 by (auto simp: union_inv_def)
  have "union_loop out D 0 fr \<lparr>u_seen = seen, u_edges = [], u_depth = 0\<rparr> = Inr (st, trunc)"
    using assms(1) start by (simp add: union_pass_def D_def)
  note L = union_loop_inv [OF inv this]
  show "set (u_seen st) = {v. \<exists>n \<le> D. uwalk G S n v}" "distinct (u_seen st)"
    "\<And>u. set (getd [] (u_edges st) u) = (if \<exists>n < D. uwalk G S n u then {e \<in> G. efrom e = u} else {})"
    "\<not> trunc \<Longrightarrow> uwalk G S n v \<Longrightarrow> v \<in> set (u_seen st)"
    using L by auto
qed

text \<open>The cache holds every edge a walk within the bound can use.\<close>

lemma coexist_cached:
  assumes "union_pass out srcs opts = Inr (st, trunc)" "n \<le> nat (max_depth opts)"
  shows "coexist blocked (edge_set (u_edges st)) srcs w t n v \<longleftrightarrow> coexist blocked G srcs w t n v"
  using assms(2)
proof (induction n arbitrary: v)
  case 0
  show ?case by (auto elim!: coexist_zeroE intro: coexist.source)
next
  case (Suc n)
  note cache = union_pass_correct(3) [OF assms(1)]
  have sub: "edge_set (u_edges st) \<subseteq> G" using cache by (auto simp: edge_set_def split: if_splits)
  show ?case
  proof
    assume "coexist blocked (edge_set (u_edges st)) srcs w t (Suc n) v"
    then show "coexist blocked G srcs w t (Suc n) v"
      using Suc sub by (auto elim!: coexist_SucE intro!: coexist.step)
  next
    assume "coexist blocked G srcs w t (Suc n) v"
    then obtain e where e: "coexist blocked G srcs w t n (efrom e)" "e \<in> G" "t \<in> instants (evalid e)" "eto e = v" "v \<notin> blocked"
      by (auto elim: coexist_SucE)
    have "\<exists>n < nat (max_depth opts). uwalk G (eurn ` set srcs) n (efrom e)"
      using coexist_uwalk [OF e(1)] Suc.prems by (intro exI [of _ n]) simp
    then have "e \<in> edge_set (u_edges st)" using cache e by (simp add: edge_set_def)
    then show "coexist blocked (edge_set (u_edges st)) srcs w t (Suc n) v"
      using Suc e coexist.step [of blocked "edge_set (u_edges st)" srcs w t n e] by simp
  qed
qed

lemma cache_keyed: "union_pass out srcs opts = Inr (st, trunc) \<Longrightarrow> keyed_by_source (u_edges st)"
  by (auto simp: keyed_by_source_def union_pass_correct(3) split: if_splits)

lemma replay_cached:
  assumes "union_pass out srcs opts = Inr (st, trunc)"
  shows "reach_ok (fst (replay srcs opts (u_edges st) blocked))
    \<and> (\<forall>v t. t \<in> reach_span (fst (replay srcs opts (u_edges st) blocked)) v \<longleftrightarrow>
         (\<exists>n \<le> nat (max_depth opts). coexist (set blocked) G srcs (owithin opts) t n v))"
proof -
  have "(\<exists>n \<le> nat (max_depth opts). coexist (set blocked) (edge_set (u_edges st)) srcs (owithin opts) t n v) \<longleftrightarrow>
      (\<exists>n \<le> nat (max_depth opts). coexist (set blocked) G srcs (owithin opts) t n v)" for t v
    using coexist_cached [OF assms] by blast
  then show ?thesis using replay_correct [OF cache_keyed [OF assms], of srcs opts blocked] by simp
qed

lemma reach_correct:
  assumes "reach out srcs opts0 = Inr (r, seen)"
  defines "opts \<equiv> with_defaults opts0"
  shows "reach_ok (coexistence r)"
    and "t \<in> reach_span (coexistence r) v \<longleftrightarrow>
      (\<exists>n \<le> nat (max_depth opts). coexist {} G srcs (owithin opts) t n v)"
    and "v \<in> set (union_set r) \<longleftrightarrow> (\<exists>n \<le> nat (max_depth opts). uwalk G (eurn ` set srcs) n v)"
    and "distinct (union_set r)"
    and "\<not> truncated r \<Longrightarrow> uwalk G (eurn ` set srcs) n v \<Longrightarrow> v \<in> set (union_set r)"
    and "union_pass out srcs opts = Inr (\<lparr>u_seen = union_set r, u_edges = edges r, u_depth = depth_reached r\<rparr>, truncated r)"
    and "rsources r = srcs" "ropts r = opts"
proof -
  obtain us trunc where u: "union_pass out srcs opts = Inr (us, trunc)"
    using assms by (auto simp: reach_def Let_def split: sum.splits)
  obtain coex tr where c: "replay srcs opts (u_edges us) [] = (coex, tr)" by fastforce
  have r: "coexistence r = coex" "union_set r = u_seen us" "truncated r = trunc" "edges r = u_edges us"
    "depth_reached r = u_depth us" "rsources r = srcs" "ropts r = opts"
    using assms u c by (auto simp: reach_def Let_def)
  note P = replay_cached [OF u, of "[]"] and Q = union_pass_correct [OF u]
  show "reach_ok (coexistence r)"
    and "t \<in> reach_span (coexistence r) v \<longleftrightarrow>
      (\<exists>n \<le> nat (max_depth opts). coexist {} G srcs (owithin opts) t n v)"
    using P c r by simp_all
  show "v \<in> set (union_set r) \<longleftrightarrow> (\<exists>n \<le> nat (max_depth opts). uwalk G (eurn ` set srcs) n v)"
    "distinct (union_set r)" using Q r by simp_all
  show "\<not> truncated r \<Longrightarrow> uwalk G (eurn ` set srcs) n v \<Longrightarrow> v \<in> set (union_set r)" using Q(4) r by simp
  show "union_pass out srcs opts = Inr (\<lparr>u_seen = union_set r, u_edges = edges r, u_depth = depth_reached r\<rparr>, truncated r)"
    using u by (simp add: r)
  show "rsources r = srcs" "ropts r = opts" by (simp_all add: r)
qed

end

text \<open>A table of edges is an expander.\<close>

definition table_out :: "edge list \<Rightarrow> string list \<Rightarrow> edge list res" where
  "table_out es urns = Inr (List.filter (\<lambda>e. efrom e \<in> set urns) es)"

interpretation listed: edge_source "table_out es" "set es" for es
  by unfold_locales (auto simp: table_out_def)

subsection \<open>What Reach answers\<close>

text \<open>C1: \<open>Reach\<close> holds a node over exactly the instants at which a walk of at most \<open>MaxDepth\<close> edges, all valid at
  that instant, leads to it from a source that exists then, within the span asked about: no more (a chain whose
  edges never coexisted contributes nothing) and no less (the union pass cached every edge such a walk needs,
  and skipping covered spans loses none). Spans are sorted and maximal, and no node is held with none.\<close>

theorem reach_is_coexistence:
  assumes "edge_source out G" "reach out srcs opts = Inr (r, seen)"
  shows "(t \<in> span (getd [] (coexistence r) v) \<longleftrightarrow>
      (\<exists>n \<le> nat (max_depth (with_defaults opts)). coexist {} G srcs (owithin (with_defaults opts)) t n v))
    \<and> wf_set (getd [] (coexistence r) v)
    \<and> (v \<in> set (keys (coexistence r)) \<longleftrightarrow> getd [] (coexistence r) v \<noteq> [])
    \<and> distinct (keys (coexistence r))"
proof -
  note R = edge_source.reach_correct [OF assms]
  have "getd [] (coexistence r) v = [] \<or> v \<in> set (keys (coexistence r))"
    using getd_notin [of v "coexistence r" "[]"] by blast
  then show ?thesis using R(1) R(2) [of t v] by (auto simp: reach_ok_def reach_span_def)
qed

text \<open>The lockfile whose chain breaks: b was taken over from a only after a stopped depending on it.\<close>

abbreviation iv :: "int \<Rightarrow> int \<Rightarrow> interval" where
  "iv a b \<equiv> \<lparr>ifrom = a, ito = b\<rparr>"

abbreviation broken_chain :: "edge list" where
  "broken_chain \<equiv> [\<lparr>efrom = ''p'', eto = ''a'', evalid = iv 0 10\<rparr>, \<lparr>efrom = ''a'', eto = ''b'', evalid = iv 10 20\<rparr>]"

lemma eval_broken_chain:
  "\<exists>r seen. reach (table_out broken_chain) (sources [''p'']) \<lparr>owithin = iv 0 0, max_depth = 3\<rparr> = Inr (r, seen)
     \<and> union_set r = [''p'', ''a'', ''b''] \<and> coexistence r = [(''p'', [always]), (''a'', [iv 0 10])]
     \<and> ropts r = \<lparr>owithin = always, max_depth = 3\<rparr> \<and> \<not> truncated r"
  by (simp add: reach_def with_defaults_def union_pass_def numeral_3_eq_3 mark_def take_edge_def table_out_def
      sources_def replay_def start_entry_def offer_def follow_def replay_round_def insert_iv_def covers_def
      iv_empty_def always_def intersect_def open_interval_def getd_def Let_def)

theorem reach_is_coexistence_witness:
  "\<exists>r seen. reach (table_out broken_chain) (sources [''p'']) \<lparr>owithin = iv 0 0, max_depth = 3\<rparr> = Inr (r, seen)
     \<and> (5 \<in> span (getd [] (coexistence r) ''a''))
     \<and> (\<exists>n \<le> 3. coexist {} (set broken_chain) (sources [''p'']) always 5 n ''a'')
     \<and> \<not> (\<exists>n \<le> 3. coexist {} (set broken_chain) (sources [''p'']) always 15 n ''b'')"
proof -
  obtain r seen where r: "reach (table_out broken_chain) (sources [''p'']) \<lparr>owithin = iv 0 0, max_depth = 3\<rparr> = Inr (r, seen)"
    "coexistence r = [(''p'', [always]), (''a'', [iv 0 10])]"
    using eval_broken_chain by blast
  have d: "with_defaults \<lparr>owithin = iv 0 0, max_depth = 3\<rparr> = \<lparr>owithin = always, max_depth = 3\<rparr>"
    by (simp add: with_defaults_def)
  have "5 \<in> span (getd [] (coexistence r) ''a'')" "15 \<notin> span (getd [] (coexistence r) ''b'')"
    by (simp_all add: r(2) getd_def instants_def)
  then show ?thesis
    using r(1) reach_is_coexistence [OF listed.edge_source_axioms r(1), of 5 "''a''"]
      reach_is_coexistence [OF listed.edge_source_axioms r(1), of 15 "''b''"] unfolding d by auto
qed

lemma foldl_count: "foldl (\<lambda>n u. if P u then n + 1 else n) c us = c + length (List.filter P us)"
  by (induction us arbitrary: c) auto

lemma reached_at_set:
  assumes "reach_ok (coexistence r)"
  shows "v \<in> set (reached_at r t) \<longleftrightarrow> t \<in> reach_span (coexistence r) v"
proof
  assume "v \<in> set (reached_at r t)"
  then obtain s where s: "(v, s) \<in> set (coexistence r)" "list_ex (\<lambda>i. iv_contains i t) s"
    by (auto simp: reached_at_def)
  moreover have "map_of (coexistence r) v = Some s"
    using s(1) assms by (simp add: reach_ok_def keys_def)
  ultimately show "t \<in> reach_span (coexistence r) v"
    by (auto simp: reach_span_def getd_def span_def list_ex_iff iv_contains_iff)
next
  assume t: "t \<in> reach_span (coexistence r) v"
  then obtain s where s: "map_of (coexistence r) v = Some s"
    by (auto simp: reach_span_def getd_def split: option.splits)
  then have "list_ex (\<lambda>i. iv_contains i t) s"
    using t by (auto simp: reach_span_def getd_def span_def list_ex_iff iv_contains_iff)
  then show "v \<in> set (reached_at r t)" using map_of_SomeD [OF s] by (force simp: reached_at_def)
qed

text \<open>The union answer holds exactly the nodes some walk of at most \<open>MaxDepth\<close> edges leads to when spans are
  ignored, all nodes any walk leads to when the search was not cut off; \<open>PhantomReach\<close> counts those of them
  no instant's walk reaches; and \<open>ReachedAt\<close> lists the nodes reached at an instant.\<close>

theorem reach_union_and_phantoms:
  assumes "edge_source out G" "reach out srcs opts = Inr (r, seen)"
  defines "D \<equiv> nat (max_depth (with_defaults opts))" and "W \<equiv> owithin (with_defaults opts)"
  shows "set (union_set r) = {v. \<exists>n \<le> D. uwalk G (eurn ` set srcs) n v}
    \<and> (\<not> truncated r \<longrightarrow> set (union_set r) = {v. \<exists>n. uwalk G (eurn ` set srcs) n v})
    \<and> phantom_reach r = card {v. (\<exists>n \<le> D. uwalk G (eurn ` set srcs) n v) \<and> (\<forall>t. \<forall>n \<le> D. \<not> coexist {} G srcs W t n v)}
    \<and> set (reached_at r t) = {v. \<exists>n \<le> D. coexist {} G srcs W t n v}"
proof -
  note R = edge_source.reach_correct [OF assms(1,2), folded D_def W_def]
  have union: "set (union_set r) = {v. \<exists>n \<le> D. uwalk G (eurn ` set srcs) n v}" using R(3) by blast
  have none: "getd [] (coexistence r) v = [] \<longleftrightarrow> (\<forall>t. \<forall>n \<le> D. \<not> coexist {} G srcs W t n v)" for v
  proof -
    have "wf_set (getd [] (coexistence r) v)" using R(1) by (simp add: reach_ok_def)
    then have "getd [] (coexistence r) v = [] \<longleftrightarrow> reach_span (coexistence r) v = {}"
      using wf_span_empty by (simp add: reach_span_def)
    also have "\<dots> \<longleftrightarrow> (\<forall>t. t \<notin> reach_span (coexistence r) v)" by blast
    finally show ?thesis unfolding R(2) by blast
  qed
  have "phantom_reach r = length (List.filter (\<lambda>u. getd [] (coexistence r) u = []) (union_set r))"
    using foldl_count [of "\<lambda>u. length (getd [] (coexistence r) u) = 0" 0] by (simp add: phantom_reach_def)
  also have "\<dots> = card (set (List.filter (\<lambda>u. getd [] (coexistence r) u = []) (union_set r)))"
    using R(4) by (simp add: distinct_card del: set_filter)
  also have "set (List.filter (\<lambda>u. getd [] (coexistence r) u = []) (union_set r)) =
      {v. (\<exists>n \<le> D. uwalk G (eurn ` set srcs) n v) \<and> (\<forall>t. \<forall>n \<le> D. \<not> coexist {} G srcs W t n v)}"
    unfolding set_filter union none by blast
  finally have phantom: "phantom_reach r =
      card {v. (\<exists>n \<le> D. uwalk G (eurn ` set srcs) n v) \<and> (\<forall>t. \<forall>n \<le> D. \<not> coexist {} G srcs W t n v)}" .
  have "\<not> truncated r \<longrightarrow> set (union_set r) = {v. \<exists>n. uwalk G (eurn ` set srcs) n v}"
    using R(5) union by blast
  moreover have "set (reached_at r t) = {v. \<exists>n \<le> D. coexist {} G srcs W t n v}"
    using reached_at_set [OF R(1), of _ t] R(2) [of t] by blast
  ultimately show ?thesis using union phantom by blast
qed

theorem reach_union_and_phantoms_witness:
  "\<exists>r seen. reach (table_out broken_chain) (sources [''p'']) \<lparr>owithin = iv 0 0, max_depth = 3\<rparr> = Inr (r, seen)
     \<and> phantom_reach r = 1
     \<and> {v. \<exists>n. uwalk (set broken_chain) (eurn ` set (sources [''p''])) n v} = {''p'', ''a'', ''b''}"
proof -
  obtain r seen where r: "reach (table_out broken_chain) (sources [''p'']) \<lparr>owithin = iv 0 0, max_depth = 3\<rparr> = Inr (r, seen)"
    "union_set r = [''p'', ''a'', ''b'']" "coexistence r = [(''p'', [always]), (''a'', [iv 0 10])]" "\<not> truncated r"
    using eval_broken_chain by blast
  have "phantom_reach r = 1" by (simp add: phantom_reach_def r getd_def)
  moreover have "set (union_set r) = {v. \<exists>n. uwalk (set broken_chain) (eurn ` set (sources [''p''])) n v}"
    using reach_union_and_phantoms [OF listed.edge_source_axioms r(1)] r(4) by blast
  ultimately show ?thesis using r(1,2) by auto
qed

lemma union_loop_total:
  assumes "\<And>urns. \<exists>es. out urns = Inr es" "u_depth st \<le> depth"
  shows "\<exists>st' trunc. union_loop out k depth fr st = Inr (st', trunc) \<and> u_depth st' \<le> depth + k"
  using assms(2)
proof (induction k arbitrary: depth fr st)
  case (Suc k)
  obtain es where es: "out fr = Inr es" using assms(1) by blast
  obtain m seen nxt where F: "foldl take_edge (u_edges st, u_seen st, []) es = (m, seen, nxt)" by (metis prod_cases3)
  show ?case
    using Suc.IH [of "\<lparr>u_seen = seen, u_edges = m, u_depth = depth + 1\<rparr>" "depth + 1" nxt] Suc.prems es F by auto
qed simp

lemma union_pass_total:
  assumes "\<And>urns. \<exists>es. out urns = Inr es"
  shows "\<exists>st trunc. union_pass out srcs opts = Inr (st, trunc) \<and> u_depth st \<le> nat (max_depth opts)"
proof -
  obtain seen fr where "foldl mark ([], []) (List.map eurn srcs) = (seen, fr)" by fastforce
  then show ?thesis
    using union_loop_total [of out "\<lparr>u_seen = seen, u_edges = [], u_depth = 0\<rparr>" 0, OF assms] by (simp add: union_pass_def)
qed

lemma reach_total:
  assumes "\<And>urns. \<exists>es. out urns = Inr es"
  shows "\<exists>r seen. reach out srcs opts = Inr (r, seen)"
  using union_pass_total [of out srcs "with_defaults opts", OF assms] by (auto simp: reach_def Let_def split: prod.splits)

text \<open>C16: A search never fails on its own: when the expander answers every request, \<open>Reach\<close> returns a result, after
  at most \<open>MaxDepth\<close> rounds, cycles in the graph included.\<close>

theorem reach_returns:
  assumes "\<And>urns. \<exists>es. out urns = Inr es"
  shows "\<exists>r seen. reach out srcs opts = Inr (r, seen) \<and> depth_reached r \<le> nat (max_depth (with_defaults opts))"
  using union_pass_total [of out srcs "with_defaults opts", OF assms] by (auto simp: reach_def Let_def split: prod.splits)

theorem reach_returns_witness:
  "\<exists>r seen. reach (table_out [\<lparr>efrom = ''a'', eto = ''a'', evalid = iv 0 1\<rparr>]) (sources [''a'']) \<lparr>owithin = iv 0 0, max_depth = 0\<rparr>
      = Inr (r, seen) \<and> depth_reached r \<le> 12"
  using reach_returns [of "table_out [\<lparr>efrom = ''a'', eto = ''a'', evalid = iv 0 1\<rparr>]" "sources [''a'']"
      "\<lparr>owithin = iv 0 0, max_depth = 0\<rparr>"]
  by (simp add: table_out_def with_defaults_def default_max_depth_def)

text \<open>A graph whose union is exhausted sooner than its coexisting walks.\<close>

abbreviation detour :: "edge list" where
  "detour \<equiv> [\<lparr>efrom = ''s'', eto = ''v'', evalid = iv 0 5\<rparr>, \<lparr>efrom = ''s'', eto = ''a'', evalid = iv 10 20\<rparr>,
     \<lparr>efrom = ''s'', eto = ''b'', evalid = iv 0 5\<rparr>, \<lparr>efrom = ''a'', eto = ''b'', evalid = iv 10 20\<rparr>,
     \<lparr>efrom = ''b'', eto = ''v'', evalid = iv 10 20\<rparr>]"

text \<open>
  \<open>Truncated\<close> is decided by the union pass alone. Where the union reaches every node early and the walks that
  coexist are longer, the search reports no truncation and still misses a node: with a bound of two edges, \<open>v\<close>
  is reached at instant 15 by three edges and is absent at 15 from the answer of a search not marked truncated.
\<close>

theorem reach_not_truncated_undercounts:
  "\<exists>r seen. reach (table_out detour) (sources [''s'']) \<lparr>owithin = always, max_depth = 2\<rparr> = Inr (r, seen)
     \<and> \<not> truncated r \<and> 15 \<notin> span (getd [] (coexistence r) ''v'')
     \<and> coexist {} (set detour) (sources [''s'']) always 15 3 ''v''"
proof -
  have r: "\<exists>r seen. reach (table_out detour) (sources [''s'']) \<lparr>owithin = always, max_depth = 2\<rparr> = Inr (r, seen)
     \<and> \<not> truncated r \<and> getd [] (coexistence r) ''v'' = [iv 0 5]"
    by (simp add: reach_def with_defaults_def union_pass_def numeral_2_eq_2 mark_def take_edge_def table_out_def
      sources_def replay_def start_entry_def offer_def follow_def replay_round_def insert_iv_def covers_def
      iv_empty_def always_def intersect_def open_interval_def getd_def Let_def)
  have s: "coexist {} (set detour) (sources [''s'']) always 15 0 ''s''"
    using coexist.source [of "\<lparr>eurn = ''s'', espan = always\<rparr>" "sources [''s'']" "{}" 15 always "set detour"]
    by (simp add: sources_def always_def instants_def open_interval_def)
  note hop = coexist.step [of "{}" "set detour" "sources [''s'']" always 15]
  have "coexist {} (set detour) (sources [''s'']) always 15 1 ''a''"
    using hop [of 0 "\<lparr>efrom = ''s'', eto = ''a'', evalid = iv 10 20\<rparr>"] s by (simp add: instants_def)
  then have "coexist {} (set detour) (sources [''s'']) always 15 2 ''b''"
    using hop [of 1 "\<lparr>efrom = ''a'', eto = ''b'', evalid = iv 10 20\<rparr>"] by (simp add: instants_def numeral_2_eq_2)
  then have "coexist {} (set detour) (sources [''s'']) always 15 3 ''v''"
    using hop [of 2 "\<lparr>efrom = ''b'', eto = ''v'', evalid = iv 10 20\<rparr>"] by (simp add: instants_def numeral_3_eq_3 numeral_2_eq_2)
  with r show ?thesis by (auto simp: instants_def)
qed

end
