(* ===== verification/Expander.thy ===== *)
theory Expander
  imports Reach GraphDb Identity
begin

text \<open>
  Frontier expansion through the graph: \<open>internal/query/expander.go\<close>, with the version attributes of
  \<open>internal/query/signals.go\<close> that the expansion collects. The query function of the client is a
  parameter \<open>query\<close> from statement text to records. The locale \<open>mspaths\<close> states what the expander relies
  on of the database's path procedure; from it follows the contract \<open>edge_source\<close> of the search.
\<close>

subsection \<open>Which URNs may be interpolated\<close>

definition scope_char :: "char \<Rightarrow> bool" where
  "scope_char c \<longleftrightarrow> CHR ''a'' \<le> c \<and> c \<le> CHR ''z'' \<or> is_digit c \<or> c \<in> set ''._~-''"

definition version_char :: "char \<Rightarrow> bool" where
  "version_char c \<longleftrightarrow> CHR ''A'' \<le> c \<and> c \<le> CHR ''Z'' \<or> CHR ''a'' \<le> c \<and> c \<le> CHR ''z'' \<or> is_digit c \<or> c \<in> set ''._+-''"

text \<open>A package name: an optional scope \<open>@scope/\<close> and a name, both of \<open>[a-z0-9._~-]+\<close>.\<close>

definition plain_name :: "string \<Rightarrow> bool" where
  "plain_name s \<longleftrightarrow> s \<noteq> [] \<and> list_all scope_char s"

definition npm_name :: "string \<Rightarrow> bool" where
  "npm_name s =
     (if has_prefix ''@'' s then
        (case index_byte (CHR ''/'') s of
           None \<Rightarrow> False
         | Some i \<Rightarrow> plain_name (drop 1 (take i s)) \<and> plain_name (drop (i + 1) s))
      else plain_name s)"

text \<open>\<open>npmPackageURN\<close> and \<open>npmURN\<close>: a name never holds the \<open>@\<close> before the version, nor does a version.\<close>

definition npm_package_urn :: "string \<Rightarrow> bool" where
  "npm_package_urn s \<longleftrightarrow> has_prefix ''pkg:npm/'' s \<and> npm_name (drop 8 s)"

definition npm_urn :: "string \<Rightarrow> bool" where
  "npm_urn s =
     (case last_index ''@'' s of
        None \<Rightarrow> False
      | Some i \<Rightarrow> npm_package_urn (take i s) \<and> drop (i + 1) s \<noteq> [] \<and> list_all version_char (drop (i + 1) s))"

subsection \<open>Reading a path\<close>

record version_attrs =
  va_urn :: string
  va_published_at :: int
  va_published_by :: string
  va_has_provenance :: bool
  va_has_install_script :: bool
  va_deprecated :: bool
  va_annotated :: bool

definition version_attrs_of :: "props \<Rightarrow> version_attrs" where
  "version_attrs_of ps =
     \<lparr>va_urn = string_prop ps ''urn'',
      va_published_at = int_prop ps ''published_at'',
      va_published_by = string_prop ps ''published_by'',
      va_has_provenance = bool_prop ps ''has_provenance'',
      va_has_install_script = bool_prop ps ''has_install_script'',
      va_deprecated = bool_prop ps ''deprecated'',
      va_annotated = (case getd PNull ps ''has_provenance'' of PBool b \<Rightarrow> True | _ \<Rightarrow> False)\<rparr>"

definition interval_of :: "props \<Rightarrow> interval" where
  "interval_of ps =
     (let i = \<lparr>ifrom = int_prop ps ''valid_from'', ito = int_prop ps ''valid_to''\<rparr>
      in if ito i = 0 then always else i)"

definition source_chunk :: nat where
  "source_chunk = 256"

definition result_limit :: nat where
  "result_limit = 20000"

definition quoted :: "string \<Rightarrow> string" where
  "quoted v = [CHR 0x27] @ v @ [CHR 0x27]"

definition quote_all :: "string list \<Rightarrow> string" where
  "quote_all vs = join_str '', '' (List.map quoted vs)"

text \<open>
  The statement text of a single-hop path call; white space between its lines is one space here. The
  readers differ in the label, the edge type, the direction and the path count.
\<close>

definition mspaths_stmt :: "string \<Rightarrow> string \<Rightarrow> string \<Rightarrow> nat \<Rightarrow> string list \<Rightarrow> string" where
  "mspaths_stmt label edge_type direction path_count valid =
     ''CALL algo.MSpaths({sourceLabel: '' @ quoted label @ '', sourceProperty: '' @ quoted ''urn''
     @ '', sourceValues: ['' @ quote_all valid @ ''], relTypes: ['' @ quoted edge_type @ ''], relDirection: ''
     @ quoted direction @ '', maxLen: 1, pathCount: '' @ utoa path_count @ '', resultLimit: ''
     @ utoa result_limit @ ''}) YIELD path RETURN path''"

definition expand_stmt :: "string \<Rightarrow> string \<Rightarrow> string list \<Rightarrow> string" where
  "expand_stmt edge_type direction valid = mspaths_stmt ''Version'' edge_type direction result_limit valid"

text \<open>What the expander keeps between calls: the number of reads and the attributes seen.\<close>

record expander_state =
  x_reads :: nat
  x_attrs :: "(string, version_attrs) gomap"

definition note_attrs :: "expander_state \<Rightarrow> props \<Rightarrow> expander_state" where
  "note_attrs st ps =
     (let urn = string_prop ps ''urn'' in
      if urn \<noteq> '''' then st\<lparr>x_attrs := put urn (version_attrs_of ps) (x_attrs st)\<rparr> else st)"

fun read_paths :: "grecord list \<Rightarrow> edge list \<Rightarrow> expander_state \<Rightarrow> edge list res \<times> expander_state" where
  "read_paths [] acc st = (Inr acc, st)"
| "read_paths (rec # recs) acc st =
     (case map_of rec ''path'' of
        None \<Rightarrow> read_paths recs acc st
      | Some (Scalar v) \<Rightarrow> (Inl (Msg ''expected a path''), st)
      | Some (Path nodes rels) \<Rightarrow>
          if length nodes \<noteq> 2 \<or> length rels \<noteq> 1 then read_paths recs acc st
          else read_paths recs
                 (acc @ [\<lparr>efrom = string_prop (nodes ! 0) ''urn'', eto = string_prop (nodes ! 1) ''urn'',
                          evalid = interval_of (rels ! 0)\<rparr>])
                 (foldl note_attrs st nodes))"

lemma halves_less:
  assumes "Suc 0 < length (List.filter P urns)"
  shows "length (List.filter P urns) div 2 < length urns"
    and "length (List.filter P urns) - length (List.filter P urns) div 2 < length urns"
  using assms length_filter_le [of P urns] by linarith+

text \<open>\<open>expand\<close>: one call, split in two when the result may have been cut off at the limit.\<close>

function expand :: "query_fun \<Rightarrow> string \<Rightarrow> string \<Rightarrow> string list \<Rightarrow> expander_state \<Rightarrow> edge list res \<times> expander_state" where
  "expand query edge_type direction urns st =
     (let valid = List.filter npm_urn urns in
      if valid = [] then (Inr [], st)
      else let st1 = st\<lparr>x_reads := x_reads st + 1\<rparr> in
        case query (expand_stmt edge_type direction valid) of
          Inl e \<Rightarrow> (Inl (Wrap (''expand '' @ utoa (length valid) @ '' sources'') e), st1)
        | Inr recs \<Rightarrow>
            if length recs \<ge> result_limit \<and> length valid > 1 then
              let half = length valid div 2 in
              (case expand query edge_type direction (take half valid) st1 of
                 (Inl e, st2) \<Rightarrow> (Inl e, st2)
               | (Inr left, st2) \<Rightarrow>
                   (case expand query edge_type direction (drop half valid) st2 of
                      (Inl e, st3) \<Rightarrow> (Inl e, st3)
                    | (Inr right, st3) \<Rightarrow> (Inr (left @ right), st3)))
            else read_paths recs [] st1)"
  by pat_completeness auto
termination
  by (relation "measure (\<lambda>(_, _, _, urns, _). length urns)") (auto simp: halves_less)

declare expand.simps [simp del]

text \<open>\<open>Out\<close>: the chunks of a frontier, one after the other.\<close>

function out_chunks :: "query_fun \<Rightarrow> string \<Rightarrow> string \<Rightarrow> string list \<Rightarrow> edge list \<Rightarrow> expander_state
    \<Rightarrow> edge list res \<times> expander_state" where
  "out_chunks query edge_type direction urns acc st =
     (if urns = [] then (Inr acc, st)
      else case expand query edge_type direction (take source_chunk urns) st of
          (Inl e, st') \<Rightarrow> (Inl e, st')
        | (Inr es, st') \<Rightarrow> out_chunks query edge_type direction (drop source_chunk urns) (acc @ es) st')"
  by pat_completeness auto
termination
  by (relation "measure (\<lambda>(_, _, _, urns, _, _). length urns)") (auto simp: source_chunk_def)

declare out_chunks.simps [simp del]

definition expander_out :: "query_fun \<Rightarrow> string \<Rightarrow> string \<Rightarrow> string list \<Rightarrow> expander_state \<Rightarrow> edge list res \<times> expander_state" where
  "expander_out query edge_type direction urns st = out_chunks query edge_type direction urns [] st"

text \<open>The edges alone, as the search sees them: they do not depend on the counters and attributes.\<close>

definition graph_out :: "query_fun \<Rightarrow> string \<Rightarrow> string \<Rightarrow> string list \<Rightarrow> edge list res" where
  "graph_out query edge_type direction urns =
     fst (expander_out query edge_type direction urns \<lparr>x_reads = 0, x_attrs = []\<rparr>)"

subsection \<open>From the procedure's contract to the search's\<close>

text \<open>A single hop: the properties of its two nodes and of the edge between them.\<close>

type_synonym hop = "props \<times> props \<times> props"

definition hop_record :: "hop \<Rightarrow> grecord" where
  "hop_record h = (case h of (a, b, r) \<Rightarrow> [(''path'', Path [a, b] [r])])"

definition hop_edge :: "hop \<Rightarrow> edge" where
  "hop_edge h = (case h of (a, b, r) \<Rightarrow>
     \<lparr>efrom = string_prop a ''urn'', eto = string_prop b ''urn'', evalid = interval_of r\<rparr>)"

lemma read_paths_hops:
  "fst (read_paths (List.map hop_record hs) acc st) = Inr (acc @ List.map hop_edge hs)"
  by (induction hs arbitrary: acc st) (auto simp: hop_record_def hop_edge_def split: prod.splits)

text \<open>
  The documented behaviour: the procedure answers with single hops that leave the nodes asked about, and
  with all of them unless it returns as many rows as the limit; a single node has fewer hops than that.
\<close>

locale mspaths =
  fixes query :: query_fun and edge_type direction :: string and hops :: "string \<Rightarrow> hop list"
  assumes answer: "vs \<noteq> [] \<Longrightarrow> list_all npm_urn vs \<Longrightarrow> query (expand_stmt edge_type direction vs) = Inr recs \<Longrightarrow>
      length recs < result_limit \<or> length vs = 1 \<Longrightarrow>
      \<exists>hs. recs = List.map hop_record hs \<and> set hs = (\<Union>v \<in> set vs. set (hops v))"
    and leaves: "(a, b, r) \<in> set (hops v) \<Longrightarrow> string_prop a ''urn'' = v"
begin

text \<open>The graph the search sees: the edges that leave nodes whose URN may be interpolated.\<close>

definition reachable_edges :: "edge set" where
  "reachable_edges = {hop_edge h | h v. h \<in> set (hops v) \<and> npm_urn v}"

lemma hop_edges:
  assumes "list_all npm_urn vs"
  shows "hop_edge ` (\<Union>v \<in> set vs. set (hops v)) = {e \<in> reachable_edges. efrom e \<in> set vs}"
proof -
  have "efrom (hop_edge h) = v" if "h \<in> set (hops v)" for h v
    using leaves [of "fst h" "fst (snd h)" "snd (snd h)" v] that by (simp add: hop_edge_def case_prod_unfold)
  then show ?thesis using assms by (fastforce simp: reachable_edges_def list_all_iff)
qed

lemma expand_edges:
  "fst (expand query edge_type direction urns st) = Inr es \<Longrightarrow> set es = {e \<in> reachable_edges. efrom e \<in> set urns}"
proof (induction "length urns" arbitrary: urns st es rule: less_induct)
  case less
  let ?v = "List.filter npm_urn urns" and ?st = "st\<lparr>x_reads := x_reads st + 1\<rparr>"
  have sub: "{e \<in> reachable_edges. efrom e \<in> set ?v} = {e \<in> reachable_edges. efrom e \<in> set urns}"
    using leaves by (fastforce simp: reachable_edges_def hop_edge_def split: prod.splits)
  show ?case
  proof (cases "?v = []")
    case True
    then show ?thesis using less.prems sub by (simp add: expand.simps [of _ _ _ urns] Let_def)
  next
    case False
    obtain recs where recs: "query (expand_stmt edge_type direction ?v) = Inr recs"
      using less.prems False by (auto simp: expand.simps [of _ _ _ urns] Let_def split: sum.splits)
    have all: "list_all npm_urn ?v" by (simp add: list_all_iff)
    show ?thesis
    proof (cases "length recs \<ge> result_limit \<and> length ?v > 1")
      case True
      let ?l = "take (length ?v div 2) ?v" and ?r = "drop (length ?v div 2) ?v"
      obtain left st2 where 1: "expand query edge_type direction ?l ?st = (Inr left, st2)"
        using less.prems False recs True
        by (auto simp: expand.simps [of _ _ _ urns] Let_def split: sum.splits prod.splits)
      obtain right st3 where 2: "expand query edge_type direction ?r st2 = (Inr right, st3)" and es: "es = left @ right"
        using less.prems False recs True 1
        by (auto simp: expand.simps [of _ _ _ urns] Let_def split: sum.splits prod.splits)
      have "length ?l < length urns" "length ?r < length urns" using halves_less [of npm_urn urns] True by auto
      then have "set left = {e \<in> reachable_edges. efrom e \<in> set ?l}" "set right = {e \<in> reachable_edges. efrom e \<in> set ?r}"
        using less.hyps [of ?l ?st left] less.hyps [of ?r st2 right] 1 2 by simp_all
      moreover have "set ?v = set ?l \<union> set ?r" by (metis append_take_drop_id set_append)
      ultimately show ?thesis unfolding sub [symmetric] es by auto
    next
      case F: False
      have "length ?v \<noteq> 0" using False by simp
      with F have "length recs < result_limit \<or> length ?v = 1" by linarith
      then obtain hs where hs: "recs = List.map hop_record hs" "set hs = (\<Union>v \<in> set ?v. set (hops v))"
        using answer [OF False all recs] by blast
      have "es = List.map hop_edge hs"
        using less.prems False recs F hs(1) read_paths_hops [of hs "[]" ?st]
        by (auto simp: expand.simps [of _ _ _ urns] Let_def)
      then show ?thesis using hop_edges [OF all] hs(2) sub by simp
    qed
  qed
qed

lemma out_chunks_edges:
  "fst (out_chunks query edge_type direction urns acc st) = Inr es \<Longrightarrow>
   set es = set acc \<union> {e \<in> reachable_edges. efrom e \<in> set urns}"
proof (induction "length urns" arbitrary: urns acc st rule: less_induct)
  case less
  show ?case
  proof (cases "urns = []")
    case True
    then show ?thesis using less.prems by (simp add: out_chunks.simps)
  next
    case False
    let ?t = "take source_chunk urns" and ?d = "drop source_chunk urns"
    obtain part st' where 1: "expand query edge_type direction ?t st = (Inr part, st')"
      using less.prems False by (auto simp: out_chunks.simps [of _ _ _ urns] split: sum.splits prod.splits)
    then have 2: "fst (out_chunks query edge_type direction ?d (acc @ part) st') = Inr es"
      using less.prems False by (simp add: out_chunks.simps [of _ _ _ urns])
    have "length ?d < length urns" using False by (simp add: source_chunk_def)
    from less.hyps [OF this 2] expand_edges [of ?t st part] 1
    have "set es = set acc \<union> {e \<in> reachable_edges. efrom e \<in> set ?t \<union> set ?d}" by auto
    then show ?thesis by (metis append_take_drop_id set_append)
  qed
qed

lemma graph_out_edges:
  "graph_out query edge_type direction urns = Inr es \<Longrightarrow> set es = {e \<in> reachable_edges. efrom e \<in> set urns}"
  using out_chunks_edges [of urns "[]"] by (simp add: graph_out_def expander_out_def)

end

sublocale mspaths \<subseteq> edge_source "graph_out query edge_type direction" reachable_edges
  by unfold_locales (rule graph_out_edges)

subsection \<open>A table of hops as the database\<close>

text \<open>
  A table of hops can stand in for the database: it recovers the values between the quotes of the
  statement, which no URN holds, looks up their hops, and cuts the answer off at the limit.
\<close>

lemma mem_cut: "v = a @ c # b \<Longrightarrow> x \<in> set v \<Longrightarrow> x = c \<or> x \<in> set a \<or> x \<in> set b"
  by auto

lemma plain_name_chars: "plain_name s \<Longrightarrow> CHR 0x27 \<notin> set s"
  by (auto simp: plain_name_def list_all_iff scope_char_def is_digit_iff)

lemma npm_name_chars:
  assumes "npm_name n" shows "CHR 0x27 \<notin> set n"
proof (cases "has_prefix ''@'' n")
  case True
  then obtain m where m: "n = CHR ''@'' # m" by (auto simp: has_prefix_iff)
  obtain j where j: "index_byte (CHR ''/'') n = Some j" "plain_name (drop 1 (take j n))" "plain_name (drop (j + 1) n)"
    using assms True by (auto simp: npm_name_def split: option.splits)
  have "j \<noteq> 0" using j(1) m by (auto split: if_splits)
  then have tk: "take j n = CHR ''@'' # drop 1 (take j n)" using m by (cases j) simp_all
  have cut: "n = take j n @ CHR ''/'' # drop (Suc j) n" by (rule index_byte_split [OF j(1)])
  show ?thesis
  proof
    assume "CHR 0x27 \<in> set n"
    then have "CHR 0x27 \<in> set (take j n) \<or> CHR 0x27 \<in> set (drop (Suc j) n)" using mem_cut [OF cut] by fastforce
    moreover have "CHR 0x27 \<notin> set (drop (Suc j) n)" using plain_name_chars j(3) by simp
    moreover have "CHR 0x27 \<notin> set (take j n)"
      by (subst tk) (use plain_name_chars [OF j(2)] in simp)
    ultimately show False by blast
  qed
next
  case False
  then show ?thesis using assms plain_name_chars by (simp add: npm_name_def)
qed

lemma npm_urn_chars:
  assumes "npm_urn v" shows "CHR 0x27 \<notin> set v"
proof
  assume q: "CHR 0x27 \<in> set v"
  obtain i where i: "last_index ''@'' v = Some i" "npm_package_urn (take i v)" "list_all version_char (drop (i + 1) v)"
    using assms by (auto simp: npm_urn_def split: option.splits)
  have cut: "v = take i v @ CHR ''@'' # drop (Suc i) v" using last_index_byte_Some [OF i(1)] by blast
  have "CHR 0x27 \<notin> set (drop (Suc i) v)" using i(3) by (auto simp: list_all_iff version_char_def is_digit_iff)
  then have q1: "CHR 0x27 \<in> set (take i v)" using mem_cut [OF cut q] by auto
  obtain n where n: "take i v = ''pkg:npm/'' @ n" "npm_name n"
    using i(2) by (auto simp: npm_package_urn_def has_prefix_iff)
  then show False using q1 npm_name_chars [OF n(2)] unfolding n(1) by auto
qed

lemma not_npm_urn: "CHR ''@'' \<notin> set s \<Longrightarrow> \<not> npm_urn s"
  using last_index_byte_None_iff [of "CHR ''@''" s] by (simp add: npm_urn_def)

fun interleave :: "string list \<Rightarrow> string list" where
  "interleave (v # w # vs) = v # '', '' # interleave (w # vs)"
| "interleave vs = vs"

lemma join_interleave:
  "vs \<noteq> [] \<Longrightarrow> CHR 0x27 # join_str [CHR 0x27] (interleave vs @ y # ys) = quote_all vs @ join_str [CHR 0x27] (y # ys)"
  by (induction vs rule: interleave.induct) (simp_all add: quote_all_def quoted_def join_Cons)

lemma interleave_chars: "x \<in> set (interleave vs) \<Longrightarrow> x \<in> set vs \<or> x = '', ''"
  by (induction vs rule: interleave.induct) auto

text \<open>The values interpolated into a statement are the quoted texts in it that look like URNs.\<close>

lemma statement_values:
  assumes "vs \<noteq> []" "list_all P vs" and quote: "\<And>v. P v \<Longrightarrow> CHR 0x27 \<notin> set v"
    and args: "CHR 0x27 \<notin> set label" "CHR 0x27 \<notin> set edge_type" "CHR 0x27 \<notin> set dir"
    and no: "\<And>s. \<not> (CHR ''@'' \<in> set s \<or> has_prefix ''pkg:npm/'' s) \<Longrightarrow> \<not> P s"
    and plain: "\<And>s. s \<in> {label, edge_type, dir} \<Longrightarrow> CHR ''@'' \<notin> set s \<and> \<not> has_prefix ''pkg:npm/'' s"
  shows "List.filter P (split_str (mspaths_stmt label edge_type dir cnt vs) [CHR 0x27]) = vs"
proof -
  let ?rest = "'', maxLen: 1, pathCount: '' @ utoa cnt @ '', resultLimit: '' @ utoa result_limit @ ''}) YIELD path RETURN path''"
  let ?front = "[''CALL algo.MSpaths({sourceLabel: '', label, '', sourceProperty: '', ''urn'', '', sourceValues: ['']"
  let ?post = "[''], relTypes: ['', edge_type, ''], relDirection: '', dir, ?rest]"
  have "mspaths_stmt label edge_type dir cnt vs = join_str [CHR 0x27] (?front @ interleave vs @ ?post)"
    using join_interleave [OF assms(1), of "''], relTypes: [''" "tl ?post"] assms(1)
    by (cases "interleave vs") (auto simp: mspaths_stmt_def quoted_def)
  moreover have "split_str (join_str [CHR 0x27] (?front @ interleave vs @ ?post)) [CHR 0x27] = ?front @ interleave vs @ ?post"
  proof (rule split_join_byte)
    fix x assume "x \<in> set (?front @ interleave vs @ ?post)"
    then show "CHR 0x27 \<notin> set x"
      using interleave_chars [of x vs] quote assms(2) args
      by (auto simp: list_all_iff utoa_free is_digit_iff)
  qed simp
  moreover have "\<not> P ?rest" by (rule no) (simp add: utoa_free is_digit_iff)
  moreover have "\<not> P label" "\<not> P edge_type" "\<not> P dir" using plain by (auto intro!: no)
  moreover have "\<not> P ''CALL algo.MSpaths({sourceLabel: ''" "\<not> P '', sourceProperty: ''" "\<not> P ''urn''"
    "\<not> P '', sourceValues: [''" "\<not> P ''], relTypes: [''" "\<not> P ''], relDirection: ''"
    by (rule no, simp)+
  moreover have "List.filter P (interleave vs) = vs"
  proof -
    have "\<not> P '', ''" by (rule no) simp
    then show ?thesis using assms(2) by (induction vs rule: interleave.induct) simp_all
  qed
  ultimately show ?thesis by simp
qed

text \<open>A table that answers every such statement, for values satisfying \<open>P\<close>.\<close>

definition table_hops :: "hop list \<Rightarrow> string \<Rightarrow> hop list" where
  "table_hops tbl v = take (result_limit - 1) (List.filter (\<lambda>h. string_prop (fst h) ''urn'' = v) tbl)"

definition table_query :: "(string \<Rightarrow> bool) \<Rightarrow> hop list \<Rightarrow> query_fun" where
  "table_query P tbl stmt =
     Inr (take result_limit (List.map hop_record
       (concat (List.map (table_hops tbl) (List.filter P (split_str stmt [CHR 0x27]))))))"

lemma table_answer:
  assumes "List.filter P (split_str stmt [CHR 0x27]) = vs" "table_query P tbl stmt = Inr recs"
    and lim: "length recs < result_limit \<or> length vs = 1"
  shows "\<exists>hs. recs = List.map hop_record hs \<and> set hs = (\<Union>v \<in> set vs. set (table_hops tbl v))"
proof -
  let ?hs = "concat (List.map (table_hops tbl) vs)"
  have recs: "recs = take result_limit (List.map hop_record ?hs)"
    using assms(1,2) by (simp add: table_query_def)
  have "length ?hs \<le> result_limit"
  proof (cases "length vs = 1")
    case True
    then obtain v where "vs = [v]" by (auto simp: length_Suc_conv)
    then show ?thesis by (simp add: table_hops_def)
  next
    case False
    then show ?thesis using lim recs by simp
  qed
  then have "recs = List.map hop_record ?hs" using recs by simp
  then show ?thesis by (intro exI [of _ ?hs]) simp
qed

lemma table_leaves: "(a, b, r) \<in> set (table_hops tbl v) \<Longrightarrow> string_prop a ''urn'' = v"
  by (auto simp: table_hops_def dest: in_set_takeD)

lemma npm_urn_no: "\<not> (CHR ''@'' \<in> set s \<or> has_prefix ''pkg:npm/'' s) \<Longrightarrow> \<not> npm_urn s"
  using not_npm_urn by blast

lemma table_mspaths:
  assumes "dir = ''outgoing'' \<or> dir = ''incoming''"
  shows "mspaths (table_query npm_urn tbl) ''RESOLVES_TO'' dir (table_hops tbl)"
proof
  fix vs recs
  assume vs: "vs \<noteq> []" "list_all npm_urn vs"
    and q: "table_query npm_urn tbl (expand_stmt ''RESOLVES_TO'' dir vs) = Inr recs"
    and lim: "length recs < result_limit \<or> length vs = 1"
  have "List.filter npm_urn (split_str (expand_stmt ''RESOLVES_TO'' dir vs) [CHR 0x27]) = vs"
    unfolding expand_stmt_def
    by (rule statement_values [OF vs npm_urn_chars _ _ _ npm_urn_no]) (use assms in auto)
  then show "\<exists>hs. recs = List.map hop_record hs \<and> set hs = (\<Union>v \<in> set vs. set (table_hops tbl v))"
    using q lim by (rule table_answer)
qed (rule table_leaves)

interpretation table: mspaths "table_query npm_urn tbl" "''RESOLVES_TO''" "''outgoing''" "table_hops tbl" for tbl
  by (rule table_mspaths) simp

text \<open>When every search by \<open>mspaths\<close> is answered with hops, so is every expansion.\<close>

definition answering :: "query_fun \<Rightarrow> bool" where
  "answering query \<longleftrightarrow>
     (\<forall>label edge_type direction limit urns. \<exists>hs. query (mspaths_stmt label edge_type direction limit urns) = Inr (List.map hop_record hs))"

lemma answering_table: "answering (table_query P tbl)"
  unfolding answering_def table_query_def take_map by blast

lemma expand_total:
  assumes "answering query"
  shows "\<exists>es. fst (expand query edge_type direction urns st) = Inr es"
proof (induction "length urns" arbitrary: urns st rule: less_induct)
  case less
  let ?v = "List.filter npm_urn urns" and ?st = "st\<lparr>x_reads := x_reads st + 1\<rparr>"
  let ?l = "take (length ?v div 2) ?v" and ?r = "drop (length ?v div 2) ?v"
  obtain hs where hs: "query (expand_stmt edge_type direction ?v) = Inr (List.map hop_record hs)"
    using assms unfolding answering_def expand_stmt_def by blast
  show ?case
  proof (cases "?v = [] \<or> \<not> (length hs \<ge> result_limit \<and> length ?v > 1)")
    case True
    then show ?thesis using hs read_paths_hops [of hs "[]" ?st] by (auto simp: expand.simps [of _ _ _ urns] Let_def)
  next
    case False
    then have "length ?l < length urns" "length ?r < length urns" using halves_less [of npm_urn urns] by auto
    note IH = less.hyps [OF this(1), of ?st] less.hyps [OF this(2)]
    obtain left st2 where 1: "expand query edge_type direction ?l ?st = (Inr left, st2)"
      using IH(1) by (cases "expand query edge_type direction ?l ?st") auto
    obtain right st3 where 2: "expand query edge_type direction ?r st2 = (Inr right, st3)"
      using IH(2) [of st2] by (cases "expand query edge_type direction ?r st2") auto
    show ?thesis using False hs 1 2 by (simp add: expand.simps [of _ _ _ urns] Let_def)
  qed
qed

lemma graph_out_total:
  assumes "answering query" shows "\<exists>es. graph_out query edge_type direction urns = Inr es"
proof -
  have "\<exists>es. fst (out_chunks query edge_type direction urns acc st) = Inr es" for acc st
  proof (induction "length urns" arbitrary: urns acc st rule: less_induct)
    case less
    show ?case
    proof (cases "urns = []")
      case True
      then show ?thesis by (simp add: out_chunks.simps)
    next
      case False
      obtain part st' where "expand query edge_type direction (take source_chunk urns) st = (Inr part, st')"
        using expand_total [OF assms, of edge_type direction "take source_chunk urns" st]
        by (cases "expand query edge_type direction (take source_chunk urns) st") auto
      then show ?thesis
        using less.hyps [of "drop source_chunk urns"] False
        by (simp add: out_chunks.simps [of _ _ _ urns] source_chunk_def)
    qed
  qed
  then show ?thesis by (simp add: graph_out_def expander_out_def)
qed

lemmas table_out_total = graph_out_total [OF answering_table]

text \<open>C13: An answered expansion holds exactly the edges leaving the nodes asked about whose URN may be interpolated,
  although the database silently cuts a full result off: a full answer for several nodes is asked again in two
  halves, however often it takes. What is relied on is that one node alone has fewer edges than the limit.\<close>

theorem expansion_is_complete:
  assumes "mspaths query edge_type direction hops" "graph_out query edge_type direction urns = Inr es"
  shows "set es = {hop_edge h | h v. v \<in> set urns \<and> npm_urn v \<and> h \<in> set (hops v)}"
proof -
  have "set es = {e \<in> mspaths.reachable_edges hops. efrom e \<in> set urns}"
    by (rule mspaths.graph_out_edges [OF assms])
  moreover have from_v: "efrom (hop_edge h) = v" if "h \<in> set (hops v)" for h v
    using mspaths.leaves [OF assms(1), of "fst h" "fst (snd h)" "snd (snd h)" v] that by (simp add: hop_edge_def case_prod_unfold)
  moreover have "{e \<in> mspaths.reachable_edges hops. efrom e \<in> set urns} =
      {hop_edge h | h v. v \<in> set urns \<and> npm_urn v \<and> h \<in> set (hops v)}"
    unfolding mspaths.reachable_edges_def [OF assms(1)] by (auto simp: from_v simp del: split_paired_Ex split_paired_All) blast
  ultimately show ?thesis by simp
qed

abbreviation urn_props :: "string \<Rightarrow> props" where
  "urn_props u \<equiv> [(''urn'', PStr u)]"

abbreviation window_props :: "int \<Rightarrow> int \<Rightarrow> props" where
  "window_props a b \<equiv> [(''valid_from'', PInt a), (''valid_to'', PInt b)]"

abbreviation two_hops :: "hop list" where
  "two_hops \<equiv> [(urn_props ''pkg:npm/a@1.0.0'', urn_props ''pkg:npm/@s/b@2.0.0'', window_props 5 9),
     (urn_props ''pkg:npm/JSONStream@1.3.5'', urn_props ''pkg:npm/a@1.0.0'', window_props 5 9)]"

lemma npm_urn_a: "npm_urn ''pkg:npm/a@1.0.0''"
  by (simp add: npm_urn_def npm_package_urn_def npm_name_def plain_name_def scope_char_def version_char_def is_digit_iff less_eq_char_def)

lemma hops_of_a: "table_hops two_hops ''pkg:npm/a@1.0.0'' =
   [(urn_props ''pkg:npm/a@1.0.0'', urn_props ''pkg:npm/@s/b@2.0.0'', window_props 5 9)]"
proof -
  let ?one = "[(urn_props ''pkg:npm/a@1.0.0'', urn_props ''pkg:npm/@s/b@2.0.0'', window_props 5 9)] :: hop list"
  have filtered: "List.filter (\<lambda>h. string_prop (fst h) ''urn'' = ''pkg:npm/a@1.0.0'') two_hops = ?one"
    by (simp add: string_prop_def getd_def as_str_def)
  have "length ?one \<le> result_limit - 1" by (simp only: result_limit_def list.size)
  then have "take (result_limit - 1) ?one = ?one" by (rule take_all)
  then show ?thesis unfolding table_hops_def filtered .
qed

theorem expansion_is_complete_witness:
  "\<exists>es. graph_out (table_query npm_urn two_hops) ''RESOLVES_TO'' ''outgoing'' [''pkg:npm/a@1.0.0''] = Inr es
     \<and> set es = {\<lparr>efrom = ''pkg:npm/a@1.0.0'', eto = ''pkg:npm/@s/b@2.0.0'', evalid = iv 5 9\<rparr>}"
proof -
  note u = npm_urn_a
  obtain es where es: "graph_out (table_query npm_urn two_hops) ''RESOLVES_TO'' ''outgoing'' [''pkg:npm/a@1.0.0''] = Inr es"
    using table_out_total by blast
  note hops = hops_of_a
  have "set es = {\<lparr>efrom = ''pkg:npm/a@1.0.0'', eto = ''pkg:npm/@s/b@2.0.0'', evalid = iv 5 9\<rparr>}"
    using expansion_is_complete [OF table.mspaths_axioms es] u
    by (simp add: hops hop_edge_def string_prop_def getd_def as_str_def interval_of_def int_prop_def as_int_def)
  with es show ?thesis by blast
qed

text \<open>
  The pattern the URNs are checked against does not match every URN the program constructs: a package name with
  an upper-case letter, which old npm packages have, never passes, so the expander drops the node and reports a
  package with dependencies as having none.
\<close>

theorem expander_drops_upper_case:
  "\<not> npm_urn (version_urn ''npm'' ''JSONStream'' ''1.3.5'')
   \<and> graph_out query ''RESOLVES_TO'' ''outgoing'' [version_urn ''npm'' ''JSONStream'' ''1.3.5''] = Inr []"
proof -
  have "\<not> npm_urn (version_urn ''npm'' ''JSONStream'' ''1.3.5'')"
    by (simp add: version_urn_def npm_urn_def npm_package_urn_def npm_name_def plain_name_def scope_char_def is_digit_iff less_eq_char_def)
  then show ?thesis
    by (simp add: graph_out_def expander_out_def out_chunks.simps source_chunk_def expand.simps)
qed

end
