(* ===== verification/Keyholders.thy ===== *)
theory Keyholders
  imports Expander
begin

text \<open>
  Who holds a key: the roster of \<open>internal/query/audit.go\<close> and the removal analysis of
  \<open>internal/query/cut.go\<close>. The roster intersects the spans over which a package was reached with the
  spans over which an account held publish rights; a cut replays the search with an account's packages
  taken out.
\<close>

record keyholder =
  k_handle :: string
  k_through :: "(string, iset) gomap"
  k_since :: int

definition packages_held :: "keyholder \<Rightarrow> nat" where
  "packages_held k = length (k_through k)"

record roster =
  r_count :: "(string, nat) gomap"
  r_union :: nat

subsection \<open>Reading MAINTAINS\<close>

definition maintains_stmt :: "string list \<Rightarrow> string" where
  "maintains_stmt valid = mspaths_stmt ''Package'' ''MAINTAINS'' ''incoming'' result_limit valid"

definition maintains_edge :: "grecord \<Rightarrow> edge option" where
  "maintains_edge rec =
     (case map_of rec ''path'' of
        Some (Path nodes rels) \<Rightarrow>
          if length nodes \<noteq> 2 \<or> length rels \<noteq> 1 then None
          else Some \<lparr>efrom = string_prop (nodes ! 0) ''urn'', eto = string_prop (nodes ! 1) ''handle'',
                     evalid = interval_of (rels ! 0)\<rparr>
      | _ \<Rightarrow> None)"

function maintains :: "query_fun \<Rightarrow> string list \<Rightarrow> edge list res" where
  "maintains query packages =
     (let valid = List.filter npm_package_urn packages in
      if valid = [] then Inr []
      else case query (maintains_stmt valid) of
          Inl e \<Rightarrow> Inl (Wrap (''read maintainers of '' @ utoa (length valid) @ '' packages'') e)
        | Inr recs \<Rightarrow>
            if length recs \<ge> result_limit \<and> length valid > 1 then
              let half = length valid div 2 in
              (case maintains query (take half valid) of
                 Inl e \<Rightarrow> Inl e
               | Inr left \<Rightarrow>
                   (case maintains query (drop half valid) of
                      Inl e \<Rightarrow> Inl e
                    | Inr right \<Rightarrow> Inr (left @ right)))
            else Inr (List.map_filter maintains_edge recs))"
  by pat_completeness auto
termination
  by (relation "measure (\<lambda>(_, ps). length ps)") (auto simp: halves_less)

declare maintains.simps [simp del]

subsection \<open>The roster\<close>

text \<open>The spans over which some version of a package was reached.\<close>

definition add_spans :: "(string, iset) gomap \<Rightarrow> string \<times> iset \<Rightarrow> (string, iset) gomap" where
  "add_spans m vs =
     (let pkg = package_urn_of (fst vs) in
      if pkg = '''' then m else put pkg (insert_all (getd [] m pkg) (snd vs)) m)"

definition coexisting :: "reached \<Rightarrow> (string, iset) gomap" where
  "coexisting reached = foldl add_spans [] reached"

definition packages_of :: "string list \<Rightarrow> string list" where
  "packages_of urns = collect (List.filter (\<lambda>p. p \<noteq> '''') (List.map package_urn_of urns))"

record roster_state =
  rs_by_handle :: "(string, (string, iset) gomap) gomap"
  rs_union :: "string list"
  rs_holders :: "(string, string list) gomap"
  rs_since :: "(string, int) gomap"

text \<open>The inner loop: one span over which the edge's package was reached.\<close>

definition hold_span :: "edge \<Rightarrow> roster_state \<Rightarrow> interval \<Rightarrow> roster_state" where
  "hold_span e st reached =
     (let held = intersect reached (evalid e);
          through = getd [] (rs_by_handle st) (eto e) in
      if iv_empty held then st
      else st\<lparr>rs_by_handle := put (eto e) (put (efrom e) (fst (insert_iv (getd [] through (efrom e)) held)) through) (rs_by_handle st),
              rs_holders := put (efrom e) (set_add (eto e) (getd [] (rs_holders st) (efrom e))) (rs_holders st),
              rs_since := (if \<not> has_key (rs_since st) (eto e) \<or> ifrom (evalid e) < getd 0 (rs_since st) (eto e)
                           then put (eto e) (ifrom (evalid e)) (rs_since st) else rs_since st)\<rparr>)"

definition hold_edge :: "(string, iset) gomap \<Rightarrow> roster_state \<Rightarrow> edge \<Rightarrow> roster_state" where
  "hold_edge coex st e =
     foldl (hold_span e) (st\<lparr>rs_union := set_add (eto e) (rs_union st)\<rparr>) (getd [] coex (efrom e))"

function roster_loop :: "query_fun \<Rightarrow> (string, iset) gomap \<Rightarrow> string list \<Rightarrow> roster_state \<Rightarrow> roster_state res" where
  "roster_loop query coex packages st =
     (if packages = [] then Inr st
      else case maintains query (take source_chunk packages) of
          Inl e \<Rightarrow> Inl e
        | Inr es \<Rightarrow> roster_loop query coex (drop source_chunk packages) (foldl (hold_edge coex) st es))"
  by pat_completeness auto
termination
  by (relation "measure (\<lambda>(_, _, ps, _). length ps)") (auto simp: source_chunk_def)

declare roster_loop.simps [simp del]

definition by_reach :: "keyholder \<Rightarrow> keyholder \<Rightarrow> bool" where
  "by_reach a b =
     (if packages_held a \<noteq> packages_held b then packages_held a > packages_held b else k_handle a < k_handle b)"

definition keyholders :: "query_fun \<Rightarrow> reach_result \<Rightarrow> (keyholder list \<times> roster) res" where
  "keyholders query r =
     (let coex = coexisting (coexistence r);
          packages = sort_strings (packages_of (union_set r)) in
      case roster_loop query coex packages \<lparr>rs_by_handle = [], rs_union = [], rs_holders = [], rs_since = []\<rparr> of
        Inl e \<Rightarrow> Inl e
      | Inr st \<Rightarrow>
          Inr (sort_slice by_reach
                 (List.map (\<lambda>(h, through). \<lparr>k_handle = h, k_through = through, k_since = getd 0 (rs_since st) h\<rparr>)
                    (rs_by_handle st)),
               \<lparr>r_count = List.map (\<lambda>(p, s). (p, length (getd [] (rs_holders st) p))) coex,
                r_union = length (rs_union st)\<rparr>))"

subsection \<open>The pins the graph knows\<close>

text \<open>A pin, as far as the audit reads it: name and version.\<close>

definition wanted_urns :: "(string \<times> string) list \<Rightarrow> string list" where
  "wanted_urns pins = List.filter npm_urn (List.map (\<lambda>(n, v). version_urn ''npm'' n v) pins)"

definition known_stmt :: "string list \<Rightarrow> string" where
  "known_stmt valid = mspaths_stmt ''Version'' ''HAS_VERSION'' ''incoming'' 4 valid"

definition note_version :: "(string, interval) gomap \<Rightarrow> grecord \<Rightarrow> (string, interval) gomap" where
  "note_version found rec =
     (case map_of rec ''path'' of
        Some (Path (n # ns) rels) \<Rightarrow>
          put (string_prop n ''urn'') \<lparr>ifrom = int_prop n ''published_at'', ito = open_interval\<rparr> found
      | _ \<Rightarrow> found)"

function known_loop :: "query_fun \<Rightarrow> string list \<Rightarrow> (string, interval) gomap \<Rightarrow> (string, interval) gomap res" where
  "known_loop query wanted found =
     (if wanted = [] then Inr found
      else let chunk = take source_chunk wanted in
        case query (known_stmt chunk) of
          Inl e \<Rightarrow> Inl (Wrap (''check '' @ utoa (length chunk) @ '' pins against the graph'') e)
        | Inr recs \<Rightarrow> known_loop query (drop source_chunk wanted) (foldl note_version found recs))"
  by pat_completeness auto
termination
  by (relation "measure (\<lambda>(_, ws, _). length ws)") (auto simp: source_chunk_def)

definition known_versions :: "query_fun \<Rightarrow> (string \<times> string) list \<Rightarrow> entry list res" where
  "known_versions query pins =
     (case known_loop query (wanted_urns pins) [] of
        Inl e \<Rightarrow> Inl e
      | Inr found \<Rightarrow>
          Inr (sort_slice (\<lambda>a b. eurn a < eurn b)
            (List.map (\<lambda>(urn, existed). \<lparr>eurn = urn, espan = (if ifrom existed \<le> 0 then always else existed)\<rparr>) found)))"

subsection \<open>Cuts\<close>

record cut =
  c_handle :: string
  c_controls :: nat
  c_packages :: nat
  c_versions :: int
  c_beyond :: nat
  c_orphaned :: "string list"

definition irreplaceable :: "cut \<Rightarrow> bool" where
  "irreplaceable c \<longleftrightarrow> c_beyond c > 0"

definition reached_packages :: "reached \<Rightarrow> string list" where
  "reached_packages reached = packages_of (keys reached)"

definition reached_package_list :: "reached \<Rightarrow> string list" where
  "reached_package_list reached = sort_strings (reached_packages reached)"

definition versions_of :: "reached \<Rightarrow> string \<Rightarrow> string list" where
  "versions_of reached pkg = List.filter (\<lambda>v. package_urn_of v = pkg \<and> pkg \<noteq> '''') (keys reached)"

definition blocked_by :: "reached \<Rightarrow> keyholder \<Rightarrow> string list" where
  "blocked_by reached k = collect (concat (List.map (versions_of reached) (keys (k_through k))))"

definition cut_of :: "reach_result \<Rightarrow> keyholder \<Rightarrow> cut option" where
  "cut_of r k =
     (let blocked = blocked_by (coexistence r) k in
      if blocked = [] then None
      else let after = fst (replay (rsources r) (ropts r) (edges r) blocked);
               gone = List.filter (\<lambda>p. p \<notin> set (reached_packages after)) (reached_packages (coexistence r));
               orphaned = List.filter (\<lambda>p. \<not> has_key (k_through k) p) gone
           in Some \<lparr>c_handle = k_handle k, c_controls = packages_held k, c_packages = length gone,
                    c_versions = int (length (coexistence r)) - int (length after), c_beyond = length orphaned,
                    c_orphaned = sort_strings orphaned\<rparr>)"

definition wider :: "cut \<Rightarrow> cut \<Rightarrow> bool" where
  "wider a b = (if c_packages a \<noteq> c_packages b then c_packages a > c_packages b else c_handle a < c_handle b)"

definition cuts :: "reach_result \<Rightarrow> keyholder list \<Rightarrow> cut list" where
  "cuts r ks = sort_slice wider (List.map_filter (cut_of r) ks)"

subsection \<open>What a cut removes\<close>

lemma set_packages_of: "set (packages_of urns) = {p. p \<noteq> [] \<and> (\<exists>v \<in> set urns. package_urn_of v = p)}"
  by (auto simp: packages_of_def)

lemma distinct_packages_of [simp]: "distinct (packages_of urns)"
  by (simp add: packages_of_def)

text \<open>The versions of the packages an account can publish to.\<close>

definition held_versions :: "keyholder \<Rightarrow> string set" where
  "held_versions k = {v. package_urn_of v \<noteq> [] \<and> package_urn_of v \<in> set (keys (k_through k))}"

lemma set_blocked_by: "set (blocked_by reached k) = held_versions k \<inter> set (keys reached)"
  by (auto simp: blocked_by_def versions_of_def held_versions_def)

lemma coexist_mono: "coexist B G srcs w t n v \<Longrightarrow> B' \<subseteq> B \<Longrightarrow> coexist B' G srcs w t n v"
  by (induction rule: coexist.induct) (auto intro: coexist.intros)

text \<open>Only reached nodes matter to what is blocked.\<close>

lemma coexist_blocked_reached:
  assumes "\<And>m u. m \<le> n \<Longrightarrow> coexist {} G srcs w t m u \<Longrightarrow> u \<in> K"
  shows "coexist (H \<inter> K) G srcs w t n v \<longleftrightarrow> coexist H G srcs w t n v"
proof
  assume "coexist (H \<inter> K) G srcs w t n v"
  then show "coexist H G srcs w t n v" using assms
  proof (induction rule: coexist.induct)
    case (source s)
    then have "eurn s \<in> K" using coexist.source [of s srcs "{}" t w G] by auto
    then show ?case using source by (auto intro: coexist.source)
  next
    case (step n e)
    then have "coexist H G srcs w t n (efrom e)" by (meson le_SucI)
    moreover have "coexist {} G srcs w t (Suc n) (eto e)"
      using coexist_mono [OF step(1), of "{}"] step(2,3) by (auto intro: coexist.step)
    then have "eto e \<in> K" using step.prems by blast
    ultimately show ?case using step by (auto intro: coexist.step)
  qed
next
  assume "coexist H G srcs w t n v"
  then show "coexist (H \<inter> K) G srcs w t n v" by (rule coexist_mono) auto
qed

lemma cuts_mem: "x \<in> set (cuts r ks) \<longleftrightarrow> (\<exists>k \<in> set ks. cut_of r k = Some x)"
  by (auto simp: cuts_def set_map_filter)

text \<open>Reached by some walk of at most \<open>D\<close> edges at some instant.\<close>

definition ever :: "string set \<Rightarrow> edge set \<Rightarrow> entry list \<Rightarrow> options \<Rightarrow> string \<Rightarrow> bool" where
  "ever B G srcs opts v \<longleftrightarrow> (\<exists>t. \<exists>n \<le> nat (max_depth opts). coexist B G srcs (owithin opts) t n v)"

lemma reach_replayed:
  assumes "edge_source out G" "reach out srcs opts = Inr (r, seen)"
  shows "v \<in> set (keys (coexistence r)) \<longleftrightarrow> ever {} G srcs (with_defaults opts) v"
    and "distinct (keys (coexistence r))"
    and "v \<in> set (keys (fst (replay (rsources r) (ropts r) (edges r) (blocked_by (coexistence r) k)))) \<longleftrightarrow>
      ever (held_versions k) G srcs (with_defaults opts) v"
    and "distinct (keys (fst (replay (rsources r) (ropts r) (edges r) (blocked_by (coexistence r) k))))"
proof -
  note R = edge_source.reach_correct [OF assms]
  have keys_iff: "v \<in> set (keys (coexistence r)) \<longleftrightarrow> ever {} G srcs (with_defaults opts) v" for v
    unfolding reach_ok_keys [OF R(1)] ever_def using R(2) by blast
  then show "v \<in> set (keys (coexistence r)) \<longleftrightarrow> ever {} G srcs (with_defaults opts) v" .
  show "distinct (keys (coexistence r))" using R(1) by (simp add: reach_ok_def)
  let ?B = "blocked_by (coexistence r) k" and ?o = "with_defaults opts"
  let ?after = "fst (replay srcs ?o (edges r) ?B)"
  have P: "reach_ok ?after \<and> (\<forall>v t. t \<in> reach_span ?after v \<longleftrightarrow>
      (\<exists>n \<le> nat (max_depth ?o). coexist (set ?B) G srcs (owithin ?o) t n v))"
    using edge_source.replay_cached [OF assms(1) R(6), of ?B] by simp
  have "coexist (set ?B) G srcs (owithin ?o) t n v \<longleftrightarrow> coexist (held_versions k) G srcs (owithin ?o) t n v"
    if "n \<le> nat (max_depth ?o)" for t n v
    unfolding set_blocked_by
    by (rule coexist_blocked_reached) (use that in \<open>auto simp: keys_iff ever_def intro: le_trans\<close>)
  then have "t \<in> reach_span ?after v \<longleftrightarrow> (\<exists>n \<le> nat (max_depth ?o). coexist (held_versions k) G srcs (owithin ?o) t n v)" for t v
    using P by blast
  then have "v \<in> set (keys ?after) \<longleftrightarrow> ever (held_versions k) G srcs ?o v"
    unfolding reach_ok_keys [OF conjunct1 [OF P]] ever_def by blast
  then show "v \<in> set (keys (fst (replay (rsources r) (ropts r) (edges r) ?B))) \<longleftrightarrow> ever (held_versions k) G srcs ?o v"
    by (simp add: R(7,8))
  show "distinct (keys (fst (replay (rsources r) (ropts r) (edges r) ?B)))"
    using P by (simp add: reach_ok_def R(7,8))
qed

text \<open>
  C9: A cut answers what the project stops reaching when one account's packages are taken out: its versions are those
  every coexisting walk to which meets a package the account publishes, its packages those all of whose versions
  fall, and \<open>Orphaned\<close> names in sorted order exactly the fallen packages the account does not publish itself.
\<close>

theorem cuts_are_dominated_packages:
  assumes "edge_source out G" "reach out srcs opts = Inr (r, seen)" "c \<in> set (cuts r ks)"
  defines "before \<equiv> {v. ever {} G srcs (with_defaults opts) v}"
  shows "\<exists>k \<in> set ks. c_handle c = k_handle k \<and> c_controls c = packages_held k
    \<and> (let after = {v. ever (held_versions k) G srcs (with_defaults opts) v};
           gone = package_urn_of ` before - package_urn_of ` after - {[]}
       in c_versions c = int (card (before - after)) \<and> c_packages c = card gone
        \<and> set (c_orphaned c) = gone - set (keys (k_through k)) \<and> sorted (c_orphaned c)
        \<and> c_beyond c = card (gone - set (keys (k_through k))))"
proof -
  obtain k where k: "k \<in> set ks" "cut_of r k = Some c" using assms(3) by (auto simp: cuts_mem)
  note R = reach_replayed [OF assms(1,2)]
  let ?after = "fst (replay (rsources r) (ropts r) (edges r) (blocked_by (coexistence r) k))"
  let ?A = "{v. ever (held_versions k) G srcs (with_defaults opts) v}"
  let ?gone = "List.filter (\<lambda>p. p \<notin> set (reached_packages ?after)) (reached_packages (coexistence r))"
  let ?G = "package_urn_of ` before - package_urn_of ` ?A - {[]}"
  let ?orph = "List.filter (\<lambda>p. \<not> has_key (k_through k) p) ?gone"
  have keys_before: "set (keys (coexistence r)) = before" using R(1) by (auto simp: before_def)
  have keys_after: "set (keys ?after) = ?A" using R(3) [of _ k] by blast
  have sub: "?A \<subseteq> before" unfolding before_def ever_def using coexist_mono [of "held_versions k" G srcs] by blast
  have gone: "set ?gone = ?G" by (auto simp: reached_packages_def set_packages_of keys_before keys_after)
      (metis imageI mem_Collect_eq)
  have orph: "set ?orph = ?G - set (keys (k_through k))"
    using gone by (simp only: set_filter has_key_iff) blast
  have c: "c_handle c = k_handle k" "c_controls c = packages_held k" "c_packages c = length ?gone"
    "c_versions c = int (length (coexistence r)) - int (length ?after)" "c_beyond c = length ?orph"
    "c_orphaned c = sort_strings ?orph"
    using k(2) by (auto simp: cut_of_def Let_def split: if_splits)
  have "finite before" using keys_before by (metis List.finite_set)
  have "length (coexistence r) = card before"
    using distinct_card [OF R(2)] unfolding keys_before by (simp add: keys_def)
  moreover have "length ?after = card ?A"
    using distinct_card [OF R(4), of k] unfolding keys_after by (simp add: keys_def)
  ultimately have "c_versions c = int (card (before - ?A))"
    using c(4) card_Diff_subset [of ?A before] card_mono [of before ?A] sub \<open>finite before\<close> finite_subset [OF sub] by simp
  moreover have "c_packages c = card ?G"
    using c(3) gone distinct_card [of ?gone] by (simp add: reached_packages_def)
  moreover have "distinct ?orph" by (simp add: reached_packages_def)
  then have "c_beyond c = card (?G - set (keys (k_through k)))" using c(5) orph distinct_card [of ?orph] by simp
  ultimately show ?thesis
    using k(1) c(1,2,6) orph sorted_sort_strings [of ?orph] by (intro bexI [of _ k]) (simp_all add: Let_def)
qed

text \<open>A project that depends on b only through a, an account that publishes a.\<close>

abbreviation chain_edges :: "edge list" where
  "chain_edges \<equiv> [\<lparr>efrom = ''p'', eto = ''a@1'', evalid = iv 0 10\<rparr>, \<lparr>efrom = ''a@1'', eto = ''b@1'', evalid = iv 5 20\<rparr>]"

abbreviation holder_of_a :: keyholder where
  "holder_of_a \<equiv> \<lparr>k_handle = ''alice'', k_through = [(''a'', [iv 0 10])], k_since = 0\<rparr>"

lemmas search_eval = reach_def with_defaults_def union_pass_def mark_def take_edge_def table_out_def
      sources_def replay_def start_entry_def offer_def follow_def replay_round_def insert_iv_def covers_def
      iv_empty_def always_def intersect_def open_interval_def getd_def Let_def

lemma chain_cut:
  "\<exists>r seen. reach (table_out chain_edges) (sources [''p'']) \<lparr>owithin = iv 0 0, max_depth = 3\<rparr> = Inr (r, seen)
     \<and> cuts r [holder_of_a] = [\<lparr>c_handle = ''alice'', c_controls = 1, c_packages = 2, c_versions = 2, c_beyond = 1, c_orphaned = [''b'']\<rparr>]"
  by (simp add: search_eval numeral_3_eq_3 cuts_def cut_of_def blocked_by_def versions_of_def keys_def
      package_urn_of_def collect_def set_add_def reached_packages_def packages_of_def has_key_def packages_held_def sort_strings_def)

theorem cuts_are_dominated_packages_witness:
  "\<exists>r seen c. reach (table_out chain_edges) (sources [''p'']) \<lparr>owithin = iv 0 0, max_depth = 3\<rparr> = Inr (r, seen)
     \<and> c \<in> set (cuts r [holder_of_a]) \<and> irreplaceable c
     \<and> {''b''} = package_urn_of ` {v. ever {} (set chain_edges) (sources [''p'']) \<lparr>owithin = always, max_depth = 3\<rparr> v}
         - package_urn_of ` {v. ever (held_versions holder_of_a) (set chain_edges) (sources [''p'']) \<lparr>owithin = always, max_depth = 3\<rparr> v}
         - {[]} - {''a''}"
proof -
  let ?c = "\<lparr>c_handle = ''alice'', c_controls = 1, c_packages = 2, c_versions = 2, c_beyond = 1, c_orphaned = [''b'']\<rparr>"
  obtain r seen where r: "reach (table_out chain_edges) (sources [''p'']) \<lparr>owithin = iv 0 0, max_depth = 3\<rparr> = Inr (r, seen)"
    "cuts r [holder_of_a] = [?c]"
    using chain_cut by blast
  have mem: "?c \<in> set (cuts r [holder_of_a])" by (simp add: r(2))
  have d: "with_defaults \<lparr>owithin = iv 0 0, max_depth = 3\<rparr> = \<lparr>owithin = always, max_depth = 3\<rparr>"
    by (simp add: with_defaults_def)
  note P = cuts_are_dominated_packages [OF listed.edge_source_axioms r(1) mem, unfolded d Let_def]
  have "irreplaceable ?c" by (simp add: irreplaceable_def)
  then show ?thesis using P r(1) mem by (intro exI [of _ r] exI [of _ seen] exI [of _ ?c]) (simp add: keys_def)
qed

subsection \<open>Who held a key\<close>

abbreviation thr :: "roster_state \<Rightarrow> string \<Rightarrow> string \<Rightarrow> iset" where
  "thr st h p \<equiv> getd [] (getd [] (rs_by_handle st) h) p"

definition good_roster :: "roster_state \<Rightarrow> bool" where
  "good_roster st \<longleftrightarrow> distinct (keys (rs_by_handle st))
     \<and> (\<forall>h. distinct (keys (getd [] (rs_by_handle st) h)))
     \<and> (\<forall>h p. wf_set (thr st h p))
     \<and> (\<forall>h \<in> set (keys (rs_by_handle st)). getd [] (rs_by_handle st) h \<noteq> [])
     \<and> (\<forall>h. \<forall>p \<in> set (keys (getd [] (rs_by_handle st) h)). thr st h p \<noteq> [])"

lemma put_nonempty: "put k v m \<noteq> []"
  by (cases m) auto

lemma hold_span_step:
  assumes "good_roster st"
  shows "good_roster (hold_span e st i)
    \<and> span (thr (hold_span e st i) h p) =
        span (thr st h p) \<union> (if h = eto e \<and> p = efrom e then instants i \<inter> instants (evalid e) else {})
    \<and> rs_union (hold_span e st i) = rs_union st"
proof (cases "iv_empty (intersect i (evalid e))")
  case True
  then have "instants i \<inter> instants (evalid e) = {}"
    using instants_empty_iff [of "intersect i (evalid e)"] by simp
  then show ?thesis using True assms by (auto simp: hold_span_def Let_def)
next
  case False
  let ?held = "intersect i (evalid e)" and ?old = "thr st (eto e) (efrom e)"
  let ?new = "fst (insert_iv ?old ?held)"
  have wf: "wf_set ?old" using assms by (simp add: good_roster_def)
  have ne: "instants ?held \<noteq> {}" using False instants_empty_iff by blast
  then have "span ?new \<noteq> {}" using span_insert_iv [OF wf, of ?held] by auto
  then have "?new \<noteq> []" by auto
  then show ?thesis
    using assms False wf_insert_iv [OF wf, of ?held] span_insert_iv [OF wf, of ?held]
    by (auto simp: hold_span_def Let_def good_roster_def put_nonempty distinct_keys_put)
qed

lemma hold_spans:
  assumes "good_roster st"
  shows "good_roster (foldl (hold_span e) st ivs)
    \<and> span (thr (foldl (hold_span e) st ivs) h p) =
        span (thr st h p) \<union> (if h = eto e \<and> p = efrom e then span ivs \<inter> instants (evalid e) else {})
    \<and> rs_union (foldl (hold_span e) st ivs) = rs_union st"
  using assms
proof (induction ivs arbitrary: st)
  case (Cons i ivs)
  note S = hold_span_step [OF Cons.prems]
  show ?case using Cons.IH [OF conjunct1 [OF S]] S [of e i h p] by (auto simp: Int_Un_distrib2)
qed simp

lemma hold_edges:
  assumes "good_roster st"
  shows "good_roster (foldl (hold_edge coex) st es)
    \<and> span (thr (foldl (hold_edge coex) st es) h p) =
        span (thr st h p) \<union> {t. \<exists>e \<in> set es. eto e = h \<and> efrom e = p \<and> t \<in> span (getd [] coex p) \<and> t \<in> instants (evalid e)}
    \<and> set (rs_union (foldl (hold_edge coex) st es)) = set (rs_union st) \<union> eto ` set es
    \<and> distinct (rs_union (foldl (hold_edge coex) st es)) = distinct (rs_union st)"
  using assms
proof (induction es arbitrary: st)
  case (Cons e es)
  let ?u = "st\<lparr>rs_union := set_add (eto e) (rs_union st)\<rparr>"
  have good: "good_roster ?u" using Cons.prems by (simp add: good_roster_def)
  note S = hold_spans [OF good, of e "getd [] coex (efrom e)"]
  have one: "hold_edge coex st e = foldl (hold_span e) ?u (getd [] coex (efrom e))" by (simp add: hold_edge_def)
  have s1: "good_roster (hold_edge coex st e)"
    "span (thr (hold_edge coex st e) h p) = span (thr st h p) \<union>
       (if h = eto e \<and> p = efrom e then span (getd [] coex (efrom e)) \<inter> instants (evalid e) else {})"
    "set (rs_union (hold_edge coex st e)) = insert (eto e) (set (rs_union st))"
    "distinct (rs_union (hold_edge coex st e)) = distinct (rs_union st)"
    using S [of h p] by (simp_all add: one)
  note IH = Cons.IH [OF s1(1)]
  have "span (thr (foldl (hold_edge coex) st (e # es)) h p) = span (thr st h p) \<union>
      {t. \<exists>e \<in> set (e # es). eto e = h \<and> efrom e = p \<and> t \<in> span (getd [] coex p) \<and> t \<in> instants (evalid e)}"
    using conjunct1 [OF conjunct2 [OF IH]] unfolding foldl.simps s1(2) by auto
  then show ?case using IH s1(3,4) by (simp only: foldl.simps list.set image_insert) simp
qed simp

text \<open>The procedure's contract on MAINTAINS edges, as in \<open>mspaths\<close>: hops from packages to maintainers.\<close>

definition key_edge :: "hop \<Rightarrow> edge" where
  "key_edge h = (case h of (a, b, r) \<Rightarrow>
     \<lparr>efrom = string_prop a ''urn'', eto = string_prop b ''handle'', evalid = interval_of r\<rparr>)"

lemma maintains_hops: "List.map_filter maintains_edge (List.map hop_record hs) = List.map key_edge hs"
  by (induction hs) (auto simp: maintains_edge_def hop_record_def key_edge_def split: prod.splits)

locale maintainers =
  fixes query :: query_fun and hops :: "string \<Rightarrow> hop list"
  assumes answer: "vs \<noteq> [] \<Longrightarrow> list_all npm_package_urn vs \<Longrightarrow> query (maintains_stmt vs) = Inr recs \<Longrightarrow>
      length recs < result_limit \<or> length vs = 1 \<Longrightarrow>
      \<exists>hs. recs = List.map hop_record hs \<and> set hs = (\<Union>v \<in> set vs. set (hops v))"
    and leaves: "(a, b, r) \<in> set (hops v) \<Longrightarrow> string_prop a ''urn'' = v"
begin

text \<open>The rights the roster can see: those over packages whose URN may be interpolated.\<close>

definition rights :: "string set \<Rightarrow> edge set" where
  "rights ps = {key_edge h | h p. p \<in> ps \<and> npm_package_urn p \<and> h \<in> set (hops p)}"

lemma rights_Un: "rights (A \<union> B) = rights A \<union> rights B"
  unfolding rights_def by blast

lemma rights_valid: "rights (set (List.filter npm_package_urn ps)) = rights (set ps)"
  unfolding rights_def set_filter by blast

lemma key_edge_from: "h \<in> set (hops v) \<Longrightarrow> efrom (key_edge h) = v"
  using leaves [of "fst h" "fst (snd h)" "snd (snd h)" v] by (simp add: key_edge_def case_prod_unfold)

lemma rights_from: "e \<in> rights ps \<Longrightarrow> efrom e \<in> ps \<and> npm_package_urn (efrom e)"
  unfolding rights_def using key_edge_from by blast

lemma rights_empty: "List.filter npm_package_urn ps = [] \<Longrightarrow> rights (set ps) = {}"
  unfolding rights_def filter_empty_conv by blast

lemma rights_image: "key_edge ` (\<Union>v \<in> set (List.filter npm_package_urn ps). set (hops v)) = rights (set ps)"
  unfolding rights_def set_filter by blast

lemma maintains_rights: "maintains query packages = Inr es \<Longrightarrow> set es = rights (set packages)"
proof (induction "length packages" arbitrary: packages es rule: less_induct)
  case less
  define v where "v = List.filter npm_package_urn packages"
  have unfold: "maintains query packages = (if v = [] then Inr []
      else case query (maintains_stmt v) of
          Inl e \<Rightarrow> Inl (Wrap (''read maintainers of '' @ utoa (length v) @ '' packages'') e)
        | Inr recs \<Rightarrow>
            if length recs \<ge> result_limit \<and> length v > 1 then
              (case maintains query (take (length v div 2) v) of
                 Inl e \<Rightarrow> Inl e
               | Inr left \<Rightarrow>
                   (case maintains query (drop (length v div 2) v) of
                      Inl e \<Rightarrow> Inl e
                    | Inr right \<Rightarrow> Inr (left @ right)))
            else Inr (List.map_filter maintains_edge recs))"
    by (subst maintains.simps) (simp only: Let_def v_def)
  note run = less.prems [unfolded unfold]
  show ?case
  proof (cases "v = []")
    case True
    then show ?thesis using run rights_empty [of packages] by (simp add: v_def)
  next
    case False
    then obtain recs where recs: "query (maintains_stmt v) = Inr recs" using run by (auto split: sum.splits)
    have all: "list_all npm_package_urn v" by (simp add: list_all_iff v_def)
    show ?thesis
    proof (cases "length recs \<ge> result_limit \<and> length v > 1")
      case True
      let ?l = "take (length v div 2) v" and ?r = "drop (length v div 2) v"
      obtain left right where lr: "maintains query ?l = Inr left" "maintains query ?r = Inr right" "es = left @ right"
        using run False recs True by (auto split: sum.splits)
      have "length ?l < length packages" "length ?r < length packages"
        using halves_less [of npm_package_urn packages] True by (auto simp: v_def)
      then have "set es = rights (set ?l) \<union> rights (set ?r)"
        using less.hyps [of ?l left] less.hyps [of ?r right] lr by simp
      also have "\<dots> = rights (set v)" unfolding rights_Un [symmetric] by (metis append_take_drop_id set_append)
      finally show ?thesis unfolding v_def rights_valid .
    next
      case F: False
      have "length v \<noteq> 0" using False by simp
      with F have "length recs < result_limit \<or> length v = 1" by linarith
      then obtain hs where hs: "recs = List.map hop_record hs" "set hs = (\<Union>u \<in> set v. set (hops u))"
        using answer [OF False all recs] by blast
      have "es = List.map_filter maintains_edge recs" using run False recs F by (auto split: if_splits)
      then have "set es = key_edge ` set hs" unfolding hs(1) maintains_hops by simp
      then show ?thesis unfolding hs(2) v_def rights_image .
    qed
  qed
qed

lemma roster_loop_rights:
  "roster_loop query coex packages st = Inr st' \<Longrightarrow>
   \<exists>es. st' = foldl (hold_edge coex) st es \<and> set es = rights (set packages)"
proof (induction "length packages" arbitrary: packages st rule: less_induct)
  case less
  show ?case
  proof (cases "packages = []")
    case True
    then show ?thesis using less.prems by (intro exI [of _ "[]"]) (simp add: roster_loop.simps rights_def)
  next
    case False
    let ?t = "take source_chunk packages" and ?d = "drop source_chunk packages"
    obtain es where es: "maintains query ?t = Inr es"
      using less.prems False by (auto simp: roster_loop.simps [of _ _ packages] split: sum.splits)
    then have rec: "roster_loop query coex ?d (foldl (hold_edge coex) st es) = Inr st'"
      using less.prems False by (simp add: roster_loop.simps [of _ _ packages])
    have "length ?d < length packages" using False by (simp add: source_chunk_def)
    from less.hyps [OF this rec] obtain fs where
      "st' = foldl (hold_edge coex) (foldl (hold_edge coex) st es) fs" "set fs = rights (set ?d)" by blast
    moreover have "rights (set ?t) \<union> rights (set ?d) = rights (set packages)"
      unfolding rights_Un [symmetric] by (metis append_take_drop_id set_append)
    ultimately show ?thesis using maintains_rights [OF es] by (intro exI [of _ "es @ fs"]) simp
  qed
qed

end

lemma npm_package_urn_chars: "npm_package_urn v \<Longrightarrow> CHR 0x27 \<notin> set v"
proof -
  assume "npm_package_urn v"
  then obtain n where "v = ''pkg:npm/'' @ n" "npm_name n" by (auto simp: npm_package_urn_def has_prefix_iff)
  then show ?thesis using npm_name_chars by auto
qed

interpretation keytable: maintainers "table_query npm_package_urn tbl" "table_hops tbl" for tbl
proof
  fix vs recs
  assume vs: "vs \<noteq> []" "list_all npm_package_urn vs"
    and q: "table_query npm_package_urn tbl (maintains_stmt vs) = Inr recs"
    and lim: "length recs < result_limit \<or> length vs = 1"
  have "List.filter npm_package_urn (split_str (maintains_stmt vs) [CHR 0x27]) = vs"
    unfolding maintains_stmt_def
    by (rule statement_values [OF vs npm_package_urn_chars]) (auto simp: npm_package_urn_def)
  then show "\<exists>hs. recs = List.map hop_record hs \<and> set hs = (\<Union>v \<in> set vs. set (table_hops tbl v))"
    using q lim by (rule table_answer)
qed (rule table_leaves)

text \<open>The spans of a package are those of its versions.\<close>

lemma coexisting_spans:
  assumes "\<And>q. wf_set (getd [] m q)"
  shows "span (getd [] (foldl add_spans m reached) p) =
     span (getd [] m p) \<union> {t. p \<noteq> [] \<and> (\<exists>(v, s) \<in> set reached. package_urn_of v = p \<and> t \<in> span s)}"
  using assms
proof (induction reached arbitrary: m)
  case (Cons vs reached)
  have wf: "wf_set (getd [] (add_spans m vs) q)" for q
    using Cons.prems insert_all_correct [of "getd [] m q" "snd vs"] by (auto simp: add_spans_def Let_def)
  have one: "span (getd [] (add_spans m vs) p) = span (getd [] m p) \<union>
      (if package_urn_of (fst vs) = p \<and> p \<noteq> [] then span (snd vs) else {})"
    using insert_all_correct [OF Cons.prems, of p "snd vs"] by (auto simp: add_spans_def Let_def)
  show ?case using Cons.IH [OF wf] one by (auto simp: case_prod_unfold)
qed simp

lemma alist_mem: "distinct (keys m) \<Longrightarrow> (k, v) \<in> set m \<longleftrightarrow> k \<in> set (keys m) \<and> getd d m k = v"
proof -
  assume d: "distinct (keys m)"
  have "(k, v) \<in> set m \<longleftrightarrow> map_of m k = Some v" using d by (simp add: keys_def)
  then show ?thesis
    using has_key_iff [of m k] by (auto simp: has_key_def getd_def)
qed

lemma coexisting_span:
  assumes "reach_ok c"
  shows "t \<in> span (getd [] (coexisting c) p) \<longleftrightarrow> p \<noteq> [] \<and> (\<exists>v. package_urn_of v = p \<and> t \<in> reach_span c v)"
proof -
  have d: "distinct (keys c)" using assms by (simp add: reach_ok_def)
  have "t \<in> span (getd [] (coexisting c) p) \<longleftrightarrow> p \<noteq> [] \<and> (\<exists>(v, s) \<in> set c. package_urn_of v = p \<and> t \<in> span s)"
    using coexisting_spans [of "[]" c p] by (simp add: coexisting_def)
  also have "(\<exists>(v, s) \<in> set c. package_urn_of v = p \<and> t \<in> span s) \<longleftrightarrow> (\<exists>v. package_urn_of v = p \<and> t \<in> reach_span c v)"
  proof
    assume "\<exists>(v, s) \<in> set c. package_urn_of v = p \<and> t \<in> span s"
    then show "\<exists>v. package_urn_of v = p \<and> t \<in> reach_span c v"
      using alist_mem [OF d, of _ _ "[]"] by (auto simp: reach_span_def)
  next
    assume "\<exists>v. package_urn_of v = p \<and> t \<in> reach_span c v"
    then obtain v where v: "package_urn_of v = p" "t \<in> reach_span c v" by blast
    then have "v \<in> set (keys c)" using reach_ok_keys [OF assms] by blast
    then have "(v, getd [] c v) \<in> set c" using alist_mem [OF d, of v "getd [] c v" "[]"] by simp
    then show "\<exists>(v, s) \<in> set c. package_urn_of v = p \<and> t \<in> span s" using v by (auto simp: reach_span_def)
  qed
  finally show ?thesis .
qed

text \<open>The sorted list of keyholders against the roster's maps.\<close>

lemma roster_list:
  fixes s :: "string \<Rightarrow> int"
  assumes "good_roster st"
  defines "ks \<equiv> sort_slice by_reach (List.map (\<lambda>(h, through). \<lparr>k_handle = h, k_through = through, k_since = s h\<rparr>) (rs_by_handle st))"
  shows "(\<exists>k \<in> set ks. k_handle k = h \<and> t \<in> span (getd [] (k_through k) p)) \<longleftrightarrow> t \<in> span (thr st h p)"
    and "distinct (List.map k_handle ks)" and "\<forall>k \<in> set ks. k_through k \<noteq> []" and "length ks = card (set (keys (rs_by_handle st)))"
proof -
  let ?m = "rs_by_handle st"
  have d: "distinct (keys ?m)" using assms(1) by (simp add: good_roster_def)
  have mem: "k \<in> set ks \<longleftrightarrow> k_handle k \<in> set (keys ?m) \<and> k = \<lparr>k_handle = k_handle k, k_through = getd [] ?m (k_handle k), k_since = s (k_handle k)\<rparr>" for k
  proof -
    have "k \<in> set ks \<longleftrightarrow> (\<exists>h through. (h, through) \<in> set ?m \<and> k = \<lparr>k_handle = h, k_through = through, k_since = s h\<rparr>)"
      by (auto simp: ks_def)
    then show ?thesis unfolding alist_mem [OF d, where d = "[]"] by (cases k) auto
  qed
  show "(\<exists>k \<in> set ks. k_handle k = h \<and> t \<in> span (getd [] (k_through k) p)) \<longleftrightarrow> t \<in> span (thr st h p)"
  proof
    assume "\<exists>k \<in> set ks. k_handle k = h \<and> t \<in> span (getd [] (k_through k) p)"
    then obtain k where k: "k \<in> set ks" "k_handle k = h" "t \<in> span (getd [] (k_through k) p)" by blast
    then have "k_through k = getd [] ?m h" using mem [of k] by (metis keyholder.select_convs(2))
    then show "t \<in> span (thr st h p)" using k by simp
  next
    assume t: "t \<in> span (thr st h p)"
    then have "h \<in> set (keys ?m)" using getd_notin [of h ?m "[]"] by fastforce
    then show "\<exists>k \<in> set ks. k_handle k = h \<and> t \<in> span (getd [] (k_through k) p)"
      using t mem [of "\<lparr>k_handle = h, k_through = getd [] ?m h, k_since = s h\<rparr>"] by force
  qed
  have m: "mset (List.map k_handle ks) = mset (keys ?m)"
    by (simp add: ks_def keys_def comp_def case_prod_unfold multiset.map_comp)
  then show "distinct (List.map k_handle ks)" using d by (metis mset_eq_imp_distinct_iff)
  show "\<forall>k \<in> set ks. k_through k \<noteq> []"
  proof
    fix k assume "k \<in> set ks"
    then have "k_handle k \<in> set (keys ?m)" "k_through k = getd [] ?m (k_handle k)"
      using mem [of k] by (blast, metis keyholder.select_convs(2))
    then show "k_through k \<noteq> []" using assms(1) by (simp add: good_roster_def)
  qed
  have "length ks = length (keys ?m)" by (simp add: ks_def keys_def)
  then show "length ks = card (set (keys ?m))" using distinct_card [OF d] by simp
qed

lemma roster_handles:
  fixes s :: "string \<Rightarrow> int"
  shows "k_handle ` set (sort_slice by_reach (List.map (\<lambda>(h, through). \<lparr>k_handle = h, k_through = through, k_since = s h\<rparr>) m)) = set (keys m)"
  by (force simp: keys_def)

lemma handle_holds:
  assumes "good_roster st" "h \<in> set (keys (rs_by_handle st))"
  shows "\<exists>p t. t \<in> span (thr st h p)"
proof -
  have "getd [] (rs_by_handle st) h \<noteq> []" using assms by (simp add: good_roster_def)
  then obtain p s m where "getd [] (rs_by_handle st) h = (p, s) # m"
    by (cases "getd [] (rs_by_handle st) h") auto
  then have "p \<in> set (keys (getd [] (rs_by_handle st) h))" by (simp add: keys_def)
  then have "thr st h p \<noteq> []" "wf_set (thr st h p)" using assms by (simp_all add: good_roster_def)
  then have "span (thr st h p) \<noteq> {}" using wf_span_empty by blast
  then show ?thesis by blast
qed

lemma roster_loop_foldl:
  "roster_loop query coex ps st = Inr st' \<Longrightarrow> \<exists>es. st' = foldl (hold_edge coex) st es"
proof (induction "length ps" arbitrary: ps st rule: less_induct)
  case less
  show ?case
  proof (cases "ps = []")
    case True
    then show ?thesis using less.prems by (auto simp: roster_loop.simps intro: exI [of _ "[]"])
  next
    case False
    then obtain es where es: "roster_loop query coex (drop source_chunk ps) (foldl (hold_edge coex) st es) = Inr st'"
      using less.prems by (auto simp: roster_loop.simps [of _ _ ps] split: sum.splits)
    then obtain es' where "st' = foldl (hold_edge coex) (foldl (hold_edge coex) st es) es'"
      using less.hyps [OF _ es] False by (auto simp: source_chunk_def)
    then have "st' = foldl (hold_edge coex) st (es @ es')" by simp
    then show ?thesis by blast
  qed
qed

text \<open>No account is listed twice or for nothing, and none the union graph would not name.\<close>

lemma keyholders_shape:
  assumes "keyholders query r = Inr (ks, ros)"
  shows "distinct (List.map k_handle ks)" and "\<forall>k \<in> set ks. k_through k \<noteq> []" and "length ks \<le> r_union ros"
    and "h \<in> k_handle ` set ks \<longleftrightarrow> (\<exists>k p t. k \<in> set ks \<and> k_handle k = h \<and> t \<in> span (getd [] (k_through k) p))"
proof -
  let ?coex = "coexisting (coexistence r)" and ?st0 = "\<lparr>rs_by_handle = [], rs_union = [], rs_holders = [], rs_since = []\<rparr>"
  obtain st where st: "roster_loop query ?coex (sort_strings (packages_of (union_set r))) ?st0 = Inr st"
    using assms by (auto simp: keyholders_def Let_def split: sum.splits)
  define ks' where "ks' = sort_slice by_reach (List.map (\<lambda>(h, through). \<lparr>k_handle = h, k_through = through, k_since = getd 0 (rs_since st) h\<rparr>) (rs_by_handle st))"
  have ks: "ks = ks'" and ros: "r_union ros = length (rs_union st)"
    using assms st by (auto simp: keyholders_def Let_def ks'_def)
  obtain es where es: "st = foldl (hold_edge ?coex) ?st0 es" using roster_loop_foldl [OF st] by blast
  note H = hold_edges [of ?st0 ?coex es, folded es]
  have good: "good_roster st" using H by (simp add: good_roster_def)
  note L = roster_list [OF good, of "getd 0 (rs_since st)", folded ks'_def]
  show "distinct (List.map k_handle ks)" "\<forall>k \<in> set ks. k_through k \<noteq> []" using L unfolding ks by blast+
  have handles: "k_handle ` set ks = set (keys (rs_by_handle st))"
    using roster_handles [of "getd 0 (rs_since st)" "rs_by_handle st"] by (simp only: ks ks'_def)
  show "h \<in> k_handle ` set ks \<longleftrightarrow> (\<exists>k p t. k \<in> set ks \<and> k_handle k = h \<and> t \<in> span (getd [] (k_through k) p))"
  proof
    assume "h \<in> k_handle ` set ks"
    then obtain p t where "t \<in> span (thr st h p)" using handle_holds [OF good] handles by blast
    then show "\<exists>k p t. k \<in> set ks \<and> k_handle k = h \<and> t \<in> span (getd [] (k_through k) p)" using L(1) [of h t p] unfolding ks by blast
  qed blast
  have "set (keys (rs_by_handle st)) \<subseteq> set (rs_union st)"
  proof
    fix h assume "h \<in> set (keys (rs_by_handle st))"
    then obtain p t where "t \<in> span (thr st h p)" using handle_holds [OF good] by blast
    then show "h \<in> set (rs_union st)" using H [of h p] by (auto simp: good_roster_def)
  qed
  then have "length ks \<le> card (set (rs_union st))" unfolding ks L(4) by (rule card_mono [OF finite_set])
  also have "\<dots> \<le> r_union ros" unfolding ros by (rule card_length)
  finally show "length ks \<le> r_union ros" .
qed

text \<open>
  C2: An account is on the roster for a package at an instant exactly when it held publish rights over the package
  then and some version of the package was reached by a walk whose edges all held then: an account that left
  before the project depended on the package is not on it. No account is listed twice or for nothing, and the
  accounts the union graph would name are counted once each, never fewer than those on the roster.
\<close>

theorem keyholders_hold_keys:
  assumes "maintainers query hops" "edge_source out G" "reach out srcs opts = Inr (r, seen)"
    and "keyholders query r = Inr (ks, ros)"
  defines "D \<equiv> nat (max_depth (with_defaults opts))" and "W \<equiv> owithin (with_defaults opts)"
  shows "((\<exists>k \<in> set ks. k_handle k = h \<and> t \<in> span (getd [] (k_through k) p)) \<longleftrightarrow>
      p \<noteq> [] \<and> npm_package_urn p
      \<and> (\<exists>hop \<in> set (hops p). eto (key_edge hop) = h \<and> t \<in> instants (evalid (key_edge hop)))
      \<and> (\<exists>v. package_urn_of v = p \<and> (\<exists>n \<le> D. coexist {} G srcs W t n v)))
    \<and> distinct (List.map k_handle ks) \<and> (\<forall>k \<in> set ks. k_through k \<noteq> [])
    \<and> r_union ros = card {eto (key_edge hop) | hop q. q \<in> set (packages_of (union_set r)) \<and> npm_package_urn q \<and> hop \<in> set (hops q)}
    \<and> length ks \<le> r_union ros"
proof -
  note R = edge_source.reach_correct [OF assms(2,3), folded D_def W_def]
  let ?coex = "coexisting (coexistence r)" and ?ps = "sort_strings (packages_of (union_set r))"
  let ?st0 = "\<lparr>rs_by_handle = [], rs_union = [], rs_holders = [], rs_since = []\<rparr>"
  obtain st where st: "roster_loop query ?coex ?ps ?st0 = Inr st"
    using assms(4) by (auto simp: keyholders_def Let_def split: sum.splits)
  define ks' where "ks' = sort_slice by_reach (List.map (\<lambda>(h, through). \<lparr>k_handle = h, k_through = through, k_since = getd 0 (rs_since st) h\<rparr>) (rs_by_handle st))"
  have ks: "ks = ks'" and ros: "r_union ros = length (rs_union st)"
    using assms(4) st by (auto simp: keyholders_def Let_def ks'_def)
  obtain es where es: "st = foldl (hold_edge ?coex) ?st0 es" "set es = maintainers.rights hops (set (packages_of (union_set r)))"
    using maintainers.roster_loop_rights [OF assms(1) st] by auto
  have good0: "good_roster ?st0" by (simp add: good_roster_def)
  note H = hold_edges [OF good0, of ?coex es, folded es(1)]
  note L = roster_list [OF conjunct1 [OF H], of "getd 0 (rs_since st)", folded ks'_def]
  have right: "e \<in> set es \<longleftrightarrow> (\<exists>hop q. e = key_edge hop \<and> q \<in> set (packages_of (union_set r)) \<and> npm_package_urn q \<and> hop \<in> set (hops q))" for e
    unfolding es(2) maintainers.rights_def [OF assms(1)] by blast
  note from_pkg = maintainers.key_edge_from [OF assms(1)]
  have in_union: "p \<in> set (packages_of (union_set r))"
    if "p \<noteq> []" "package_urn_of v = p" "n \<le> D" "coexist {} G srcs W t n v" for v n
    using that coexist_uwalk [OF that(4)] R(3) by (auto simp: set_packages_of)
  have thr_iff: "t \<in> span (thr st h p) \<longleftrightarrow> (\<exists>e \<in> set es. eto e = h \<and> efrom e = p \<and> t \<in> span (getd [] ?coex p) \<and> t \<in> instants (evalid e))"
    using H [of h p] by simp
  let ?right = "p \<noteq> [] \<and> npm_package_urn p
      \<and> (\<exists>hop \<in> set (hops p). eto (key_edge hop) = h \<and> t \<in> instants (evalid (key_edge hop)))
      \<and> (\<exists>v. package_urn_of v = p \<and> (\<exists>n \<le> D. coexist {} G srcs W t n v))"
  have "t \<in> span (thr st h p) \<longleftrightarrow> ?right"
  proof
    assume "t \<in> span (thr st h p)"
    then obtain e where e: "e \<in> set es" "eto e = h" "efrom e = p" "t \<in> span (getd [] ?coex p)" "t \<in> instants (evalid e)"
      using thr_iff by blast
    obtain hop q where q: "e = key_edge hop" "npm_package_urn q" "hop \<in> set (hops q)" using e(1) right by blast
    then have "q = p" using from_pkg e(3) by simp
    then show ?right using q e coexisting_span [OF R(1)] R(2) by blast
  next
    assume r: ?right
    then obtain hop where hop: "hop \<in> set (hops p)" "eto (key_edge hop) = h" "t \<in> instants (evalid (key_edge hop))" by blast
    have "p \<in> set (packages_of (union_set r))" using r in_union by blast
    then have "key_edge hop \<in> set es" using right r hop(1) by blast
    moreover have "t \<in> span (getd [] ?coex p)" using r coexisting_span [OF R(1)] R(2) by blast
    ultimately show "t \<in> span (thr st h p)" unfolding thr_iff using hop from_pkg by blast
  qed
  then have 1: "(\<exists>k \<in> set ks. k_handle k = h \<and> t \<in> span (getd [] (k_through k) p)) \<longleftrightarrow> ?right" 
    unfolding ks L(1) .
  have names: "set (rs_union st) = {eto (key_edge hop) | hop q. q \<in> set (packages_of (union_set r)) \<and> npm_package_urn q \<and> hop \<in> set (hops q)}"
    (is "_ = ?names")
  proof -
    have "set (rs_union st) = eto ` set es" using H by simp
    then show ?thesis unfolding es(2) maintainers.rights_def [OF assms(1)] by blast
  qed
  have dist: "distinct (rs_union st)" using H by simp
  have 2: "r_union ros = card ?names" unfolding ros names [symmetric] using distinct_card [OF dist] by simp
  show ?thesis using 1 2 keyholders_shape(1-3) [OF assms(4)] by blast
qed

lemma maintains_total:
  assumes "answering query" shows "\<exists>es. maintains query ps = Inr es"
proof (induction "length ps" arbitrary: ps rule: less_induct)
  case less
  let ?v = "List.filter npm_package_urn ps"
  obtain recs where recs: "query (maintains_stmt ?v) = Inr recs" using assms unfolding answering_def maintains_stmt_def by blast
  show ?case
  proof (cases "?v = [] \<or> \<not> (length recs \<ge> result_limit \<and> length ?v > 1)")
    case True
    then show ?thesis using recs by (subst maintains.simps) (auto simp: Let_def)
  next
    case False
    then have "length (take (length ?v div 2) ?v) < length ps" "length (drop (length ?v div 2) ?v) < length ps"
      using halves_less [of npm_package_urn ps] by auto
    from less [OF this(1)] less [OF this(2)] show ?thesis
      using False recs by (subst maintains.simps) (auto simp: Let_def)
  qed
qed

lemma roster_loop_total:
  assumes "answering query" shows "\<exists>st'. roster_loop query coex ps st = Inr st'"
proof (induction "length ps" arbitrary: ps st rule: less_induct)
  case less
  show ?case
  proof (cases "ps = []")
    case True
    then show ?thesis by (simp add: roster_loop.simps)
  next
    case False
    obtain es where es: "maintains query (take source_chunk ps) = Inr es" using maintains_total [OF assms] by blast
    have "length (drop source_chunk ps) < length ps" using False by (simp add: source_chunk_def)
    from less [OF this] show ?thesis using False es by (simp add: roster_loop.simps [of _ _ ps])
  qed
qed

lemma keyholders_total: "answering query \<Longrightarrow> \<exists>ks ros. keyholders query r = Inr (ks, ros)"
  using roster_loop_total [of query "coexisting (coexistence r)" "sort_strings (packages_of (union_set r))"
      "\<lparr>rs_by_handle = [], rs_union = [], rs_holders = [], rs_since = []\<rparr>"]
  by (auto simp: keyholders_def Let_def)

abbreviation one_dependency :: "edge list" where
  "one_dependency \<equiv> [\<lparr>efrom = ''prj'', eto = ''pkg:npm/a@1'', evalid = iv 0 10\<rparr>]"

abbreviation alice_hop :: hop where
  "alice_hop \<equiv> (urn_props ''pkg:npm/a'', [(''handle'', PStr ''alice'')], window_props 3 20)"

lemma npm_package_a: "npm_package_urn ''pkg:npm/a''"
  by (simp add: npm_package_urn_def npm_name_def plain_name_def scope_char_def less_eq_char_def)

lemma hops_alice: "table_hops [alice_hop] ''pkg:npm/a'' = [alice_hop]"
proof -
  have filtered: "List.filter (\<lambda>h. string_prop (fst h) ''urn'' = ''pkg:npm/a'') [alice_hop] = [alice_hop]"
    by (simp add: string_prop_def getd_def as_str_def)
  have "length [alice_hop] \<le> result_limit - 1" by (simp only: result_limit_def list.size)
  then show ?thesis unfolding table_hops_def filtered by (rule take_all)
qed

theorem keyholders_hold_keys_witness:
  "\<exists>r seen ks ros. reach (table_out one_dependency) (sources [''prj'']) \<lparr>owithin = iv 0 0, max_depth = 2\<rparr> = Inr (r, seen)
     \<and> keyholders (table_query npm_package_urn [alice_hop]) r = Inr (ks, ros)
     \<and> (\<exists>k \<in> set ks. k_handle k = ''alice'' \<and> 5 \<in> span (getd [] (k_through k) ''pkg:npm/a''))
     \<and> \<not> (\<exists>k \<in> set ks. k_handle k = ''alice'' \<and> 2 \<in> span (getd [] (k_through k) ''pkg:npm/a''))"
proof -
  obtain r seen where r: "reach (table_out one_dependency) (sources [''prj'']) \<lparr>owithin = iv 0 0, max_depth = 2\<rparr> = Inr (r, seen)"
    using reach_total [of "table_out one_dependency"] by (fastforce simp: table_out_def)
  obtain ks ros where k: "keyholders (table_query npm_package_urn [alice_hop]) r = Inr (ks, ros)"
    using keyholders_total [OF answering_table] by blast
  have d: "with_defaults \<lparr>owithin = iv 0 0, max_depth = 2\<rparr> = \<lparr>owithin = always, max_depth = 2\<rparr>"
    by (simp add: with_defaults_def)
  have s: "coexist {} (set one_dependency) (sources [''prj'']) always 5 0 ''prj''"
    using coexist.source [of "\<lparr>eurn = ''prj'', espan = always\<rparr>" "sources [''prj'']" "{}" 5 always "set one_dependency"]
    by (simp add: sources_def always_def instants_def open_interval_def)
  have a: "coexist {} (set one_dependency) (sources [''prj'']) always 5 1 ''pkg:npm/a@1''"
    using coexist.step [of "{}" "set one_dependency" "sources [''prj'']" always 5 0 "\<lparr>efrom = ''prj'', eto = ''pkg:npm/a@1'', evalid = iv 0 10\<rparr>"] s
    by (simp add: instants_def)
  have u: "package_urn_of ''pkg:npm/a@1'' = ''pkg:npm/a''" by (simp add: package_urn_of_def)
  have e: "key_edge alice_hop = \<lparr>efrom = ''pkg:npm/a'', eto = ''alice'', evalid = iv 3 20\<rparr>"
    by (simp add: key_edge_def string_prop_def getd_def as_str_def interval_of_def int_prop_def as_int_def)
  note P = keyholders_hold_keys [OF keytable.maintainers_axioms listed.edge_source_axioms r k, unfolded d]
  have "\<exists>k \<in> set ks. k_handle k = ''alice'' \<and> 5 \<in> span (getd [] (k_through k) ''pkg:npm/a'')"
    using P [of "''alice''" 5 "''pkg:npm/a''"] a u npm_package_a
    by (fastforce simp: hops_alice e instants_def)
  moreover have "\<not> (\<exists>k \<in> set ks. k_handle k = ''alice'' \<and> 2 \<in> span (getd [] (k_through k) ''pkg:npm/a''))"
    using P [of "''alice''" 2 "''pkg:npm/a''"] by (simp add: hops_alice e instants_def)
  ultimately show ?thesis using r k by blast
qed

end
