(* ===== verification/Risk.thy ===== *)
theory Risk
  imports Keyholders
begin

text \<open>
  Signals, scores and the audit: \<open>internal/query/signals.go\<close>, \<open>internal/query/risk.go\<close> and \<open>Audit\<close> of
  \<open>internal/query/audit.go\<close>. A \<open>float64\<close> is a real number here: rounding is not modelled, and the text
  that prints a number of years is a parameter \<open>years\<close>. The theorems bound the score and show what an
  unknown term does to it.
\<close>

subsection \<open>Signals\<close>

record fraction =
  f_count :: nat
  f_of :: nat

definition fraction_known :: "fraction \<Rightarrow> bool" where
  "fraction_known f \<longleftrightarrow> f_of f > 0"

definition fraction_value :: "fraction \<Rightarrow> real" where
  "fraction_value f = (if f_of f = 0 then 0 else real (f_count f) / real (f_of f))"

record signals =
  s_solo :: fraction
  s_no_provenance :: fraction
  s_install_script :: fraction
  s_last_publish :: int
  s_last_release :: int

abbreviation no_fraction :: fraction where
  "no_fraction \<equiv> \<lparr>f_count = 0, f_of = 0\<rparr>"

definition count_in :: "bool \<Rightarrow> fraction \<Rightarrow> fraction" where
  "count_in hit f = \<lparr>f_count = (if hit then f_count f + 1 else f_count f), f_of = f_of f + 1\<rparr>"

definition sample_signal :: "string \<Rightarrow> signals \<Rightarrow> version_attrs \<Rightarrow> signals" where
  "sample_signal handle s a =
     (let s1 = (if va_published_at a > s_last_release s then s\<lparr>s_last_release := va_published_at a\<rparr> else s);
          s2 = (if va_published_by a = handle \<and> va_published_at a > s_last_publish s1
                then s1\<lparr>s_last_publish := va_published_at a\<rparr> else s1)
      in if \<not> va_annotated a then s2
         else s2\<lparr>s_no_provenance := count_in (\<not> va_has_provenance a) (s_no_provenance s2),
                 s_install_script := count_in (va_has_install_script a) (s_install_script s2)\<rparr>)"

definition package_signal :: "string \<Rightarrow> (string, nat) gomap \<Rightarrow> (string, version_attrs list) gomap \<Rightarrow> signals \<Rightarrow> string \<Rightarrow> signals" where
  "package_signal handle held sampled s pkg =
     foldl (sample_signal handle) (s\<lparr>s_solo := count_in (getd 0 held pkg = 1) (s_solo s)\<rparr>) (getd [] sampled pkg)"

definition signals_for :: "keyholder \<Rightarrow> (string, nat) gomap \<Rightarrow> (string, version_attrs list) gomap \<Rightarrow> signals" where
  "signals_for k held sampled =
     foldl (package_signal (k_handle k) held sampled)
       \<lparr>s_solo = no_fraction, s_no_provenance = no_fraction, s_install_script = no_fraction,
        s_last_publish = 0, s_last_release = 0\<rparr> (keys (k_through k))"

subsection \<open>Sampled versions\<close>

type_synonym sampled = "(string, version_attrs list) gomap"

definition sampled_stmt :: "string list \<Rightarrow> string" where
  "sampled_stmt packages = mspaths_stmt ''Package'' ''SAMPLED'' ''outgoing'' result_limit packages"

definition note_sample :: "sampled \<times> expander_state \<Rightarrow> grecord \<Rightarrow> sampled \<times> expander_state" where
  "note_sample st rec =
     (case map_of rec ''path'' of
        Some (Path [p, v] rels) \<Rightarrow>
          let pkg = string_prop p ''urn'' in
          if pkg = [] then st
          else let attrs = version_attrs_of v; (out, x) = st in
            (put pkg (getd [] out pkg @ [attrs]) out, x\<lparr>x_attrs := put (va_urn attrs) attrs (x_attrs x)\<rparr>)
      | _ \<Rightarrow> st)"

function read_sampled :: "query_fun \<Rightarrow> string list \<Rightarrow> sampled \<times> expander_state \<Rightarrow> err option \<times> sampled \<times> expander_state" where
  "read_sampled query packages st =
     (let st1 = (fst st, (snd st)\<lparr>x_reads := x_reads (snd st) + 1\<rparr>) in
      case query (sampled_stmt packages) of
        Inl e \<Rightarrow> (Some (Wrap (''read sampled versions of '' @ utoa (length packages) @ '' packages'') e), st1)
      | Inr recs \<Rightarrow>
          if length recs \<ge> result_limit \<and> length packages > 1 then
            let half = length packages div 2 in
            (case read_sampled query (take half packages) st1 of
               (Some e, st2) \<Rightarrow> (Some e, st2)
             | (None, st2) \<Rightarrow> read_sampled query (drop half packages) st2)
          else (None, foldl note_sample st1 recs))"
  by pat_completeness auto
termination
  by (relation "measure (\<lambda>(_, ps, _). length ps)") auto

declare read_sampled.simps [simp del]

function sampled_loop :: "query_fun \<Rightarrow> string list \<Rightarrow> sampled \<times> expander_state \<Rightarrow> err option \<times> sampled \<times> expander_state" where
  "sampled_loop query valid st =
     (if valid = [] then (None, st)
      else case read_sampled query (take source_chunk valid) st of
          (Some e, st') \<Rightarrow> (Some e, st')
        | (None, st') \<Rightarrow> sampled_loop query (drop source_chunk valid) st')"
  by pat_completeness auto
termination
  by (relation "measure (\<lambda>(_, ps, _). length ps)") (auto simp: source_chunk_def)

declare sampled_loop.simps [simp del]

definition sampled_versions :: "query_fun \<Rightarrow> string list \<Rightarrow> expander_state \<Rightarrow> sampled res \<times> expander_state" where
  "sampled_versions query packages x =
     (case sampled_loop query (List.filter npm_package_urn packages) ([], x) of
        (Some e, _, x') \<Rightarrow> (Inl e, x')
      | (None, out, x') \<Rightarrow>
          (Inr (List.map (\<lambda>(p, attrs). (p, sort_slice (\<lambda>a b. va_published_at a < va_published_at b) attrs)) out), x'))"

subsection \<open>The score\<close>

record weights =
  w_reach :: real
  w_staleness :: real
  w_solo :: real
  w_no_provenance :: real
  w_install_script :: real

definition default_weights :: weights where
  "default_weights = \<lparr>w_reach = 40 / 100, w_staleness = 15 / 100, w_solo = 20 / 100, w_no_provenance = 15 / 100,
     w_install_script = 10 / 100\<rparr>"

definition staleness_cap :: real where
  "staleness_cap = 5 * 365 * 24 * 60 * 60"

record score_term =
  t_name :: string
  t_value :: real
  t_weight :: real
  t_known :: bool
  t_detail :: string

definition contribution :: "score_term \<Rightarrow> real" where
  "contribution t = (if \<not> t_known t then 0 else t_value t * t_weight t)"

record score =
  sc_total :: real
  sc_terms :: "score_term list"

definition known_terms :: "score \<Rightarrow> nat" where
  "known_terms s = foldl (\<lambda>n t. if t_known t then n + 1 else n) 0 (sc_terms s)"

definition staleness :: "(real \<Rightarrow> string) \<Rightarrow> signals \<Rightarrow> weights \<Rightarrow> int \<Rightarrow> score_term" where
  "staleness years s w now =
     (if s_last_publish s \<le> 0
      then \<lparr>t_name = ''staleness'', t_value = 0, t_weight = w_staleness w, t_known = False, t_detail = ''no observed publish''\<rparr>
      else let idle = real_of_int (now - s_last_publish s) in
        \<lparr>t_name = ''staleness'', t_value = max 0 (min (idle / staleness_cap) 1), t_weight = w_staleness w, t_known = True,
         t_detail = years (idle / (365 * 24 * 60 * 60)) @ '' years since their last observed publish''\<rparr>)"

definition terms_of :: "(real \<Rightarrow> string) \<Rightarrow> keyholder \<Rightarrow> signals \<Rightarrow> weights \<Rightarrow> nat \<Rightarrow> int \<Rightarrow> score_term list" where
  "terms_of years k s w denominator now =
     (let reach = (if denominator > 0 \<and> packages_held k > 0
                   then ln (1 + real (packages_held k)) / ln (1 + real denominator) else 0) in
      [\<lparr>t_name = ''reach'', t_value = min reach 1, t_weight = w_reach w, t_known = denominator > 0,
        t_detail = utoa (packages_held k) @ '' of the '' @ utoa denominator @ '' packages reached''\<rparr>,
       staleness years s w now,
       \<lparr>t_name = ''solo'', t_value = fraction_value (s_solo s), t_weight = w_solo w, t_known = fraction_known (s_solo s),
        t_detail = ''sole maintainer of '' @ utoa (f_count (s_solo s)) @ '' of '' @ utoa (f_of (s_solo s))\<rparr>,
       \<lparr>t_name = ''no provenance'', t_value = fraction_value (s_no_provenance s), t_weight = w_no_provenance w,
        t_known = fraction_known (s_no_provenance s),
        t_detail = utoa (f_count (s_no_provenance s)) @ '' of '' @ utoa (f_of (s_no_provenance s)) @ '' sampled versions''\<rparr>,
       \<lparr>t_name = ''install script'', t_value = fraction_value (s_install_script s), t_weight = w_install_script w,
        t_known = fraction_known (s_install_script s),
        t_detail = utoa (f_count (s_install_script s)) @ '' of '' @ utoa (f_of (s_install_script s)) @ '' sampled versions''\<rparr>])"

definition rescale :: "real \<Rightarrow> score_term \<Rightarrow> score_term" where
  "rescale c t = (if \<not> t_known t then t\<lparr>t_weight := 0\<rparr> else t\<lparr>t_weight := t_weight t * c\<rparr>)"

definition score_of :: "(real \<Rightarrow> string) \<Rightarrow> keyholder \<Rightarrow> signals \<Rightarrow> weights \<Rightarrow> nat \<Rightarrow> int \<Rightarrow> score" where
  "score_of years k s w denominator now =
     (let terms = terms_of years k s w denominator now;
          known = foldl (\<lambda>x t. if t_known t then x + t_weight t else x) 0 terms
      in if known = 0 then \<lparr>sc_total = 0, sc_terms = terms\<rparr>
         else let terms' = List.map (rescale (1 / known)) terms
              in \<lparr>sc_total = foldl (\<lambda>x t. x + contribution t) 0 terms', sc_terms = terms'\<rparr>)"

definition riskier :: "(string, score) gomap \<Rightarrow> keyholder \<Rightarrow> keyholder \<Rightarrow> bool" where
  "riskier scores a b =
     (let zero = \<lparr>sc_total = 0, sc_terms = []\<rparr>;
          x = sc_total (getd zero scores (k_handle a)); y = sc_total (getd zero scores (k_handle b))
      in if x \<noteq> y then x > y else k_handle a < k_handle b)"

definition no_signals :: signals where
  "no_signals = \<lparr>s_solo = no_fraction, s_no_provenance = no_fraction, s_install_script = no_fraction,
     s_last_publish = 0, s_last_release = 0\<rparr>"

definition ranked :: "(real \<Rightarrow> string) \<Rightarrow> keyholder list \<Rightarrow> (string, signals) gomap \<Rightarrow> weights \<Rightarrow> nat \<Rightarrow> int
    \<Rightarrow> keyholder list \<times> (string, score) gomap" where
  "ranked years ks sigs w denominator now =
     (let scores = foldl (\<lambda>m k. put (k_handle k) (score_of years k (getd no_signals sigs (k_handle k)) w denominator now) m) [] ks
      in (sort_slice (riskier scores) ks, scores))"

subsection \<open>The audit\<close>

text \<open>
  \<open>Audit\<close> in the order the code runs: which pins the graph holds, the search from them, the roster, the
  sampled versions, one score per account, the cuts. \<open>now\<close> is the auditor's clock and \<open>project\<close> and
  \<open>format\<close> are the lockfile's; the pins are pairs of a name and a version.
\<close>

record audit_result =
  a_project :: string
  a_format :: string
  a_pins :: nat
  a_sources :: nat
  a_reach :: "reach_result option"
  a_keyholders :: "keyholder list"
  a_union_keyholders :: nat
  a_signals :: "(string, signals) gomap"
  a_scores :: "(string, score) gomap"
  a_weights :: weights
  a_cuts :: "cut list"

definition phantom_keyholders :: "audit_result \<Rightarrow> int" where
  "phantom_keyholders a = int (a_union_keyholders a) - int (length (a_keyholders a))"

definition scored_at :: "int \<Rightarrow> options \<Rightarrow> int" where
  "scored_at now opts = (if owithin opts \<noteq> always \<and> ifrom (owithin opts) > 0 then ifrom (owithin opts) else now)"

definition collect_signals :: "keyholder list \<Rightarrow> (string, nat) gomap \<Rightarrow> sampled \<Rightarrow> (string, signals) gomap" where
  "collect_signals ks held smp = foldl (\<lambda>m k. put (k_handle k) (signals_for k held smp) m) [] ks"

definition audit :: "query_fun \<Rightarrow> (real \<Rightarrow> string) \<Rightarrow> weights \<Rightarrow> int \<Rightarrow> string \<Rightarrow> string \<Rightarrow> (string \<times> string) list
    \<Rightarrow> options \<Rightarrow> audit_result res" where
  "audit query years w now project format pins opts =
     (let out = \<lparr>a_project = project, a_format = format, a_pins = length pins, a_sources = 0, a_reach = None,
        a_keyholders = [], a_union_keyholders = 0, a_signals = [], a_scores = [], a_weights = w, a_cuts = []\<rparr> in
      case known_versions query pins of
        Inl e \<Rightarrow> Inl e
      | Inr srcs \<Rightarrow>
          if srcs = [] then Inr out
          else (case reach (graph_out query ''RESOLVES_TO'' ''outgoing'') srcs opts of
              Inl e \<Rightarrow> Inl e
            | Inr (r, seen) \<Rightarrow>
                (case keyholders query r of
                    Inl e \<Rightarrow> Inl e
                  | Inr (ks, held) \<Rightarrow>
                      (case fst (sampled_versions query (reached_package_list (coexistence r)) \<lparr>x_reads = 0, x_attrs = []\<rparr>) of
                          Inl e \<Rightarrow> Inl e
                        | Inr smp \<Rightarrow>
                            let sigs = collect_signals ks (r_count held) smp;
                                (order, scores) = ranked years ks sigs w (length (r_count held)) (scored_at now opts)
                            in Inr (out\<lparr>a_sources := length srcs, a_reach := Some r, a_keyholders := order,
                              a_union_keyholders := r_union held, a_signals := sigs, a_scores := scores,
                              a_cuts := cuts r order\<rparr>)))))"

subsection \<open>Bounds of the score\<close>

definition good_fraction :: "fraction \<Rightarrow> bool" where
  "good_fraction f \<longleftrightarrow> f_count f \<le> f_of f"

definition good_signals :: "signals \<Rightarrow> bool" where
  "good_signals s \<longleftrightarrow> good_fraction (s_solo s) \<and> good_fraction (s_no_provenance s) \<and> good_fraction (s_install_script s)"

lemma good_count_in: "good_fraction f \<Longrightarrow> good_fraction (count_in hit f)"
  by (simp add: good_fraction_def count_in_def)

lemma good_sample: "good_signals s \<Longrightarrow> good_signals (sample_signal handle s a)"
  by (simp add: sample_signal_def good_signals_def Let_def good_count_in)

lemma foldl_invariant: "P s \<Longrightarrow> (\<And>s x. P s \<Longrightarrow> P (f s x)) \<Longrightarrow> P (foldl f s xs)"
  by (induction xs arbitrary: s) auto

lemma good_package: "good_signals s \<Longrightarrow> good_signals (package_signal handle held smp s pkg)"
  unfolding package_signal_def
  by (rule foldl_invariant [where P = good_signals]) (simp add: good_signals_def good_count_in, rule good_sample)

lemma good_signals_for: "good_signals (signals_for k held smp)"
  unfolding signals_for_def
  by (rule foldl_invariant [where P = good_signals]) (simp add: good_signals_def good_fraction_def, rule good_package)

lemma good_no_signals: "good_signals no_signals"
  by (simp add: good_signals_def no_signals_def good_fraction_def)

lemma fraction_bounds: "good_fraction f \<Longrightarrow> 0 \<le> fraction_value f \<and> fraction_value f \<le> 1"
  by (simp add: fraction_value_def good_fraction_def)

definition good_weights :: "weights \<Rightarrow> bool" where
  "good_weights w \<longleftrightarrow> w_reach w \<ge> 0 \<and> w_staleness w \<ge> 0 \<and> w_solo w \<ge> 0 \<and> w_no_provenance w \<ge> 0 \<and> w_install_script w \<ge> 0"

lemma term_bounds:
  assumes "good_signals s" "good_weights w" "t \<in> set (terms_of years k s w d now)"
  shows "0 \<le> t_value t \<and> t_value t \<le> 1 \<and> 0 \<le> t_weight t"
  using assms fraction_bounds
  by (auto simp: terms_of_def staleness_def Let_def good_signals_def good_weights_def)

lemma foldl_if_sum: "foldl (\<lambda>x t. if P t then x + f t else x) (a :: real) ts = a + sum_list (List.map f (List.filter P ts))"
  by (induction ts arbitrary: a) auto

lemma foldl_contributions:
  "foldl (\<lambda>x t. x + contribution t) a (List.map (rescale c) ts)
     = a + c * sum_list (List.map (\<lambda>t. t_value t * t_weight t) (List.filter t_known ts))"
  by (induction ts arbitrary: a) (auto simp: rescale_def contribution_def algebra_simps)

lemma sum_list_bounds:
  assumes "\<And>t. t \<in> set ts \<Longrightarrow> 0 \<le> v t \<and> v t \<le> (1 :: real) \<and> 0 \<le> w t"
  shows "0 \<le> sum_list (List.map (\<lambda>t. v t * w t) ts) \<and> sum_list (List.map (\<lambda>t. v t * w t) ts) \<le> sum_list (List.map w ts)"
  using assms
proof (induction ts)
  case (Cons t ts)
  then have "v t * w t \<le> 1 * w t" by (intro mult_right_mono) auto
  then show ?case using Cons by (auto intro!: add_mono)
qed simp

lemma rescaled_weights:
  "sum_list (List.map t_weight (List.map (rescale c) ts)) = c * sum_list (List.map t_weight (List.filter t_known ts))"
  by (induction ts) (auto simp: rescale_def algebra_simps)

text \<open>
  C11: A score is the average of its known terms under their weights: whatever an account's packages and
  samples are, non-negative weights keep the total between 0 and 1 and the printed weights sum to one; an
  unknown term weighs nothing, and only an account with no weight on any known term scores zero by default.
\<close>

theorem score_is_weighted_average:
  fixes years :: "real \<Rightarrow> string" and k :: keyholder and w :: weights and d :: nat and now :: int
  assumes "good_weights w" and s: "s = signals_for k held smp"
  defines "ts \<equiv> terms_of years k s w d now" and "sc \<equiv> score_of years k s w d now"
  defines "W \<equiv> sum_list (List.map t_weight (List.filter t_known ts))"
  shows "0 \<le> sc_total sc \<and> sc_total sc \<le> 1
    \<and> (if W = 0 then sc_total sc = 0
       else sc_total sc * W = sum_list (List.map (\<lambda>t. t_value t * t_weight t) (List.filter t_known ts))
         \<and> sum_list (List.map t_weight (sc_terms sc)) = 1
         \<and> (\<forall>t \<in> set (sc_terms sc). t_known t \<or> t_weight t = 0))
    \<and> List.map t_known (sc_terms sc) = List.map t_known ts \<and> known_terms sc = length (List.filter t_known ts)"
proof -
  let ?S = "sum_list (List.map (\<lambda>t. t_value t * t_weight t) (List.filter t_known ts))"
  have b: "0 \<le> t_value t \<and> t_value t \<le> 1 \<and> 0 \<le> t_weight t" if "t \<in> set (List.filter t_known ts)" for t
    using term_bounds [OF good_signals_for [of k held smp] assms(1), of t] that by (auto simp: ts_def s)
  have S: "0 \<le> ?S" "?S \<le> W"
    using sum_list_bounds [of "List.filter t_known ts" t_value t_weight, OF b] by (auto simp: W_def)
  have W: "foldl (\<lambda>x t. if t_known t then x + t_weight t else x) 0 ts = W" by (simp add: foldl_if_sum W_def)
  have sc: "sc = (if W = 0 then \<lparr>sc_total = 0, sc_terms = ts\<rparr>
      else \<lparr>sc_total = 1 / W * ?S, sc_terms = List.map (rescale (1 / W)) ts\<rparr>)"
    by (simp add: sc_def score_of_def Let_def ts_def [symmetric] W foldl_contributions)
  have known: "List.map t_known (sc_terms sc) = List.map t_known ts"
    by (simp add: sc rescale_def)
  have count: "foldl (\<lambda>n t. if t_known t then n + 1 else n) c xs = c + length (List.filter id (List.map t_known xs))" for c xs
    by (induction xs arbitrary: c) auto
  have "known_terms sc = length (List.filter t_known ts)"
    by (simp add: known_terms_def count known filter_map o_def)
  moreover have "0 \<le> sc_total sc \<and> sc_total sc \<le> 1" using S by (auto simp: sc divide_le_eq_1)
  moreover have "if W = 0 then sc_total sc = 0 else sc_total sc * W = ?S
      \<and> sum_list (List.map t_weight (sc_terms sc)) = 1 \<and> (\<forall>t \<in> set (sc_terms sc). t_known t \<or> t_weight t = 0)"
    by (auto simp: sc rescaled_weights [unfolded map_map] simp flip: W_def) (auto simp: rescale_def split: if_splits)
  ultimately show ?thesis using known by blast
qed

text \<open>The two shares that make up the rest: two known terms in three, each of weight one half.\<close>

theorem score_is_weighted_average_witness:
  "sc_total (score_of (\<lambda>_. []) \<lparr>k_handle = ''a'', k_through = [(''p'', [])], k_since = 0\<rparr>
     (signals_for \<lparr>k_handle = ''a'', k_through = [(''p'', [])], k_since = 0\<rparr> [(''p'', 1)] []) default_weights 7 9) \<le> 1"
  using score_is_weighted_average [OF _ refl, of default_weights "\<lambda>_. []"] 
  by (simp add: good_weights_def default_weights_def)

subsection \<open>The order of the ranking\<close>

definition total_of :: "(string, score) gomap \<Rightarrow> string \<Rightarrow> real" where
  "total_of scores h = sc_total (getd \<lparr>sc_total = 0, sc_terms = []\<rparr> scores h)"

interpretation risk_order: slice_order "riskier scores" "\<lambda>_. True" for scores
  by unfold_locales (auto simp: riskier_def Let_def split: if_splits)

lemma foldl_put_map:
  "h \<in> f ` set ks \<Longrightarrow> \<exists>k \<in> set ks. f k = h \<and> getd d (foldl (\<lambda>m k. put (f k) (g k) m) m ks) h = g k"
proof (induction ks rule: rev_induct)
  case (snoc k ks)
  then show ?case by (cases "f k = h") auto
qed simp

lemma ranked_scores:
  assumes "distinct (List.map k_handle ks)" "k \<in> set ks"
  shows "getd d (snd (ranked years ks sigs w n now)) (k_handle k) = score_of years k (getd no_signals sigs (k_handle k)) w n now"
proof -
  obtain k' where "k' \<in> set ks" "k_handle k' = k_handle k"
    "getd d (snd (ranked years ks sigs w n now)) (k_handle k) = score_of years k' (getd no_signals sigs (k_handle k')) w n now"
    using foldl_put_map [of "k_handle k" k_handle ks d "\<lambda>k. score_of years k (getd no_signals sigs (k_handle k)) w n now" "[]"] assms(2)
    by (auto simp: ranked_def Let_def)
  then show ?thesis using assms by (metis inj_on_eq_iff distinct_map)
qed

lemma ranked_order:
  "sorted_wrt (\<lambda>a b. total_of scores (k_handle a) > total_of scores (k_handle b)
      \<or> total_of scores (k_handle a) = total_of scores (k_handle b) \<and> k_handle a \<le> k_handle b)
    (sort_slice (riskier scores) ks)"
  by (rule sorted_wrt_mono_rel [OF _ risk_order.sorted_sort_slice])
    (auto simp: riskier_def total_of_def Let_def not_less split: if_splits)

lemma cut_of_handle: "cut_of r k = Some c \<Longrightarrow> c_handle c = k_handle k"
  by (auto simp: cut_of_def Let_def split: if_splits)

text \<open>
  C10: The audit that found no pin in the graph reports nothing; otherwise it lists exactly the accounts of the
  roster, each once, by falling risk and then by handle, each with the score of its own signals; there are
  never fewer accounts in the union graph than keyholders, and every cut belongs to a listed account.
\<close>

theorem audit_ranks_the_roster:
  assumes "audit query years w now project format pins opts = Inr a"
  shows "(case a_reach a of
      None \<Rightarrow> a_sources a = 0 \<and> a_keyholders a = [] \<and> a_cuts a = [] \<and> known_versions query pins = Inr []
    | Some r \<Rightarrow> (\<exists>ks ros. keyholders query r = Inr (ks, ros) \<and> mset (a_keyholders a) = mset ks
        \<and> distinct (List.map k_handle (a_keyholders a))
        \<and> sorted_wrt (\<lambda>x y. total_of (a_scores a) (k_handle x) > total_of (a_scores a) (k_handle y)
            \<or> total_of (a_scores a) (k_handle x) = total_of (a_scores a) (k_handle y) \<and> k_handle x \<le> k_handle y) (a_keyholders a)
        \<and> (\<forall>k \<in> set (a_keyholders a). total_of (a_scores a) (k_handle k) =
            sc_total (score_of years k (getd no_signals (a_signals a) (k_handle k)) w (length (r_count ros)) (scored_at now opts)))
        \<and> c_handle ` set (a_cuts a) \<subseteq> k_handle ` set (a_keyholders a)))
    \<and> phantom_keyholders a \<ge> 0"
proof -
  obtain srcs where srcs: "known_versions query pins = Inr srcs"
    using assms by (auto simp: audit_def Let_def split: sum.splits)
  show ?thesis
  proof (cases "srcs = []")
    case True
    then show ?thesis using assms srcs by (auto simp: audit_def Let_def phantom_keyholders_def)
  next
    case False
    then obtain r seen ks ros smp where K: "keyholders query r = Inr (ks, ros)"
      and a: "a_reach a = Some r" "a_signals a = collect_signals ks (r_count ros) smp"
        "a_keyholders a = fst (ranked years ks (a_signals a) w (length (r_count ros)) (scored_at now opts))"
        "a_scores a = snd (ranked years ks (a_signals a) w (length (r_count ros)) (scored_at now opts))"
        "a_cuts a = cuts r (a_keyholders a)" "a_union_keyholders a = r_union ros"
      using assms srcs by (auto simp: audit_def Let_def split: sum.splits prod.splits)
    note S = keyholders_shape [OF K]
    have m: "mset (a_keyholders a) = mset ks" and len: "length (a_keyholders a) = length ks"
      by (simp_all add: a(3) ranked_def Let_def)
    have d: "distinct (List.map k_handle (a_keyholders a))"
      using S(1) m by (metis mset_eq_imp_distinct_iff mset_map)
    have scores: "total_of (a_scores a) (k_handle k) = sc_total (score_of years k (getd no_signals (a_signals a) (k_handle k)) w
        (length (r_count ros)) (scored_at now opts))" if "k \<in> set (a_keyholders a)" for k
    proof -
      have "k \<in> set ks" using that m by (metis set_mset_mset)
      then show ?thesis unfolding total_of_def a(4) by (simp add: ranked_scores [OF S(1)])
    qed
    have order: "a_keyholders a = sort_slice (riskier (a_scores a)) ks"
      by (simp add: a(3,4) ranked_def Let_def)
    have "c_handle ` set (a_cuts a) \<subseteq> k_handle ` set (a_keyholders a)"
      using cut_of_handle by (force simp: a(5) cuts_mem)
    moreover have "phantom_keyholders a \<ge> 0" using S(3) by (simp add: phantom_keyholders_def a(6) len)
    ultimately show ?thesis using K m d scores ranked_order [of "a_scores a" ks, folded order]
      unfolding a(1) option.case by blast
  qed
qed

subsection \<open>The audit answers when the database does\<close>

lemma known_loop_total:
  assumes "answering query" shows "\<exists>m. known_loop query ws found = Inr m"
proof (induction "length ws" arbitrary: ws found rule: less_induct)
  case less
  obtain hs where "query (known_stmt (take source_chunk ws)) = Inr (List.map hop_record hs)"
    using assms unfolding answering_def known_stmt_def by blast
  then show ?case
    using less.hyps [of "drop source_chunk ws"]
    by (cases "ws = []") (simp_all add: known_loop.simps [of _ ws] known_loop.simps [of _ "[]"] Let_def source_chunk_def del: known_loop.simps)
qed

lemma read_sampled_total:
  assumes "answering query" shows "fst (read_sampled query ps st) = None"
proof (induction "length ps" arbitrary: ps st rule: less_induct)
  case less
  obtain recs where recs: "query (sampled_stmt ps) = Inr recs" using assms unfolding answering_def sampled_stmt_def by blast
  show ?case
  proof (cases "length recs \<ge> result_limit \<and> length ps > 1")
    case True
    let ?l = "take (length ps div 2) ps" and ?st = "(fst st, (snd st)\<lparr>x_reads := x_reads (snd st) + 1\<rparr>)"
    have "fst (read_sampled query ?l ?st) = None" "\<And>st. fst (read_sampled query (drop (length ps div 2) ps) st) = None"
      using less.hyps True by auto
    then show ?thesis using recs True
      by (subst read_sampled.simps) (cases "read_sampled query ?l ?st"; simp add: Let_def)
  next
    case False
    then show ?thesis using recs by (subst read_sampled.simps) (auto simp: Let_def)
  qed
qed

lemma sampled_loop_total:
  assumes "answering query" shows "fst (sampled_loop query ps st) = None"
proof (induction "length ps" arbitrary: ps st rule: less_induct)
  case less
  show ?case
  proof (cases "ps = []")
    case True
    then show ?thesis by (simp add: sampled_loop.simps)
  next
    case False
    obtain st' where "read_sampled query (take source_chunk ps) st = (None, st')"
      using read_sampled_total [OF assms, of "take source_chunk ps" st] by (cases "read_sampled query (take source_chunk ps) st") auto
    then show ?thesis using less.hyps [of "drop source_chunk ps" st'] False
      by (subst sampled_loop.simps) (simp add: source_chunk_def)
  qed
qed

lemma sampled_versions_total:
  assumes "answering query" shows "\<exists>smp. fst (sampled_versions query ps x) = Inr smp"
  using sampled_loop_total [OF assms, of "List.filter npm_package_urn ps" "([], x)"]
  by (cases "sampled_loop query (List.filter npm_package_urn ps) ([], x)") (auto simp: sampled_versions_def)

lemma audit_total:
  assumes "answering query"
  shows "\<exists>a srcs. audit query years w now project format pins opts = Inr a \<and> known_versions query pins = Inr srcs
    \<and> a_pins a = length pins \<and> a_sources a = length srcs \<and> (a_reach a = None \<longleftrightarrow> srcs = [])"
proof -
  obtain m where "known_loop query (wanted_urns pins) [] = Inr m" using known_loop_total [OF assms] by blast
  then obtain srcs where srcs: "known_versions query pins = Inr srcs" by (auto simp: known_versions_def)
  obtain r seen where r: "reach (graph_out query ''RESOLVES_TO'' ''outgoing'') srcs opts = Inr (r, seen)"
    using reach_total [of "graph_out query ''RESOLVES_TO'' ''outgoing''"] graph_out_total [OF assms] by blast
  obtain ks ros where k: "keyholders query r = Inr (ks, ros)" using keyholders_total [OF assms] by blast
  obtain smp where s: "fst (sampled_versions query (reached_package_list (coexistence r)) \<lparr>x_reads = 0, x_attrs = []\<rparr>) = Inr smp"
    using sampled_versions_total [OF assms] by blast
  show ?thesis
    using srcs r k s by (cases "srcs = []") (auto simp: audit_def Let_def split: prod.splits)
qed

text \<open>
  C12: The audit fails only when the database does: if every statement is answered with single-hop paths, however
  many, the audit of any lockfile returns, having searched exactly when some pin is in the graph.
\<close>

theorem audit_returns:
  assumes "answering query"
  shows "\<exists>a srcs. audit query years w now project format pins opts = Inr a \<and> known_versions query pins = Inr srcs
    \<and> a_pins a = length pins \<and> a_sources a = length srcs \<and> (a_reach a = None \<longleftrightarrow> srcs = [])"
  using audit_total [OF assms] by blast

abbreviation chatty :: query_fun where
  "chatty \<equiv> (\<lambda>_. Inr (List.map hop_record [(urn_props ''pkg:npm/a@1'', urn_props ''pkg:npm/b@1'', window_props 5 9)]))"

lemma chatty_answers: "answering chatty"
  unfolding answering_def by blast

lemma pin_a: "npm_urn ''pkg:npm/a@1''"
  by (simp add: npm_urn_def npm_package_urn_def npm_name_def plain_name_def scope_char_def version_char_def is_digit_iff less_eq_char_def)

lemma chatty_known: "known_versions chatty [(''a'', ''1'')] = Inr [\<lparr>eurn = ''pkg:npm/a@1'', espan = always\<rparr>]"
proof -
  have "wanted_urns [(''a'', ''1'')] = [''pkg:npm/a@1'']"
    using pin_a by (simp add: wanted_urns_def version_urn_def)
  then show ?thesis
    by (simp add: known_versions_def known_loop.simps [of _ "[_]"] source_chunk_def Let_def note_version_def
        hop_record_def string_prop_def int_prop_def getd_def as_str_def as_int_def del: known_loop.simps)
       (simp add: known_loop.simps)
qed

theorem audit_returns_witness:
  "\<exists>a. audit chatty (\<lambda>_. []) default_weights 0 ''p'' ''npm'' [(''a'', ''1'')] \<lparr>owithin = iv 0 0, max_depth = 3\<rparr> = Inr a
     \<and> a_sources a = 1 \<and> a_reach a \<noteq> None"
  using audit_returns [OF chatty_answers, of "\<lambda>_. []" default_weights 0 "''p''" "''npm''" "[(''a'', ''1'')]"
      "\<lparr>owithin = iv 0 0, max_depth = 3\<rparr>"]
  unfolding chatty_known by auto

theorem audit_ranks_the_roster_witness:
  "\<exists>a ks ros r. audit chatty (\<lambda>_. []) default_weights 0 ''p'' ''npm'' [(''a'', ''1'')] \<lparr>owithin = iv 0 0, max_depth = 3\<rparr> = Inr a
     \<and> a_reach a = Some r \<and> keyholders chatty r = Inr (ks, ros) \<and> mset (a_keyholders a) = mset ks"
proof -
  obtain a srcs where a: "audit chatty (\<lambda>_. []) default_weights 0 ''p'' ''npm'' [(''a'', ''1'')] \<lparr>owithin = iv 0 0, max_depth = 3\<rparr> = Inr a"
    "known_versions chatty [(''a'', ''1'')] = Inr srcs" "a_reach a = None \<longleftrightarrow> srcs = []"
    using audit_total [OF chatty_answers, of "\<lambda>_. []" default_weights 0 "''p''" "''npm''" "[(''a'', ''1'')]"
      "\<lparr>owithin = iv 0 0, max_depth = 3\<rparr>"] by (elim exE conjE) (rule that)
  then obtain r where "a_reach a = Some r" unfolding chatty_known by auto
  then show ?thesis using audit_ranks_the_roster [OF a(1)] a(1) by auto
qed

end
