(* ===== verification/Checkpoint.thy ===== *)
theory Checkpoint
  imports GoText
begin

text \<open>
  The record of committed work: \<open>internal/checkpoint/checkpoint.go\<close>, and the loop of both writers that
  relies on it. Appending to a file is the interface \<open>append_file\<close>; writing a batch is the interface
  \<open>flusher\<close>, in which it is proved once that a name is recorded only after its rows are in the graph.
  Both interfaces are interpreted, the first on a file in memory here, the second by the writers.
\<close>

abbreviation newline :: char where
  "newline \<equiv> CHR 0x0A"

record 'f checkpoint =
  cp_file :: 'f
  cp_done :: "string list"

subsection \<open>Reading\<close>

text \<open>
  \<open>bufio.Scanner\<close> with \<open>ScanLines\<close>: lines end at a newline, a carriage return before it is dropped, a last
  line needs no newline. A line that fills the buffer of one mebibyte is \<open>bufio.ErrTooLong\<close>.
\<close>

definition drop_cr :: "string \<Rightarrow> string" where
  "drop_cr l = (if l \<noteq> [] \<and> last l = CHR 0x0D then butlast l else l)"

definition raw_lines :: "string \<Rightarrow> string list" where
  "raw_lines s = (let ps = split_str s [newline] in if last ps = [] then butlast ps else ps)"

definition scan_limit :: nat where
  "scan_limit = 1024 * 1024"

definition err_too_long :: err where
  "err_too_long = Sentinel ''bufio.Scanner: token too long''"

definition scan_lines :: "string \<Rightarrow> string list res" where
  "scan_lines s = (if list_ex (\<lambda>l. length l \<ge> scan_limit) (raw_lines s) then Inl err_too_long
     else Inr (List.map drop_cr (raw_lines s)))"

text \<open>
  \<open>Open\<close>. What the file system answers are arguments: making the directory, the text of the existing file
  (\<open>Inr None\<close> when there is none), and opening the file for appending.
\<close>

definition open_checkpoint :: "string \<Rightarrow> err option \<Rightarrow> string option res \<Rightarrow> 'f res \<Rightarrow> 'f checkpoint res" where
  "open_checkpoint path mkdir existing append_to =
     (case mkdir of
        Some e \<Rightarrow> Inl (Wrap ''create checkpoint dir'' e)
      | None \<Rightarrow>
          (case (case existing of
              Inl e \<Rightarrow> Inl (Wrap (''open checkpoint '' @ path) e)
            | Inr None \<Rightarrow> Inr []
            | Inr (Some text) \<Rightarrow>
                (case scan_lines text of
                   Inl e \<Rightarrow> Inl (Wrap (''read checkpoint '' @ path) e)
                 | Inr ls \<Rightarrow> Inr (collect (List.filter (\<lambda>l. l \<noteq> []) ls)))) of
             Inl e \<Rightarrow> Inl e
           | Inr finished \<Rightarrow>
               (case append_to of
                  Inl e \<Rightarrow> Inl (Wrap (''open checkpoint '' @ path @ '' for append'') e)
                | Inr f \<Rightarrow> Inr \<lparr>cp_file = f, cp_done = finished\<rparr>)))"

definition cp_has :: "'f checkpoint \<Rightarrow> string \<Rightarrow> bool" where
  "cp_has cp name \<longleftrightarrow> name \<in> set (cp_done cp)"

definition cp_count :: "'f checkpoint \<Rightarrow> nat" where
  "cp_count cp = length (cp_done cp)"

subsection \<open>Recording\<close>

type_synonym 'f printer = "string \<Rightarrow> 'f \<Rightarrow> err option \<times> 'f"
type_synonym 'f syncer = "'f \<Rightarrow> err option \<times> 'f"

fun record_loop :: "'f printer \<Rightarrow> string list \<Rightarrow> 'f checkpoint \<Rightarrow> err option \<times> 'f checkpoint" where
  "record_loop println [] cp = (None, cp)"
| "record_loop println (n # ns) cp =
     (case println (n @ [newline]) (cp_file cp) of
        (Some e, f) \<Rightarrow> (Some (Wrap ''write checkpoint'' e), cp\<lparr>cp_file := f\<rparr>)
      | (None, f) \<Rightarrow> record_loop println ns \<lparr>cp_file = f, cp_done = set_add n (cp_done cp)\<rparr>)"

definition record_names :: "'f printer \<Rightarrow> 'f syncer \<Rightarrow> string list \<Rightarrow> 'f checkpoint \<Rightarrow> err option \<times> 'f checkpoint" where
  "record_names println sync names cp =
     (case record_loop println names cp of
        (Some e, cp') \<Rightarrow> (Some e, cp')
      | (None, cp') \<Rightarrow> (let (e, f) = sync (cp_file cp') in (e, cp'\<lparr>cp_file := f\<rparr>)))"

text \<open>A file opened for appending: a failed write may leave any part of the line.\<close>

locale append_file =
  fixes println :: "'f printer" and sync :: "'f syncer" and contents :: "'f \<Rightarrow> string"
  assumes printed: "println l f = (None, f') \<Longrightarrow> contents f' = contents f @ l"
    and torn: "println l f = (Some e, f') \<Longrightarrow> \<exists>n. contents f' = contents f @ take n l"
    and synced: "sync f = (r, f') \<Longrightarrow> contents f' = contents f"
begin

lemma record_loop_contents:
  assumes "record_loop println ns cp = (r, cp')"
  shows "\<exists>k n. k \<le> length ns \<and> set (cp_done cp') = set (cp_done cp) \<union> set (take k ns)
    \<and> contents (cp_file cp') = contents (cp_file cp) @ concat (List.map (\<lambda>l. l @ [newline]) (take k ns))
        @ (if r = None then [] else take n (ns ! k @ [newline]))
    \<and> (if r = None then k = length ns else k < length ns)"
  using assms
proof (induction ns arbitrary: cp)
  case Nil
  then show ?case by auto
next
  case (Cons m ns)
  obtain r1 f1 where one: "println (m @ [newline]) (cp_file cp) = (r1, f1)" by fastforce
  show ?case
  proof (cases r1)
    case None
    let ?cp = "\<lparr>cp_file = f1, cp_done = set_add m (cp_done cp)\<rparr>"
    have "record_loop println ns ?cp = (r, cp')" using Cons.prems one None by simp
    from Cons.IH [OF this] obtain k n where k: "k \<le> length ns" "set (cp_done cp') = set (cp_done ?cp) \<union> set (take k ns)"
      "contents (cp_file cp') = contents f1 @ concat (List.map (\<lambda>l. l @ [newline]) (take k ns))
        @ (if r = None then [] else take n (ns ! k @ [newline]))" "if r = None then k = length ns else k < length ns" by auto
    then show ?thesis
      using printed one None by (intro exI [of _ "Suc k"] exI [of _ n]) auto
  next
    case (Some e)
    then obtain n where "contents f1 = contents (cp_file cp) @ take n (m @ [newline])" using torn one by blast
    then show ?thesis using Cons.prems one Some by (intro exI [of _ 0] exI [of _ n]) auto
  qed
qed

lemma record_names_contents:
  assumes "record_names println sync ns cp = (r, cp')"
  shows "\<exists>k n. k \<le> length ns \<and> set (cp_done cp') = set (cp_done cp) \<union> set (take k ns)
    \<and> contents (cp_file cp') = contents (cp_file cp) @ concat (List.map (\<lambda>l. l @ [newline]) (take k ns))
        @ (if k = length ns then [] else take n (ns ! k @ [newline]))
    \<and> (r = None \<longrightarrow> k = length ns)"
proof -
  obtain r1 cp1 where one: "record_loop println ns cp = (r1, cp1)" by fastforce
  from record_loop_contents [OF one] obtain k n where k: "k \<le> length ns" "set (cp_done cp1) = set (cp_done cp) \<union> set (take k ns)"
    "contents (cp_file cp1) = contents (cp_file cp) @ concat (List.map (\<lambda>l. l @ [newline]) (take k ns))
        @ (if r1 = None then [] else take n (ns ! k @ [newline]))" "if r1 = None then k = length ns else k < length ns" by blast
  show ?thesis
  proof (cases r1)
    case None
    obtain r2 f2 where "sync (cp_file cp1) = (r2, f2)" by fastforce
    then have "cp' = cp1\<lparr>cp_file := f2\<rparr>" "contents f2 = contents (cp_file cp1)"
      using assms one None synced by (auto simp: record_names_def)
    then show ?thesis using k None by (intro exI [of _ k] exI [of _ n]) simp
  next
    case (Some e)
    then have "cp' = cp1" "r \<noteq> None" using assms one by (auto simp: record_names_def)
    then show ?thesis using k Some by (intro exI [of _ k] exI [of _ n]) auto
  qed
qed

end

text \<open>A file in memory with a script of the failures to come and how much of the line each leaves.\<close>

record mem_file =
  mf_script :: "(err \<times> nat) option list"
  mf_text :: string

definition mem_println :: "mem_file printer" where
  "mem_println l f =
     (case mf_script f of
        Some (e, n) # rest \<Rightarrow> (Some e, f\<lparr>mf_script := rest, mf_text := mf_text f @ take n l\<rparr>)
      | sc \<Rightarrow> (None, f\<lparr>mf_script := tl sc, mf_text := mf_text f @ l\<rparr>))"

definition mem_sync :: "mem_file syncer" where
  "mem_sync f = (None, f)"

interpretation memfile: append_file mem_println mem_sync mf_text
proof
  show "mf_text f' = mf_text f @ l" if "mem_println l f = (None, f')" for l f f'
    using that by (auto simp: mem_println_def split: list.splits option.splits prod.splits)
  show "\<exists>n. mf_text f' = mf_text f @ take n l" if "mem_println l f = (Some e, f')" for l f e f'
    using that by (auto simp: mem_println_def split: list.splits option.splits prod.splits)
  show "mf_text f' = mf_text f" if "mem_sync f = (r, f')" for f r f'
    using that by (simp add: mem_sync_def)
qed

subsection \<open>What a reopened checkpoint holds\<close>

text \<open>A name that is one line: not empty, no newline, no carriage return at its end, shorter than the limit.\<close>

definition line_name :: "string \<Rightarrow> bool" where
  "line_name n \<longleftrightarrow> n \<noteq> [] \<and> newline \<notin> set n \<and> last n \<noteq> CHR 0x0D \<and> length n < scan_limit"

lemma split_acc_lines:
  "newline \<notin> set acc \<Longrightarrow> split_acc [newline] acc (a @ newline # b) = split_acc [newline] acc a @ split_acc [newline] [] b"
  by (induction a arbitrary: acc) auto

lemma split_lines:
  assumes "\<And>n. n \<in> set ns \<Longrightarrow> newline \<notin> set n"
  shows "split_str (concat (List.map (\<lambda>l. l @ [newline]) ns) @ s) [newline] = ns @ split_str s [newline]"
  using assms
proof (induction ns)
  case (Cons n ns)
  have "split_acc [newline] [] (n @ newline # t) = n # split_acc [newline] [] t" for t
    using split_acc_byte_free [of newline n "[]" "newline # t"] Cons.prems by simp
  then show ?case using Cons by (simp add: split_str_def)
qed simp

lemma raw_lines_append:
  assumes "text = [] \<or> last text = newline"
    and "\<And>n. n \<in> set ns \<Longrightarrow> newline \<notin> set n"
  shows "raw_lines (text @ concat (List.map (\<lambda>l. l @ [newline]) ns)) = raw_lines text @ ns"
proof (cases "text = []")
  case True
  then show ?thesis using split_lines [of ns "[]", OF assms(2)] by (simp add: raw_lines_def split_str_def)
next
  case False
  then have t: "text = butlast text @ [newline]" using assms(1) by (metis append_butlast_last_id)
  have *: "split_str (butlast text @ newline # s) [newline] = split_str (butlast text) [newline] @ split_str s [newline]" for s
    by (simp add: split_str_def split_acc_lines)
  have "split_str (text @ concat (List.map (\<lambda>l. l @ [newline]) ns)) [newline] = split_str (butlast text) [newline] @ ns @ [[]]"
    using split_lines [of ns "[]", OF assms(2)] * [of "concat (List.map (\<lambda>l. l @ [newline]) ns)"]
    by (subst t) (simp add: split_str_def [of "[]"])
  moreover have "split_str text [newline] = split_str (butlast text) [newline] @ [[]]"
    using * [of "[]"] by (subst t) (simp add: split_str_def [of "[]"])
  ultimately show ?thesis by (simp add: raw_lines_def butlast_append)
qed

lemma drop_cr_line: "line_name n \<Longrightarrow> drop_cr n = n"
  by (simp add: line_name_def drop_cr_def)

text \<open>
  C15: A run resumes where it stopped: after \<open>Record\<close> has returned without an error, opening the file again yields a
  checkpoint that has exactly the names it had and the names recorded, for names that are lines.
\<close>

theorem checkpoint_resumes:
  assumes "append_file println sync contents" "record_names println sync names cp = (None, cp')"
    and "contents (cp_file cp) = [] \<or> last (contents (cp_file cp)) = newline"
    and "open_checkpoint path mk (Inr (Some (contents (cp_file cp)))) app = Inr cp0"
    and "\<And>n. n \<in> set names \<Longrightarrow> line_name n"
  shows "\<exists>cp1. open_checkpoint path mk (Inr (Some (contents (cp_file cp')))) app = Inr cp1
    \<and> (\<forall>n. cp_has cp1 n \<longleftrightarrow> cp_has cp0 n \<or> n \<in> set names) \<and> (\<forall>n \<in> set names. cp_has cp' n)"
proof -
  let ?t = "contents (cp_file cp)" and ?new = "concat (List.map (\<lambda>l. l @ [newline]) names)"
  have t': "contents (cp_file cp') = ?t @ ?new" and has: "set (cp_done cp') = set (cp_done cp) \<union> set names"
    using append_file.record_names_contents [OF assms(1,2)] by auto
  have nl: "newline \<notin> set n" if "n \<in> set names" for n using assms(5) [OF that] by (simp add: line_name_def)
  note L = raw_lines_append [OF assms(3) nl]
  obtain ls f where ls: "scan_lines ?t = Inr ls" "mk = None" "app = Inr f" and cp0: "cp_done cp0 = collect (List.filter (\<lambda>l. l \<noteq> []) ls)"
    using assms(4) by (auto simp: open_checkpoint_def split: option.splits sum.splits)
  have "\<forall>n \<in> set names. length n < scan_limit" using assms(5) unfolding line_name_def by blast
  moreover have "List.map drop_cr names = names" by (rule map_idI) (rule drop_cr_line, rule assms(5))
  ultimately have "scan_lines (?t @ ?new) = Inr (ls @ names)"
    using ls(1) by (fastforce simp: scan_lines_def L list_ex_iff split: if_splits)
  then show ?thesis
    using ls(2,3) has assms(5) by (auto simp: open_checkpoint_def t' cp_has_def cp0 line_name_def)
qed

theorem checkpoint_resumes_witness:
  "\<exists>cp1. open_checkpoint ''f'' None (Inr (Some (''a'' @ [newline] @ ''left-pad'' @ [newline]))) (Inr ()) = Inr cp1
     \<and> cp_has cp1 ''left-pad''"
proof -
  let ?f = "\<lparr>mf_script = [], mf_text = ''a'' @ [newline]\<rparr>"
  let ?cp = "\<lparr>cp_file = ?f, cp_done = [''a'']\<rparr>"
  have r: "record_names mem_println mem_sync [''left-pad''] ?cp =
      (None, \<lparr>cp_file = \<lparr>mf_script = [], mf_text = ''a'' @ [newline] @ ''left-pad'' @ [newline]\<rparr>, cp_done = [''a'', ''left-pad'']\<rparr>)"
    by (simp add: record_names_def mem_println_def mem_sync_def set_add_def)
  have o: "open_checkpoint ''f'' None (Inr (Some (mf_text (cp_file ?cp)))) (Inr ()) = Inr \<lparr>cp_file = (), cp_done = [''a'']\<rparr>"
    by (simp add: open_checkpoint_def scan_lines_def raw_lines_def split_str_def scan_limit_def drop_cr_def collect_def set_add_def)
  show ?thesis
    using checkpoint_resumes [OF memfile.append_file_axioms r _ o] by (auto simp: line_name_def scan_limit_def)
qed

text \<open>
  A line cut short is read as a name of its own: when the write of \<open>react-dom\<close> stops after five bytes, \<open>Record\<close>
  reports the failure and marks nothing, but the reopened checkpoint claims that \<open>react\<close> was finished.
\<close>

theorem torn_line_claims_another:
  "\<exists>e cp' cp1. record_names mem_println mem_sync [''react-dom'']
        \<lparr>cp_file = \<lparr>mf_script = [Some (Msg ''no space left on device'', 5)], mf_text = []\<rparr>, cp_done = []\<rparr> = (Some e, cp')
     \<and> cp_done cp' = []
     \<and> open_checkpoint ''f'' None (Inr (Some (mf_text (cp_file cp')))) (Inr (cp_file cp')) = Inr cp1
     \<and> cp_has cp1 ''react'' \<and> \<not> cp_has cp1 ''react-dom''"
  by (simp add: record_names_def mem_println_def open_checkpoint_def scan_lines_def raw_lines_def split_str_def
      scan_limit_def drop_cr_def collect_def set_add_def cp_has_def)

subsection \<open>The loop of a single writer\<close>

text \<open>
  The part \<open>writeLoop\<close> of the ingest and of the resolver have in common: results are added to a pending batch, a
  batch that has grown to \<open>flush_at\<close> rows is written, its names are recorded, and the rest is flushed at
  the end. The writers supply how a result is taken in, how large a batch is and how it is written; \<open>'w\<close>
  is the graph together with the run's counters.
\<close>

definition flush_at :: nat where
  "flush_at = 2048"

record ('p, 'w, 'f) writer =
  wr_pending :: 'p
  wr_names :: "string list"
  wr_world :: 'w
  wr_cp :: "'f checkpoint"

definition flush_batch :: "('p \<Rightarrow> 'w \<Rightarrow> err option \<times> 'w) \<Rightarrow> 'p \<Rightarrow> 'f printer \<Rightarrow> 'f syncer
    \<Rightarrow> ('p, 'w, 'f) writer \<Rightarrow> err option \<times> ('p, 'w, 'f) writer" where
  "flush_batch save none println sync st =
     (if wr_names st = [] then (None, st)
      else case save (wr_pending st) (wr_world st) of
          (Some e, w) \<Rightarrow> (Some e, st\<lparr>wr_world := w\<rparr>)
        | (None, w) \<Rightarrow>
            (case record_names println sync (wr_names st) (wr_cp st) of
               (Some e, cp) \<Rightarrow> (Some e, st\<lparr>wr_world := w, wr_cp := cp\<rparr>)
             | (None, cp) \<Rightarrow> (None, \<lparr>wr_pending = none, wr_names = [], wr_world = w, wr_cp = cp\<rparr>)))"

definition take_in :: "('r \<Rightarrow> string) \<Rightarrow> ('r \<Rightarrow> 'p \<Rightarrow> 'p) \<Rightarrow> ('r \<Rightarrow> 'w \<Rightarrow> 'w) \<Rightarrow> 'r \<Rightarrow> ('p, 'w, 'f) writer \<Rightarrow> ('p, 'w, 'f) writer" where
  "take_in name add note r st =
     st\<lparr>wr_pending := add r (wr_pending st), wr_names := wr_names st @ [name r], wr_world := note r (wr_world st)\<rparr>"

fun flush_loop :: "('r \<Rightarrow> string) \<Rightarrow> ('r \<Rightarrow> 'p \<Rightarrow> 'p) \<Rightarrow> ('r \<Rightarrow> 'w \<Rightarrow> 'w) \<Rightarrow> ('p \<Rightarrow> nat) \<Rightarrow> ('p \<Rightarrow> 'w \<Rightarrow> err option \<times> 'w) \<Rightarrow> 'p
    \<Rightarrow> 'f printer \<Rightarrow> 'f syncer \<Rightarrow> 'r list \<Rightarrow> ('p, 'w, 'f) writer \<Rightarrow> err option \<times> ('p, 'w, 'f) writer" where
  "flush_loop name add note rows_of save none println sync [] st = flush_batch save none println sync st"
| "flush_loop name add note rows_of save none println sync (r # rs) st =
     (let st1 = take_in name add note r st in
      if rows_of (wr_pending st1) \<ge> flush_at
      then (case flush_batch save none println sync st1 of
          (Some e, st2) \<Rightarrow> (Some e, st2)
        | (None, st2) \<Rightarrow> flush_loop name add note rows_of save none println sync rs st2)
      else flush_loop name add note rows_of save none println sync rs st1)"

text \<open>
  What a writer promises: \<open>covers\<close> says that the rows of a result are in a batch, \<open>durable\<close> that they are in
  the graph. Adding keeps what is covered, writing keeps what is durable, and a batch written without an
  error is durable.
\<close>

locale flusher =
  fixes name :: "'r \<Rightarrow> string" and add :: "'r \<Rightarrow> 'p \<Rightarrow> 'p" and note_result :: "'r \<Rightarrow> 'w \<Rightarrow> 'w" and rows_of :: "'p \<Rightarrow> nat"
    and save :: "'p \<Rightarrow> 'w \<Rightarrow> err option \<times> 'w" and none :: 'p
    and covers :: "'p \<Rightarrow> 'r \<Rightarrow> bool" and durable :: "'w \<Rightarrow> 'r \<Rightarrow> bool"
  assumes covers_add: "covers (add r p) r" "covers p r' \<Longrightarrow> covers (add r p) r'"
    and durable_note: "durable w r' \<Longrightarrow> durable (note_result r w) r'"
    and durable_write: "save p w = (e, w') \<Longrightarrow> durable w r' \<Longrightarrow> durable w' r'"
    and written: "save p w = (None, w') \<Longrightarrow> covers p r' \<Longrightarrow> durable w' r'"
begin

text \<open>Every pending name is a covered result's, every recorded one a durable result's.\<close>

definition kept :: "string set \<Rightarrow> 'r set \<Rightarrow> ('p, 'w, 'f) writer \<Rightarrow> bool" where
  "kept old R st \<longleftrightarrow> (\<forall>n \<in> set (wr_names st). \<exists>r \<in> R. name r = n \<and> covers (wr_pending st) r)
     \<and> (\<forall>n \<in> set (cp_done (wr_cp st)). n \<in> old \<or> (\<exists>r \<in> R. name r = n \<and> durable (wr_world st) r))"

lemma kept_take_in:
  assumes "kept old R st" shows "kept old (insert r R) (take_in name add note_result r st)"
  using assms covers_add durable_note unfolding kept_def take_in_def by (auto 4 4)

lemma kept_flush:
  assumes "kept old R st" "append_file println sync contents" "flush_batch save none println sync st = (e, st')"
  shows "kept old R st' \<and> (e = None \<longrightarrow> wr_names st' = [] \<and>
    set (cp_done (wr_cp st')) = set (cp_done (wr_cp st)) \<union> set (wr_names st))"
proof (cases "wr_names st = []")
  case True
  then show ?thesis using assms by (simp add: flush_batch_def)
next
  case False
  obtain e1 w where w: "save (wr_pending st) (wr_world st) = (e1, w)" by fastforce
  obtain e2 cp where cp: "record_names println sync (wr_names st) (wr_cp st) = (e2, cp)" by fastforce
  note mono = durable_write [OF w]
  obtain k where k: "set (cp_done cp) = set (cp_done (wr_cp st)) \<union> set (take k (wr_names st))" "e2 = None \<Longrightarrow> k = length (wr_names st)"
    using append_file.record_names_contents [OF assms(2) cp] by blast
  show ?thesis
  proof (cases e1)
    case (Some x)
    then have "st' = st\<lparr>wr_world := w\<rparr>" "e = Some x" using assms(3) False w by (auto simp: flush_batch_def)
    then show ?thesis using assms(1) mono unfolding kept_def by simp meson
  next
    case None
    have cov: "\<exists>r \<in> R. name r = n \<and> durable w r" if "n \<in> set (wr_names st)" for n
      using assms(1) that written w None unfolding kept_def by blast
    have fin: "n \<in> old \<or> (\<exists>r \<in> R. name r = n \<and> durable w r)" if "n \<in> set (cp_done cp)" for n
      using that k(1) cov mono assms(1) in_set_takeD [of n k "wr_names st"] unfolding kept_def by blast
    show ?thesis
    proof (cases e2)
      case (Some x)
      then have "st' = st\<lparr>wr_world := w, wr_cp := cp\<rparr>" "e = Some x"
        using assms(3) False w None cp by (auto simp: flush_batch_def)
      then show ?thesis using assms(1) fin unfolding kept_def by simp
    next
      case e2: None
      then have "st' = \<lparr>wr_pending = none, wr_names = [], wr_world = w, wr_cp = cp\<rparr>"
        using assms(3) False w None cp by (auto simp: flush_batch_def)
      then show ?thesis using fin k e2 unfolding kept_def by simp
    qed
  qed
qed

lemma flush_loop_kept:
  assumes "append_file println sync contents" "kept old R st"
    and "flush_loop name add note_result rows_of save none println sync rs st = (e, st')"
  shows "kept old (R \<union> set rs) st'
    \<and> (e = None \<longrightarrow> set (cp_done (wr_cp st')) = set (cp_done (wr_cp st)) \<union> set (wr_names st) \<union> name ` set rs)"
  using assms(2,3)
proof (induction rs arbitrary: R st)
  case Nil
  then show ?case using kept_flush [OF Nil(1) assms(1)] by auto
next
  case (Cons r rs)
  let ?st1 = "take_in name add note_result r st"
  have k1: "kept old (insert r R) ?st1" by (rule kept_take_in [OF Cons.prems(1)])
  have n1: "wr_names ?st1 = wr_names st @ [name r]" "wr_cp ?st1 = wr_cp st" by (simp_all add: take_in_def)
  show ?case
  proof (cases "rows_of (wr_pending ?st1) \<ge> flush_at")
    case False
    then have "flush_loop name add note_result rows_of save none println sync rs ?st1 = (e, st')"
      using Cons.prems(2) by (simp add: Let_def)
    from Cons.IH [OF k1 this] show ?thesis by (auto simp: n1)
  next
    case True
    obtain e2 st2 where f: "flush_batch save none println sync ?st1 = (e2, st2)" by fastforce
    note F = kept_flush [OF k1 assms(1) f]
    show ?thesis
    proof (cases e2)
      case None
      then have "flush_loop name add note_result rows_of save none println sync rs st2 = (e, st')"
        using Cons.prems(2) True f by (simp add: Let_def)
      from Cons.IH [OF conjunct1 [OF F] this] show ?thesis using F None by (auto simp: n1)
    next
      case (Some x)
      then have "e = Some x" "st' = st2" using Cons.prems(2) True f by (auto simp: Let_def)
      then show ?thesis using F unfolding kept_def by auto
    qed
  qed
qed

end

end
