(* ===== verification/Resolve.thy ===== *)
theory Resolve
  imports Checkpoint Windows GraphDb Identity
begin

text \<open>
  Materialising resolutions: \<open>internal/resolve/resolve.go\<close>. A target package's timeline and the declarations
  pointing at it are read from the graph, every declaration becomes the windows of its range, and the
  windows are written as \<open>RESOLVES_TO\<close> edges by the loop of theory Checkpoint. The readers run
  concurrently in the code: the writer sees their results in some order, here any list.
\<close>

definition npm_ecosystem :: string where
  "npm_ecosystem = ''npm''"

definition link_resolves_to :: string where
  "link_resolves_to = ''UNWIND $rows AS row MATCH (s:Version {id: row.src}), (d:Version {id: row.dst}) ''
     @ ''MERGE (s)-[r:RESOLVES_TO {id: row.id}]->(d) ''
     @ ''SET r.valid_from = row.valid_from, r.valid_to = row.valid_to, r.range = row.range''"

record resolve_options =
  ro_readers :: int
  ro_batch :: int

definition resolve_defaults :: "resolve_options \<Rightarrow> resolve_options" where
  "resolve_defaults opts =
     \<lparr>ro_readers = (if ro_readers opts \<le> 0 then 4 else ro_readers opts),
      ro_batch = (if ro_batch opts \<le> 0 then default_batch else ro_batch opts)\<rparr>"

text \<open>The counters; the elapsed time is left out.\<close>

record resolve_stats =
  rs_packages :: nat
  rs_skipped :: nat
  rs_declarations :: nat
  rs_edges :: nat
  rs_unsatisfied :: nat
  rs_unparseable :: nat
  rs_no_timeline :: nat

subsection \<open>Reading a target\<close>

text \<open>The node id of a package as the statements print it.\<close>

definition package_id :: "string \<Rightarrow> int" where
  "package_id name = node_id (package_urn npm_ecosystem name)"

definition timeline_stmt :: "string \<Rightarrow> string" where
  "timeline_stmt name = ''MATCH (p:Package {id: '' @ itoa (package_id name) @ ''})-[:HAS_VERSION]->(v:Version) ''
     @ ''RETURN v.version AS version, v.published_at AS published''"

definition timeline_release :: "grecord \<Rightarrow> release option" where
  "timeline_release rec =
     (case column rec ''version'' of
        PStr v \<Rightarrow> Some \<lparr>rversion = v, published_at = as_int (column rec ''published'')\<rparr>
      | _ \<Rightarrow> None)"

definition timeline :: "query_fun \<Rightarrow> string \<Rightarrow> release list res" where
  "timeline query name =
     (case query (timeline_stmt name) of
        Inl e \<Rightarrow> Inl (Wrap (''timeline of '' @ name) e)
      | Inr recs \<Rightarrow> Inr (List.map_filter timeline_release recs))"

record declared =
  d_version_urn :: string
  d_range_text :: string
  d_published_at :: int

definition dependents_stmt :: "string \<Rightarrow> string" where
  "dependents_stmt name = ''MATCH (v:Version)-[e:DEPENDS_ON]->(p:Package {id: '' @ itoa (package_id name) @ ''}) ''
     @ ''RETURN v.urn AS urn, v.published_at AS published, e.range AS range''"

definition dependent_of :: "grecord \<Rightarrow> declared option" where
  "dependent_of rec =
     (case column rec ''urn'' of
        PStr u \<Rightarrow> Some \<lparr>d_version_urn = u, d_range_text = as_str (column rec ''range''),
          d_published_at = as_int (column rec ''published'')\<rparr>
      | _ \<Rightarrow> None)"

definition dependents :: "query_fun \<Rightarrow> string \<Rightarrow> declared list res" where
  "dependents query name =
     (case query (dependents_stmt name) of
        Inl e \<Rightarrow> Inl (Wrap (''dependents of '' @ name) e)
      | Inr recs \<Rightarrow> Inr (List.map_filter dependent_of recs))"

subsection \<open>Resolving a target\<close>

record target_rows =
  tr_name :: string
  tr_rows :: "row list"

definition resolution_row :: "string \<Rightarrow> declared \<Rightarrow> window \<Rightarrow> row" where
  "resolution_row name d w =
     (let target = version_urn npm_ecosystem name (wversion w) in
      [(''id'', PInt (edge_id (d_version_urn d) ''RESOLVES_TO'' target [])),
       (''src'', PInt (node_id (d_version_urn d))),
       (''dst'', PInt (node_id target)),
       (''valid_from'', PInt (wfrom w)),
       (''valid_to'', PInt (wto w)),
       (''range'', PStr (d_range_text d))])"

text \<open>The loop over the declarations: the rows so far, the unsatisfied and the unparseable.\<close>

definition resolve_declaration :: "string \<Rightarrow> release list \<Rightarrow> row list \<times> nat \<times> nat \<Rightarrow> declared \<Rightarrow> row list \<times> nat \<times> nat" where
  "resolve_declaration name releases acc d =
     (let (rows, unsatisfied, unparseable) = acc in
      case parse_range (d_range_text d) of
        Inl e \<Rightarrow> (rows, unsatisfied, unparseable + 1)
      | Inr rng \<Rightarrow>
          let ws = windows releases rng (d_published_at d) in
          if ws = [] then (rows, unsatisfied + 1, unparseable)
          else (rows @ List.map (resolution_row name d) ws, unsatisfied, unparseable))"

definition resolve_target :: "query_fun \<Rightarrow> string \<Rightarrow> resolve_stats \<Rightarrow> (target_rows \<times> resolve_stats) res" where
  "resolve_target query name stats =
     (case timeline query name of
        Inl e \<Rightarrow> Inl e
      | Inr releases \<Rightarrow>
          (case dependents query name of
             Inl e \<Rightarrow> Inl e
           | Inr ds \<Rightarrow>
               if releases = []
               then Inr (\<lparr>tr_name = name, tr_rows = []\<rparr>,
                 stats\<lparr>rs_declarations := rs_declarations stats + length ds, rs_no_timeline := rs_no_timeline stats + length ds\<rparr>)
               else let (rows, unsatisfied, unparseable) = foldl (resolve_declaration name releases) ([], 0, 0) ds in
                 Inr (\<lparr>tr_name = name, tr_rows = rows\<rparr>,
                   stats\<lparr>rs_declarations := rs_declarations stats + length ds,
                     rs_unsatisfied := rs_unsatisfied stats + unsatisfied,
                     rs_unparseable := rs_unparseable stats + unparseable\<rparr>)))"

subsection \<open>Writing\<close>

definition write_resolutions :: "'w runner \<Rightarrow> (err \<Rightarrow> bool) \<Rightarrow> ('w \<Rightarrow> err option) \<Rightarrow> int \<Rightarrow> row list
    \<Rightarrow> 'w \<times> resolve_stats \<Rightarrow> err option \<times> 'w \<times> resolve_stats" where
  "write_resolutions run transient ended batch pending ws =
     (let (w, stats) = ws in
      if pending = [] then (None, w, stats)
      else case write_batch run transient ended link_resolves_to pending batch w of
          (_, Some e, w') \<Rightarrow> (Some (Wrap ''write resolves_to'' e), w', stats)
        | (_, None, w') \<Rightarrow> (None, w', stats\<lparr>rs_edges := rs_edges stats + length pending\<rparr>))"

definition add_target :: "target_rows \<Rightarrow> row list \<Rightarrow> row list" where
  "add_target tr pending = pending @ tr_rows tr"

definition count_package :: "target_rows \<Rightarrow> 'w \<times> resolve_stats \<Rightarrow> 'w \<times> resolve_stats" where
  "count_package tr ws = (fst ws, (snd ws)\<lparr>rs_packages := rs_packages (snd ws) + 1\<rparr>)"

definition resolve_write_loop :: "'w runner \<Rightarrow> (err \<Rightarrow> bool) \<Rightarrow> ('w \<Rightarrow> err option) \<Rightarrow> int \<Rightarrow> 'f printer \<Rightarrow> 'f syncer
    \<Rightarrow> target_rows list \<Rightarrow> (row list, 'w \<times> resolve_stats, 'f) writer \<Rightarrow> err option \<times> (row list, 'w \<times> resolve_stats, 'f) writer" where
  "resolve_write_loop run transient ended batch println sync =
     flush_loop tr_name add_target count_package length (write_resolutions run transient ended batch) [] println sync"

text \<open>
  \<open>Run\<close>: the names the checkpoint has are skipped and counted, the rest resolved, those that fail reported
  and dropped, the others written in the order in which they come in. \<open>arrive\<close> is that order.
\<close>

fun resolve_all :: "query_fun \<Rightarrow> string list \<Rightarrow> resolve_stats \<Rightarrow> target_rows list \<times> resolve_stats" where
  "resolve_all query [] stats = ([], stats)"
| "resolve_all query (n # ns) stats =
     (case resolve_target query n stats of
        Inl e \<Rightarrow> resolve_all query ns stats
      | Inr (tr, stats') \<Rightarrow> (let (trs, s) = resolve_all query ns stats' in (tr # trs, s)))"

definition resolve_run :: "query_fun \<Rightarrow> 'w runner \<Rightarrow> (err \<Rightarrow> bool) \<Rightarrow> ('w \<Rightarrow> err option) \<Rightarrow> 'f printer \<Rightarrow> 'f syncer
    \<Rightarrow> (target_rows list \<Rightarrow> target_rows list) \<Rightarrow> resolve_options \<Rightarrow> string list \<Rightarrow> 'f checkpoint res \<Rightarrow> 'w
    \<Rightarrow> err option \<times> resolve_stats \<times> ('w \<times> 'f checkpoint) option" where
  "resolve_run query run transient ended println sync arrive opts names opened w =
     (let zero = \<lparr>rs_packages = 0, rs_skipped = 0, rs_declarations = 0, rs_edges = 0, rs_unsatisfied = 0, rs_unparseable = 0, rs_no_timeline = 0\<rparr> in
      case opened of
        Inl e \<Rightarrow> (Some e, zero, None)
      | Inr cp \<Rightarrow>
          let stats = zero\<lparr>rs_skipped := length (List.filter (cp_has cp) names)\<rparr>;
              (trs, stats1) = resolve_all query (List.filter (\<lambda>n. \<not> cp_has cp n) names) stats;
              (e, st) = resolve_write_loop run transient ended (ro_batch (resolve_defaults opts)) println sync (arrive trs)
                \<lparr>wr_pending = [], wr_names = [], wr_world = (w, stats1), wr_cp = cp\<rparr>
          in (e, snd (wr_world st), Some (fst (wr_world st), wr_cp st)))"

subsection \<open>Crash safety\<close>

text \<open>The resolver's writes keep the promise of a writer: a batch covers what it holds, the graph what it merged.\<close>

definition resolutions_in :: "row list \<Rightarrow> target_rows \<Rightarrow> bool" where
  "resolutions_in pending tr \<longleftrightarrow> set (tr_rows tr) \<subseteq> set pending"

definition resolutions_merged :: "('w \<Rightarrow> (string \<times> row) set) \<Rightarrow> 'w \<times> resolve_stats \<Rightarrow> target_rows \<Rightarrow> bool" where
  "resolutions_merged rows_in ws tr \<longleftrightarrow> {link_resolves_to} \<times> set (tr_rows tr) \<subseteq> rows_in (fst ws)"

context merge_store
begin

lemma write_resolutions_rows:
  assumes "write_resolutions run transient ended batch pending ws = (e, ws')"
  shows "rows_in (fst ws) \<subseteq> rows_in (fst ws')
    \<and> (e = None \<longrightarrow> rows_in (fst ws') = rows_in (fst ws) \<union> {link_resolves_to} \<times> set pending)"
proof (cases "pending = []")
  case True
  then show ?thesis using assms by (auto simp: write_resolutions_def split: prod.splits)
next
  case False
  obtain n r w where b: "write_batch run transient ended link_resolves_to pending batch (fst ws) = (n, r, w)" by (metis prod_cases3)
  note B = write_batch_rows [OF b]
  have "fst ws' = w \<and> (e = None \<longleftrightarrow> r = None)"
    using assms False b by (auto simp: write_resolutions_def split: prod.splits option.splits)
  then show ?thesis using B by auto
qed

end

sublocale merge_store \<subseteq> resolving: flusher tr_name add_target count_package length
    "write_resolutions run transient ended batch" "[]" resolutions_in "resolutions_merged rows_in"
  for transient ended batch
proof
  show "resolutions_in (add_target r p) r" "resolutions_in p r' \<Longrightarrow> resolutions_in (add_target r p) r'" for p r r'
    by (auto simp: resolutions_in_def add_target_def)
  show "resolutions_merged rows_in w r' \<Longrightarrow> resolutions_merged rows_in (count_package r w) r'" for w :: "'w \<times> resolve_stats" and r r'
    by (simp add: resolutions_merged_def count_package_def)
  show "resolutions_merged rows_in w' r'"
    if "write_resolutions run transient ended batch p w = (e, w')" "resolutions_merged rows_in w r'" for p w e w' r'
    using write_resolutions_rows [OF that(1)] that(2) by (auto simp: resolutions_merged_def)
  show "resolutions_merged rows_in w' r'"
    if "write_resolutions run transient ended batch p w = (None, w')" "resolutions_in p r'" for p w w' r'
    using write_resolutions_rows [OF that(1)] that(2) by (auto simp: resolutions_merged_def resolutions_in_def)
qed

context merge_store
begin

lemma resolver_kept:
  assumes "append_file println sync contents"
    and "resolve_write_loop run transient ended batch println sync trs
      \<lparr>wr_pending = [], wr_names = [], wr_world = (w, stats), wr_cp = cp\<rparr> = (e, st)"
  shows "(\<forall>n \<in> set (cp_done (wr_cp st)) - set (cp_done cp).
      \<exists>tr \<in> set trs. tr_name tr = n \<and> {link_resolves_to} \<times> set (tr_rows tr) \<subseteq> rows_in (fst (wr_world st)))
    \<and> (e = None \<longrightarrow> set (cp_done (wr_cp st)) = set (cp_done cp) \<union> tr_name ` set trs)"
proof -
  have "resolving.kept (set (cp_done cp)) {} \<lparr>wr_pending = [], wr_names = [], wr_world = (w, stats), wr_cp = cp\<rparr>"
    by (simp add: resolving.kept_def)
  from resolving.flush_loop_kept [OF assms(1) this assms(2) [unfolded resolve_write_loop_def]]
  show ?thesis unfolding resolving.kept_def resolutions_merged_def by auto
qed

end

text \<open>
  C6: The checkpoint never claims work that was not done: wherever the resolver's loop stops, at its end, at a
  failed write or at a failed record, every name the checkpoint has gained is that of a target all of whose
  rows are in the graph; and a loop that reports no error has recorded every target.
\<close>

theorem resolver_records_what_it_wrote:
  assumes "merge_store run rows_in" "append_file println sync contents"
    and "resolve_write_loop run transient ended batch println sync trs
      \<lparr>wr_pending = [], wr_names = [], wr_world = (w, stats), wr_cp = cp\<rparr> = (e, st)"
  shows "(\<forall>n \<in> set (cp_done (wr_cp st)) - set (cp_done cp).
      \<exists>tr \<in> set trs. tr_name tr = n \<and> {link_resolves_to} \<times> set (tr_rows tr) \<subseteq> rows_in (fst (wr_world st)))
    \<and> (e = None \<longrightarrow> set (cp_done (wr_cp st)) = set (cp_done cp) \<union> tr_name ` set trs)"
  by (rule merge_store.resolver_kept [OF assms])

text \<open>A write that fails for good leaves the name unrecorded: one target whose only row is refused.\<close>

theorem resolver_records_what_it_wrote_witness:
  "let row = [(''id'', PInt 1)];
       st = snd (resolve_write_loop mem_run (\<lambda>_. False) (\<lambda>_. None) 256 mem_println mem_sync [\<lparr>tr_name = ''a'', tr_rows = [row]\<rparr>]
         \<lparr>wr_pending = [], wr_names = [],
          wr_world = (\<lparr>mem_script = [], mem_rows = []\<rparr>, \<lparr>rs_packages = 0, rs_skipped = 0, rs_declarations = 0, rs_edges = 0,
             rs_unsatisfied = 0, rs_unparseable = 0, rs_no_timeline = 0\<rparr>),
          wr_cp = \<lparr>cp_file = \<lparr>mf_script = [], mf_text = []\<rparr>, cp_done = []\<rparr>\<rparr>)
   in cp_done (wr_cp st) = [''a''] \<and> (link_resolves_to, row) \<in> set (mem_rows (fst (wr_world st)))"
proof -
  let ?row = "[(''id'', PInt 1)] :: row"
  let ?w = "\<lparr>mem_script = [], mem_rows = []\<rparr>" and ?s = "\<lparr>rs_packages = 0, rs_skipped = 0, rs_declarations = 0, rs_edges = 0,
             rs_unsatisfied = 0, rs_unparseable = 0, rs_no_timeline = 0\<rparr>"
  let ?cp = "\<lparr>cp_file = \<lparr>mf_script = [], mf_text = []\<rparr>, cp_done = []\<rparr>"
  let ?tr = "\<lparr>tr_name = ''a'', tr_rows = [?row]\<rparr>"
  obtain e st where st: "resolve_write_loop mem_run (\<lambda>_. False) (\<lambda>_. None) 256 mem_println mem_sync [?tr]
      \<lparr>wr_pending = [], wr_names = [], wr_world = (?w, ?s), wr_cp = ?cp\<rparr> = (e, st)" by fastforce
  moreover have d: "cp_done (wr_cp st) = [''a'']"
    using st by (auto simp: resolve_write_loop_def take_in_def add_target_def count_package_def flush_at_def flush_batch_def
      write_resolutions_def write_batch_def max_batch_def write_chunks.simps run_chunk_def numeral_3_eq_3 mem_run_def
      record_names_def mem_println_def mem_sync_def set_add_def)
  ultimately show ?thesis
    using resolver_records_what_it_wrote [OF mem.merge_store_axioms memfile.append_file_axioms st] by (simp add: Let_def)
qed

subsection \<open>What a target resolves to\<close>

text \<open>The rows of one declaration; none when the range does not parse.\<close>

definition declared_rows :: "string \<Rightarrow> release list \<Rightarrow> declared \<Rightarrow> row list" where
  "declared_rows name releases d =
     (case parse_range (d_range_text d) of Inl e \<Rightarrow> []
      | Inr rng \<Rightarrow> List.map (resolution_row name d) (windows releases rng (d_published_at d)))"

abbreviation unparseable :: "declared \<Rightarrow> bool" where
  "unparseable d \<equiv> (\<exists>e. parse_range (d_range_text d) = Inl e)"

lemma resolve_declarations:
  "foldl (resolve_declaration name releases) (rows, u, p) ds =
     (rows @ concat (List.map (declared_rows name releases) ds),
      u + length (List.filter (\<lambda>d. \<not> unparseable d \<and> declared_rows name releases d = []) ds),
      p + length (List.filter unparseable ds))"
proof (induction ds arbitrary: rows u p)
  case (Cons d ds)
  show ?case
  proof (cases "parse_range (d_range_text d)")
    case (Inl e)
    then show ?thesis using Cons [of rows u "p + 1"] by (simp add: resolve_declaration_def declared_rows_def)
  next
    case (Inr rng)
    then show ?thesis
      using Cons [of rows "u + 1" p] Cons [of "rows @ List.map (resolution_row name d) (windows releases rng (d_published_at d))" u p]
      by (simp add: resolve_declaration_def declared_rows_def Let_def)
  qed
qed simp

text \<open>
  C4: Every declaration is answered by the windows of its range over the target's timeline: the rows written for a
  target are those of its declarations and no others, at every instant from the dependent's publish on there is
  one naming the highest version the range admits by then, if it admits any, and the counters account for
  every declaration: resolved, unsatisfied, unparseable, or facing an empty timeline.
\<close>

theorem target_rows_are_resolutions:
  assumes "resolve_target query name stats = Inr (tr, stats')"
    and "timeline query name = Inr releases" "dependents query name = Inr ds"
    and "sane_releases releases" "t < open_interval"
  shows "tr_name tr = name
    \<and> set (tr_rows tr) = (\<Union>d \<in> set ds. set (declared_rows name releases d))
    \<and> (\<forall>d \<in> set ds. \<forall>rng. parse_range (d_range_text d) = Inr rng \<longrightarrow> (d_published_at d > 0 \<longrightarrow> d_published_at d \<le> t)
        \<longrightarrow> admissible releases rng t \<noteq> {} \<longrightarrow>
        (\<exists>w v. resolution_row name d w \<in> set (tr_rows tr) \<and> in_window t w \<and> (wversion w, v) \<in> admissible releases rng t
           \<and> (\<forall>(raw, u) \<in> admissible releases rng t. compare u v \<le> 0)))
    \<and> rs_declarations stats' = rs_declarations stats + length ds
    \<and> rs_unsatisfied stats' + rs_unparseable stats' + rs_no_timeline stats'
        + length (List.filter (\<lambda>d. declared_rows name releases d \<noteq> []) ds)
      = rs_unsatisfied stats + rs_unparseable stats + rs_no_timeline stats + length ds"
proof -
  have rows: "tr_name tr = name" "set (tr_rows tr) = (\<Union>d \<in> set ds. set (declared_rows name releases d))"
    and dec: "rs_declarations stats' = rs_declarations stats + length ds"
    and count: "rs_unsatisfied stats' + rs_unparseable stats' + rs_no_timeline stats'
        + length (List.filter (\<lambda>d. declared_rows name releases d \<noteq> []) ds)
      = rs_unsatisfied stats + rs_unparseable stats + rs_no_timeline stats + length ds"
  proof -
    have empty: "declared_rows name [] d = []" for d by (simp add: declared_rows_def windows_def split: sum.split)
    have parts: "length (List.filter (\<lambda>d. \<not> unparseable d \<and> declared_rows name releases d = []) ds) + length (List.filter unparseable ds)
        + length (List.filter (\<lambda>d. declared_rows name releases d \<noteq> []) ds) = length ds"
      by (induction ds) (auto simp: declared_rows_def split: sum.splits)
    show "tr_name tr = name" "set (tr_rows tr) = (\<Union>d \<in> set ds. set (declared_rows name releases d))"
      "rs_declarations stats' = rs_declarations stats + length ds"
      using assms(1-3) empty
      by (auto simp: resolve_target_def resolve_declarations split: if_splits)
    show "rs_unsatisfied stats' + rs_unparseable stats' + rs_no_timeline stats'
        + length (List.filter (\<lambda>d. declared_rows name releases d \<noteq> []) ds)
      = rs_unsatisfied stats + rs_unparseable stats + rs_no_timeline stats + length ds"
      using assms(1-3) parts by (auto simp: resolve_target_def resolve_declarations empty split: if_splits)
  qed
  have "\<exists>w v. resolution_row name d w \<in> set (tr_rows tr) \<and> in_window t w \<and> (wversion w, v) \<in> admissible releases rng t
      \<and> (\<forall>(raw, u) \<in> admissible releases rng t. compare u v \<le> 0)"
    if d: "d \<in> set ds" "parse_range (d_range_text d) = Inr rng" "d_published_at d > 0 \<longrightarrow> d_published_at d \<le> t"
      "admissible releases rng t \<noteq> {}" for d rng
  proof -
    note W = windows_pick [OF assms(4,5) d(3), of rng]
    then obtain w where w: "w \<in> set (windows releases rng (d_published_at d))" "in_window t w" using d(4) by blast
    then have "resolution_row name d w \<in> set (declared_rows name releases d)" using d(2) by (simp add: declared_rows_def)
    then show ?thesis using W w d(1) rows(2) by blast
  qed
  then show ?thesis using rows dec count by blast
qed

abbreviation lodash_graph :: query_fun where
  "lodash_graph \<equiv> (\<lambda>stmt.
     if has_prefix ''MATCH (p'' stmt
     then Inr (List.map (\<lambda>rel. [(''version'', Scalar (PStr (rversion rel))), (''published'', Scalar (PInt (published_at rel)))]) timeline3)
     else Inr [[(''urn'', Scalar (PStr ''pkg:npm/app@2.0.0'')), (''published'', Scalar (PInt 150)), (''range'', Scalar (PStr []))]])"

abbreviation app_declaration :: declared where
  "app_declaration \<equiv> \<lparr>d_version_urn = ''pkg:npm/app@2.0.0'', d_range_text = [], d_published_at = 150\<rparr>"

lemma lodash_timeline: "timeline lodash_graph ''lodash'' = Inr timeline3"
  by (simp add: timeline_def timeline_stmt_def timeline_release_def column_def as_int_def)

lemma lodash_dependents: "dependents lodash_graph ''lodash'' = Inr [app_declaration]"
  by (simp add: dependents_def dependents_stmt_def dependent_of_def column_def as_int_def as_str_def)

lemma parse_range_Nil: "parse_range [] = Inr any_range"
  by (simp add: parse_range_def)

theorem target_rows_are_resolutions_witness:
  "\<exists>tr stats'. resolve_target lodash_graph ''lodash''
       \<lparr>rs_packages = 0, rs_skipped = 0, rs_declarations = 0, rs_edges = 0, rs_unsatisfied = 0, rs_unparseable = 0, rs_no_timeline = 0\<rparr>
       = Inr (tr, stats')
     \<and> set (tr_rows tr) = {resolution_row ''lodash'' app_declaration \<lparr>wversion = ''1.0.0'', wfrom = 150, wto = 200\<rparr>,
         resolution_row ''lodash'' app_declaration \<lparr>wversion = ''1.1.0'', wfrom = 200, wto = open_interval\<rparr>}
     \<and> rs_declarations stats' = 1"
proof -
  let ?z = "\<lparr>rs_packages = 0, rs_skipped = 0, rs_declarations = 0, rs_edges = 0, rs_unsatisfied = 0, rs_unparseable = 0, rs_no_timeline = 0\<rparr>"
  obtain tr stats' where r: "resolve_target lodash_graph ''lodash'' ?z = Inr (tr, stats')"
    by (cases "foldl (resolve_declaration ''lodash'' timeline3) ([], 0, 0) [app_declaration]")
      (simp add: resolve_target_def lodash_timeline lodash_dependents del: foldl.simps)
  have "set (declared_rows ''lodash'' timeline3 app_declaration) =
      {resolution_row ''lodash'' app_declaration \<lparr>wversion = ''1.0.0'', wfrom = 150, wto = 200\<rparr>,
       resolution_row ''lodash'' app_declaration \<lparr>wversion = ''1.1.0'', wfrom = 200, wto = open_interval\<rparr>}"
    by (simp add: declared_rows_def parse_range_Nil windows_timeline3)
  then show ?thesis
    using target_rows_are_resolutions [OF r lodash_timeline lodash_dependents sane_timeline3, of 350] r
    by (simp add: open_interval_def)
qed

end
