(* ===== verification/Registry.thy ===== *)
theory Registry
  imports GoText Interval
begin

text \<open>
  The registry clients: \<open>internal/registry\<close>. Decoding JSON, parsing a date and the HTTP exchange are
  parameters; the documents are records of what the decoder delivers. The response cache is a directory of
  files, the interface \<open>cache_files\<close>; the theorems are about the fetch loop and what the cache remembers.
\<close>

definition err_not_found :: err where
  "err_not_found = Sentinel ''not found''"

text \<open>A panic, where the code would dereference a nil pointer.\<close>

definition err_nil_pointer :: err where
  "err_nil_pointer = Sentinel ''invalid memory address or nil pointer dereference''"

subsection \<open>Timelines and closures of deps.dev\<close>

record reg_release =
  g_version :: string
  g_published :: gotime
  g_default :: bool
  g_deprecated :: bool

record json_version =
  jv_version :: string
  jv_published_at :: string
  jv_default :: bool
  jv_deprecated :: bool

fun timeline_versions :: "(string \<Rightarrow> gotime res) \<Rightarrow> string \<Rightarrow> json_version list \<Rightarrow> reg_release list res" where
  "timeline_versions parse_time name [] = Inr []"
| "timeline_versions parse_time name (v # vs) =
     (case (if jv_published_at v = [] then Inr zero_time
            else case parse_time (jv_published_at v) of
                Inl e \<Rightarrow> Inl (Wrap (''parse publishedAt '' @ jv_published_at v @ '' for '' @ name @ ''@'' @ jv_version v) e)
              | Inr t \<Rightarrow> Inr t) of
        Inl e \<Rightarrow> Inl e
      | Inr t \<Rightarrow>
          (case timeline_versions parse_time name vs of
             Inl e \<Rightarrow> Inl e
           | Inr rels \<Rightarrow> Inr (\<lparr>g_version = jv_version v, g_published = t, g_default = jv_default v, g_deprecated = jv_deprecated v\<rparr> # rels)))"

definition parse_timeline :: "(string \<Rightarrow> json_version list res) \<Rightarrow> (string \<Rightarrow> gotime res) \<Rightarrow> string \<Rightarrow> string \<Rightarrow> reg_release list res" where
  "parse_timeline decode parse_time name body =
     (case decode body of
        Inl e \<Rightarrow> Inl (Wrap (''parse deps.dev timeline for '' @ name) e)
      | Inr vs \<Rightarrow> timeline_versions parse_time name vs)"

record reg_dependency =
  rd_from_name :: string
  rd_from_version :: string
  rd_to_name :: string
  rd_to_version :: string
  rd_requirement :: string
  rd_direct :: bool

record json_node =
  jn_name :: string
  jn_version :: string
  jn_relation :: string

record json_edge =
  je_from :: int
  je_to :: int
  je_requirement :: string

fun dependency_edges :: "string \<Rightarrow> string \<Rightarrow> json_node list \<Rightarrow> json_edge list \<Rightarrow> reg_dependency list res" where
  "dependency_edges name version nodes [] = Inr []"
| "dependency_edges name version nodes (e # es) =
     (if je_from e < 0 \<or> je_from e \<ge> int (length nodes) \<or> je_to e < 0 \<or> je_to e \<ge> int (length nodes)
      then Inl (Msg (''deps.dev edge for '' @ name @ ''@'' @ version @ '' references node out of range''))
      else let from = nodes ! nat (je_from e); to = nodes ! nat (je_to e) in
        (case dependency_edges name version nodes es of
           Inl x \<Rightarrow> Inl x
         | Inr ds \<Rightarrow> Inr (\<lparr>rd_from_name = jn_name from, rd_from_version = jn_version from, rd_to_name = jn_name to,
             rd_to_version = jn_version to, rd_requirement = je_requirement e, rd_direct = (jn_relation from = ''SELF'')\<rparr> # ds)))"

definition parse_dependencies :: "(string \<Rightarrow> (json_node list \<times> json_edge list) res) \<Rightarrow> string \<Rightarrow> string \<Rightarrow> string
    \<Rightarrow> reg_dependency list res" where
  "parse_dependencies decode name version body =
     (case decode body of
        Inl e \<Rightarrow> Inl (Wrap (''parse deps.dev dependencies for '' @ name @ ''@'' @ version) e)
      | Inr (nodes, es) \<Rightarrow> dependency_edges name version nodes es)"

subsection \<open>Version documents of npm\<close>

record version_doc =
  vd_name :: string
  vd_version :: string
  vd_maintainers :: "string list"
  vd_published_by :: string
  vd_provenance :: bool
  vd_install_script :: bool

text \<open>\<open>jd_approver\<close> and \<open>jd_attestations\<close> are the pointers of the document: absent or the text inside.\<close>

record json_doc =
  jd_name :: string
  jd_version :: string
  jd_maintainers :: "string list"
  jd_user :: string
  jd_approver :: "string option"
  jd_scripts :: "(string, string) gomap"
  jd_attestations :: "string option"

definition version_doc_of :: "json_doc \<Rightarrow> version_doc" where
  "version_doc_of d =
     \<lparr>vd_name = jd_name d, vd_version = jd_version d,
      vd_maintainers = List.filter (\<lambda>m. m \<noteq> []) (jd_maintainers d),
      vd_published_by = (case jd_approver d of None \<Rightarrow> jd_user d | Some a \<Rightarrow> if a \<noteq> [] then a else jd_user d),
      vd_provenance = (case jd_attestations d of None \<Rightarrow> False | Some p \<Rightarrow> p \<noteq> []),
      vd_install_script = list_ex (\<lambda>hook. getd [] (jd_scripts d) hook \<noteq> []) [''preinstall'', ''install'', ''postinstall'']\<rparr>"

definition parse_version_doc :: "(string \<Rightarrow> json_doc res) \<Rightarrow> string \<Rightarrow> string \<Rightarrow> string \<Rightarrow> version_doc res" where
  "parse_version_doc decode name version body =
     (case decode body of
        Inl e \<Rightarrow> Inl (Wrap (''parse npm document for '' @ name @ ''@'' @ version) e)
      | Inr d \<Rightarrow> Inr (version_doc_of d))"

subsection \<open>The response cache\<close>

text \<open>
  One response is a meta file and a body file; here they are named by their URL, in the code by its hash.
  The meta file is JSON, written by \<open>enc\<close> and read by \<open>dec\<close>; \<open>save\<close> is \<open>writeAtomic\<close>, with the
  directory made first.
\<close>

datatype cache_file = Meta string | Body string

record cache_meta =
  cm_url :: string
  cm_etag :: string
  cm_fetched :: gotime
  cm_not_found :: bool

record cache_entry =
  ce_etag :: string
  ce_fetched :: gotime
  ce_not_found :: bool
  ce_body :: string

type_synonym 'd file_reader = "cache_file \<Rightarrow> 'd \<Rightarrow> string option res"
type_synonym 'd file_saver = "cache_file \<Rightarrow> string \<Rightarrow> 'd \<Rightarrow> err option \<times> 'd"

definition cache_get :: "'d file_reader \<Rightarrow> (string \<Rightarrow> cache_meta option) \<Rightarrow> string \<Rightarrow> 'd \<Rightarrow> cache_entry option res" where
  "cache_get reader dec url d =
     (case reader (Meta url) d of
        Inl e \<Rightarrow> Inl (Wrap ''read cache meta'' e)
      | Inr None \<Rightarrow> Inr None
      | Inr (Some text) \<Rightarrow>
          (case dec text of
             None \<Rightarrow> Inr None
           | Some m \<Rightarrow>
               if cm_not_found m
               then Inr (Some \<lparr>ce_etag = cm_etag m, ce_fetched = cm_fetched m, ce_not_found = True, ce_body = []\<rparr>)
               else (case reader (Body url) d of
                   Inl e \<Rightarrow> Inl (Wrap ''read cache body'' e)
                 | Inr None \<Rightarrow> Inr None
                 | Inr (Some b) \<Rightarrow>
                     Inr (Some \<lparr>ce_etag = cm_etag m, ce_fetched = cm_fetched m, ce_not_found = False, ce_body = b\<rparr>))))"

definition cache_put :: "'d file_saver \<Rightarrow> (cache_meta \<Rightarrow> string) \<Rightarrow> gotime \<Rightarrow> string \<Rightarrow> string \<Rightarrow> string \<Rightarrow> 'd \<Rightarrow> err option \<times> 'd" where
  "cache_put save enc now url body etag d =
     (case save (Body url) body d of
        (Some e, d') \<Rightarrow> (Some e, d')
      | (None, d') \<Rightarrow> save (Meta url) (enc \<lparr>cm_url = url, cm_etag = etag, cm_fetched = now, cm_not_found = False\<rparr>) d')"

definition cache_put_not_found :: "'d file_saver \<Rightarrow> (cache_meta \<Rightarrow> string) \<Rightarrow> gotime \<Rightarrow> string \<Rightarrow> 'd \<Rightarrow> err option \<times> 'd" where
  "cache_put_not_found save enc now url d =
     save (Meta url) (enc \<lparr>cm_url = url, cm_etag = [], cm_fetched = now, cm_not_found = True\<rparr>) d"

definition cache_touch :: "'d file_saver \<Rightarrow> (cache_meta \<Rightarrow> string) \<Rightarrow> gotime \<Rightarrow> string \<Rightarrow> string \<Rightarrow> 'd \<Rightarrow> err option \<times> 'd" where
  "cache_touch save enc now url etag d =
     save (Meta url) (enc \<lparr>cm_url = url, cm_etag = etag, cm_fetched = now, cm_not_found = False\<rparr>) d"

subsection \<open>Fetching\<close>

definition max_attempts :: nat where
  "max_attempts = 4"

text \<open>
  What one exchange yields: an error, or a status, the \<open>Retry-After\<close> delay, the entity tag and the body or
  the error of reading it.
\<close>

record http_response =
  hr_status :: int
  hr_retry_after :: int
  hr_etag :: string
  hr_body :: "string res"

text \<open>
  The world a fetch runs in: \<open>web_exchange\<close> performs a request under a tag, \<open>web_pause\<close> is the limiter's wait and
  \<open>web_rest\<close> the back-off after an attempt; the last two fail only when the context ends. The directory of the
  cache is the second component of the world.
\<close>

record ('n, 'd) web =
  web_exchange :: "string \<Rightarrow> string \<Rightarrow> 'n \<Rightarrow> http_response res \<times> 'n"
  web_pause :: "'n \<Rightarrow> err option \<times> 'n"
  web_rest :: "nat \<Rightarrow> int \<Rightarrow> 'n \<Rightarrow> err option \<times> 'n"
  web_saver :: "'d file_saver"
  web_reader :: "'d file_reader"
  web_encoder :: "cache_meta \<Rightarrow> string"
  web_decoder :: "string \<Rightarrow> cache_meta option"
  web_clock :: "'n \<Rightarrow> gotime"

text \<open>The attempts of \<open>fetch\<close>; \<open>lft\<close> counts those left, \<open>lst\<close> is the error of the last one.\<close>

fun fetch_attempts :: "('n, 'd) web \<Rightarrow> string \<Rightarrow> cache_entry option \<Rightarrow> nat \<Rightarrow> nat \<Rightarrow> err \<Rightarrow> 'n \<times> 'd \<Rightarrow> string res \<times> 'n \<times> 'd" where
  "fetch_attempts web url cached attempt 0 lst (n, d) = (Inl lst, n, d)"
| "fetch_attempts web url cached attempt (Suc lft) lst (n, d) =
     (case web_pause web n of
        (Some e, n1) \<Rightarrow> (Inl e, n1, d)
      | (None, n1) \<Rightarrow>
          (case web_exchange web url (case cached of None \<Rightarrow> [] | Some c \<Rightarrow> ce_etag c) n1 of
             (Inl e, n2) \<Rightarrow>
               (case web_rest web attempt 0 n2 of
                  (Some x, n3) \<Rightarrow> (Inl x, n3, d)
                | (None, n3) \<Rightarrow> fetch_attempts web url cached (attempt + 1) lft (Wrap (''get '' @ url) e) (n3, d))
           | (Inr r, n2) \<Rightarrow>
               if hr_status r = 304
               then (case cached of
                   None \<Rightarrow> (Inl err_nil_pointer, n2, d)
                 | Some c \<Rightarrow>
                     (case cache_touch (web_saver web) (web_encoder web) (web_clock web n2) url (ce_etag c) d of
                        (Some e, d') \<Rightarrow> (Inl e, n2, d')
                      | (None, d') \<Rightarrow> (Inr (ce_body c), n2, d')))
               else if hr_status r = 404 then (Inl (Wrap url err_not_found), n2, d)
               else if hr_status r = 429 \<or> hr_status r \<ge> 500
               then (case web_rest web attempt (hr_retry_after r) n2 of
                   (Some x, n3) \<Rightarrow> (Inl x, n3, d)
                 | (None, n3) \<Rightarrow> fetch_attempts web url cached (attempt + 1) lft
                     (Msg (''get '' @ url @ '': '' @ itoa (hr_status r))) (n3, d))
               else if hr_status r \<noteq> 200 then (Inl (Msg (''get '' @ url @ '': '' @ itoa (hr_status r))), n2, d)
               else (case hr_body r of
                   Inl e \<Rightarrow>
                     (case web_rest web attempt 0 n2 of
                        (Some x, n3) \<Rightarrow> (Inl x, n3, d)
                      | (None, n3) \<Rightarrow> fetch_attempts web url cached (attempt + 1) lft (Wrap (''read '' @ url) e) (n3, d))
                 | Inr body \<Rightarrow>
                     (case cache_put (web_saver web) (web_encoder web) (web_clock web n2) url body (hr_etag r) d of
                        (Some e, d') \<Rightarrow> (Inl e, n2, d')
                      | (None, d') \<Rightarrow> (Inr body, n2, d')))))"

definition fetch :: "('n, 'd) web \<Rightarrow> string \<Rightarrow> cache_entry option \<Rightarrow> 'n \<times> 'd \<Rightarrow> string res \<times> 'n \<times> 'd" where
  "fetch web url cached nd = fetch_attempts web url cached 0 max_attempts (Msg []) nd"

text \<open>\<open>Get\<close>. Durations are in nanoseconds.\<close>

definition client_get :: "('n, 'd) web \<Rightarrow> string \<Rightarrow> int \<Rightarrow> 'n \<times> 'd \<Rightarrow> string res \<times> 'n \<times> 'd" where
  "client_get web url max_age nd =
     (case cache_get (web_reader web) (web_decoder web) url (snd nd) of
        Inl e \<Rightarrow> (Inl e, nd)
      | Inr entry \<Rightarrow>
          if (case entry of None \<Rightarrow> False | Some c \<Rightarrow> ce_not_found c) then (Inl (Wrap url err_not_found), nd)
          else if (case entry of None \<Rightarrow> False | Some c \<Rightarrow> max_age > 0 \<and> web_clock web (fst nd) - ce_fetched c < max_age)
          then (Inr (ce_body (the entry)), nd)
          else (case fetch web url entry nd of
              (Inr body, nd') \<Rightarrow> (Inr body, nd')
            | (Inl e, n', d') \<Rightarrow>
                if err_is e err_not_found
                then (case cache_put_not_found (web_saver web) (web_encoder web) (web_clock web n') url d' of
                    (Some x, d'') \<Rightarrow> (Inl x, n', d'')
                  | (None, d'') \<Rightarrow> (Inl e, n', d''))
                else (case entry of Some c \<Rightarrow> (Inr (ce_body c), n', d') | None \<Rightarrow> (Inl e, n', d'))))"

subsection \<open>Pace\<close>

text \<open>\<open>limiter.wait\<close>: the slot granted at \<open>now\<close> and the limiter afterwards; the caller sleeps until the slot.\<close>

record limiter =
  lim_interval :: int
  lim_next :: gotime

definition limiter_wait :: "gotime \<Rightarrow> limiter \<Rightarrow> gotime \<times> limiter" where
  "limiter_wait now l =
     (let at = (if lim_next l < now then now else lim_next l)
      in (at, l\<lparr>lim_next := at + lim_interval l\<rparr>))"

definition backoff_delay :: "nat \<Rightarrow> int \<Rightarrow> int" where
  "backoff_delay attempt retry_after = (if retry_after = 0 then 2 ^ attempt * 500 * 10 ^ 6 else retry_after)"

text \<open>\<open>strconv.Atoi\<close> and \<open>http.ParseTime\<close> are parameters, \<open>now\<close> is the clock.\<close>

definition parse_retry_after :: "(string \<Rightarrow> int option) \<Rightarrow> (string \<Rightarrow> gotime option) \<Rightarrow> gotime \<Rightarrow> string \<Rightarrow> int" where
  "parse_retry_after atoi parse_http now h =
     (if h = [] then 0
      else case atoi h of
          Some secs \<Rightarrow> if secs \<ge> 0 then secs * 10 ^ 9
            else (case parse_http h of Some t \<Rightarrow> if t - now > 0 then t - now else 0 | None \<Rightarrow> 0)
        | None \<Rightarrow> (case parse_http h of Some t \<Rightarrow> if t - now > 0 then t - now else 0 | None \<Rightarrow> 0))"

subsection \<open>The ranking\<close>

text \<open>\<open>TopPackages\<close>: the names of one page that are new, at most as many as are missing.\<close>

fun take_names :: "int \<Rightarrow> string list \<Rightarrow> string list \<Rightarrow> string list" where
  "take_names n names [] = names"
| "take_names n names (b # bs) =
     (if b = [] \<or> b \<in> set names then take_names n names bs
      else let names' = names @ [b] in
        if int (length names') = n then names' else take_names n names' bs)"

text \<open>The loop over pages ends only when enough names were seen or a page is empty: it may run forever.\<close>

partial_function (option) top_pages :: "(nat \<Rightarrow> string res) \<Rightarrow> (string \<Rightarrow> string list res) \<Rightarrow> int \<Rightarrow> nat \<Rightarrow> string list \<Rightarrow> string list res option" where
  "top_pages get decode n page names =
     (if int (length names) < n
      then (case get page of
          Inl e \<Rightarrow> Some (Inl (Wrap (''ecosyste.ms page '' @ utoa page) e))
        | Inr body \<Rightarrow>
            (case decode body of
               Inl e \<Rightarrow> Some (Inl (Wrap (''parse ecosyste.ms page '' @ utoa page) e))
             | Inr batch \<Rightarrow>
                 if batch = [] then Some (Inr names)
                 else top_pages get decode n (page + 1) (take_names n names batch)))
      else Some (Inr names))"

definition top_packages :: "(nat \<Rightarrow> string res) \<Rightarrow> (string \<Rightarrow> string list res) \<Rightarrow> int \<Rightarrow> string list res option" where
  "top_packages get decode n = top_pages get decode n 1 []"

subsection \<open>What a fetch does\<close>

lemma fetch_attempts_bound:
  fixes count :: "'n \<Rightarrow> nat"
  assumes "\<And>u t n r n'. web_exchange web u t n = (r, n') \<Longrightarrow> count n' \<le> count n + 1"
    and "\<And>n e n'. web_pause web n = (e, n') \<Longrightarrow> count n' = count n" "\<And>k r n e n'. web_rest web k r n = (e, n') \<Longrightarrow> count n' = count n"
    and "fetch_attempts web url cached attempt lft lst (n, d) = (r, n', d')"
  shows "count n' \<le> count n + lft"
  using assms(4)
proof (induction lft arbitrary: attempt lst n d)
  case (Suc lft)
  obtain pe n1 where p: "web_pause web n = (pe, n1)" by fastforce
  obtain re n2 where x: "web_exchange web url (case cached of None \<Rightarrow> [] | Some c \<Rightarrow> ce_etag c) n1 = (re, n2)" by fastforce
  have c1: "count n1 = count n" using assms(2) [OF p] .
  have c2: "count n2 \<le> count n + 1" using assms(1) [OF x] c1 by simp
  have c3: "count n3 \<le> count n + 1" if "web_rest web attempt ra n2 = (b, n3)" for ra b n3
    using assms(3) [OF that] c2 by simp
  have IH: "count n' \<le> count n + Suc lft"
    if "web_rest web attempt ra n2 = (b, n3)" "fetch_attempts web url cached (Suc attempt) lft e' (n3, d) = (r, n', d')" for ra b n3 e'
    using Suc.IH [OF that(2)] c3 [OF that(1)] by simp
  show ?case
    using Suc.prems p x c1 c2 c3 IH
    by (auto split: option.splits sum.splits if_splits prod.splits) (fastforce+)?
qed simp

subsection \<open>What the cache remembers\<close>

text \<open>A directory whose files are replaced as a whole: a failed save leaves every file as it was.\<close>

locale cache_files =
  fixes reader :: "'d file_reader" and saver :: "'d file_saver"
  assumes saved: "saver f t d = (None, d') \<Longrightarrow> reader f d' = Inr (Some t)"
    and others: "saver f t d = (r, d') \<Longrightarrow> g \<noteq> f \<or> r \<noteq> None \<Longrightarrow> reader g d' = reader g d"
begin

lemma get_after_put:
  assumes "\<And>m. dec (enc m) = Some m" "cache_put saver enc now url body etag d = (None, d')"
  shows "cache_get reader dec url d' = Inr (Some \<lparr>ce_etag = etag, ce_fetched = now, ce_not_found = False, ce_body = body\<rparr>)"
proof -
  obtain d1 where d1: "saver (Body url) body d = (None, d1)"
    "saver (Meta url) (enc \<lparr>cm_url = url, cm_etag = etag, cm_fetched = now, cm_not_found = False\<rparr>) d1 = (None, d')"
    using assms(2) by (auto simp: cache_put_def split: prod.splits option.splits)
  have "reader (Body url) d' = Inr (Some body)" using others [OF d1(2), of "Body url"] saved [OF d1(1)] by simp
  then show ?thesis using saved [OF d1(2)] assms(1) by (simp add: cache_get_def)
qed

lemma get_after_not_found:
  assumes "\<And>m. dec (enc m) = Some m" "cache_put_not_found saver enc now url d = (None, d')"
  shows "cache_get reader dec url d' = Inr (Some \<lparr>ce_etag = [], ce_fetched = now, ce_not_found = True, ce_body = []\<rparr>)"
  using saved [OF assms(2) [unfolded cache_put_not_found_def]] assms(1) by (simp add: cache_get_def)

lemma get_other:
  assumes "cache_put saver enc now url body etag d = (r, d')" "url' \<noteq> url"
  shows "cache_get reader dec url' d' = cache_get reader dec url' d"
proof -
  obtain r1 d1 where one: "saver (Body url) body d = (r1, d1)" by fastforce
  have "reader g d' = reader g d" if "g \<noteq> Body url" "g \<noteq> Meta url" for g
    using assms(1) one others [OF one] others that by (auto simp: cache_put_def split: option.splits)
  then have "reader (Body url') d' = reader (Body url') d" "reader (Meta url') d' = reader (Meta url') d" using assms(2) by simp_all
  then show ?thesis by (simp only: cache_get_def)
qed

end

text \<open>A directory in memory; it refuses everything once it is full.\<close>

record mem_dir =
  md_files :: "(cache_file, string) gomap"
  md_full :: bool

definition mem_read :: "mem_dir file_reader" where
  "mem_read f d = Inr (map_of (md_files d) f)"

definition mem_save :: "mem_dir file_saver" where
  "mem_save f t d = (if md_full d then (Some (Msg ''no space left on device''), d) else (None, d\<lparr>md_files := put f t (md_files d)\<rparr>))"

interpretation memdir: cache_files mem_read mem_save
  by unfold_locales (auto simp: mem_read_def mem_save_def update_conv' split: if_splits)

text \<open>
  What \<open>Get\<close> does with a stored response: a remembered 404 is the answer without a request at any age, the age
  of zero included; a fresh copy is the answer without a request; and while a copy is stored, only a 404 or the
  failure to remember one makes \<open>Get\<close> fail, after at most four exchanges.
\<close>

theorem get_with_stored_copy:
  fixes count :: "'n \<Rightarrow> nat"
  assumes "cache_get (web_reader web) (web_decoder web) url (snd nd) = Inr (Some c)"
    and "\<And>u t n r n'. web_exchange web u t n = (r, n') \<Longrightarrow> count n' \<le> count n + 1"
    and "\<And>n e n'. web_pause web n = (e, n') \<Longrightarrow> count n' = count n" "\<And>k r n e n'. web_rest web k r n = (e, n') \<Longrightarrow> count n' = count n"
  shows "(ce_not_found c \<longrightarrow> client_get web url max_age nd = (Inl (Wrap url err_not_found), nd))
    \<and> (\<not> ce_not_found c \<and> max_age > 0 \<and> web_clock web (fst nd) - ce_fetched c < max_age \<longrightarrow> client_get web url max_age nd = (Inr (ce_body c), nd))
    \<and> (\<not> ce_not_found c \<longrightarrow> (case client_get web url max_age nd of
         (Inr body, n', d') \<Rightarrow> count n' \<le> count (fst nd) + 4
       | (Inl e, n', d') \<Rightarrow> count n' \<le> count (fst nd) + 4
           \<and> (err_is e err_not_found \<or> (\<exists>d''. cache_put_not_found (web_saver web) (web_encoder web) (web_clock web n') url d'' = (Some e, d')))))"
proof -
  obtain n d where nd: "nd = (n, d)" by fastforce
  obtain r n' d' where f: "fetch web url (Some c) (n, d) = (r, n', d')" by (metis prod_cases3)
  have "count n' \<le> count n + 4"
    using fetch_attempts_bound [of web count, OF assms(2-4) f [unfolded fetch_def]] by (simp add: max_attempts_def)
  then have n: "count n' \<le> count (fst nd) + 4" by (simp add: nd)
  note get = client_get_def [of web url max_age nd, unfolded assms(1) sum.case option.case option.sel]
  consider (gone) "ce_not_found c" | (fresh) "\<not> ce_not_found c" "max_age > 0 \<and> web_clock web (fst nd) - ce_fetched c < max_age"
    | (ask) "\<not> ce_not_found c" "\<not> (max_age > 0 \<and> web_clock web (fst nd) - ce_fetched c < max_age)" by blast
  then show ?thesis
  proof cases
    case gone
    then show ?thesis by (simp add: get)
  next
    case fresh
    then have "client_get web url max_age nd = (Inr (ce_body c), nd)" by (simp add: get)
    then show ?thesis using fresh by (simp add: nd)
  next
    case ask
    have g: "client_get web url max_age nd =
      (case (r, n', d') of (Inr body, nd') \<Rightarrow> (Inr body, nd')
       | (Inl e, n', d') \<Rightarrow>
           if err_is e err_not_found
           then (case cache_put_not_found (web_saver web) (web_encoder web) (web_clock web n') url d' of
               (Some x, d'') \<Rightarrow> (Inl x, n', d'') | (None, d'') \<Rightarrow> (Inl e, n', d''))
           else (Inr (ce_body c), n', d'))"
      using ask f by (simp only: get if_False nd [symmetric])
    show ?thesis
    proof (cases r)
      case (Inr body)
      then show ?thesis using ask n g by (intro conjI impI) (blast, simp_all)
    next
      case (Inl e)
      obtain x d'' where p: "cache_put_not_found (web_saver web) (web_encoder web) (web_clock web n') url d' = (x, d'')" by fastforce
      have out: "case client_get web url max_age nd of
         (Inr body, n', d') \<Rightarrow> count n' \<le> count (fst nd) + 4
       | (Inl e, n', d') \<Rightarrow> count n' \<le> count (fst nd) + 4
           \<and> (err_is e err_not_found \<or> (\<exists>d''. cache_put_not_found (web_saver web) (web_encoder web) (web_clock web n') url d'' = (Some e, d')))"
        using n g Inl p by (cases "err_is e err_not_found"; cases x) auto
      show ?thesis using ask out by (intro conjI impI) blast+
    qed
  qed
qed

definition offline :: "(nat, mem_dir) web" where
  "offline = \<lparr>web_exchange = \<lambda>u t n. (Inl (Msg ''offline''), n + 1), web_pause = \<lambda>n. (None, n), web_rest = \<lambda>k r n. (None, n),
     web_saver = mem_save, web_reader = mem_read, web_encoder = \<lambda>m. [],
     web_decoder = \<lambda>t. Some \<lparr>cm_url = ''u'', cm_etag = [], cm_fetched = 5, cm_not_found = True\<rparr>, web_clock = \<lambda>n. 9\<rparr>"

theorem get_with_stored_copy_witness:
  "client_get offline ''u'' 0 (0, \<lparr>md_files = [(Meta ''u'', [])], md_full = False\<rparr>)
     = (Inl (Wrap ''u'' err_not_found), 0, \<lparr>md_files = [(Meta ''u'', [])], md_full = False\<rparr>)"
proof -
  let ?d = "\<lparr>md_files = [(Meta ''u'', [])], md_full = False\<rparr>"
  have c: "cache_get (web_reader offline) (web_decoder offline) ''u'' (snd (0 :: nat, ?d)) =
      Inr (Some \<lparr>ce_etag = [], ce_fetched = 5, ce_not_found = True, ce_body = []\<rparr>)"
    by (simp add: offline_def cache_get_def mem_read_def)
  have "n' \<le> n + 1" if "web_exchange offline u t n = (r, n')" for u t n r n' using that by (simp add: offline_def)
  moreover have "n' = n" if "web_pause offline n = (e, n')" for n e n' using that by (simp add: offline_def)
  moreover have "n' = n" if "web_rest offline k r n = (e, n')" for k r n e n' using that by (simp add: offline_def)
  ultimately show ?thesis
    using get_with_stored_copy [where count = "\<lambda>n. n" and max_age = 0, OF c] by (simp del: err_is.simps)
qed

subsection \<open>The ranking is a list of distinct names\<close>

lemma take_names_ok:
  assumes "distinct names" "[] \<notin> set names" "int (length names) < n"
  shows "distinct (take_names n names bs) \<and> [] \<notin> set (take_names n names bs) \<and> int (length (take_names n names bs)) \<le> n"
  using assms
proof (induction n names bs rule: take_names.induct)
  case (2 n names b bs)
  then show ?case by (auto simp: Let_def)
qed simp

lemma top_pages_ok:
  assumes "top_pages get decode n page names = Some r"
    and "distinct names" "[] \<notin> set names" "int (length names) \<le> n \<or> names = []" "r = Inr out"
  shows "distinct out \<and> [] \<notin> set out \<and> (int (length out) \<le> n \<or> out = [])"
  using assms
proof (induction get decode n page names r rule: top_pages.raw_induct [rotated, consumes 1])
  case (1 rec get decode n page names r)
  have r: "r = Inr out" and inv: "distinct names" "[] \<notin> set names" "int (length names) \<le> n \<or> names = []"
    using 1 by simp_all
  have step: "distinct (take_names n names batch)" "[] \<notin> set (take_names n names batch)"
      "int (length (take_names n names batch)) \<le> n \<or> take_names n names batch = []" if "int (length names) < n" for batch
    using take_names_ok [of names n batch] inv that by auto
  show ?case
  proof (cases "int (length names) < n")
    case True
    then obtain body where body: "get page = Inr body" using 1(2) r by (cases "get page") auto
    with True 1(2) r obtain batch where batch: "decode body = Inr batch" by (cases "decode body") auto
    show ?thesis
    proof (cases "batch = []")
      case False
      then have "rec get decode n (page + 1) (take_names n names batch) = Some r"
        using True body batch 1(2) by simp
      then show ?thesis by (rule 1(1)) (use step [OF True] r in auto)
    qed (use 1(2) r inv True body batch in simp)
  qed (use 1(2) r inv in simp)
qed

text \<open>
  Whatever the service answers, the ranking that \<open>TopPackages\<close> returns has no name twice, no empty name
  and at most as many names as were asked for.
\<close>

lemma top_packages_distinct:
  assumes "top_packages get decode n = Some (Inr out)"
  shows "distinct out \<and> [] \<notin> set out \<and> int (length out) \<le> max n 0"
  using top_pages_ok [OF assms [unfolded top_packages_def]] by auto

end
