(* ===== verification/Ingest.thy ===== *)
theory Ingest
  imports Checkpoint GraphDb Identity Registry
begin

text \<open>
  The ingest: \<open>internal/ingest\<close>. The rows of a package, the spells of its maintainers, the versions current at
  each epoch, the order in which a batch is written, and the loop of theory Checkpoint. The registry's
  answers are arguments. The theorems: a spell covers exactly the instants at which the account was in the
  last observed maintainer set, edges are written only after the nodes, and the checkpoint names only
  packages whose rows are in the graph.
\<close>

subsection \<open>Statements\<close>

definition npm :: string where
  "npm = ''npm''"

definition upsert_package :: string where
  "upsert_package = ''UNWIND $rows AS row MERGE (n {id: row.vertex}) ''
     @ ''SET n:Package, n.urn = row.urn, n.ecosystem = row.ecosystem, n.name = row.name, n.rank = row.rank''"

definition upsert_package_ref :: string where
  "upsert_package_ref = ''UNWIND $rows AS row MERGE (n {id: row.vertex}) ''
     @ ''SET n:Package, n.urn = row.urn, n.ecosystem = row.ecosystem, n.name = row.name''"

definition upsert_version :: string where
  "upsert_version = ''UNWIND $rows AS row MERGE (n {id: row.vertex}) ''
     @ ''SET n:Version, n.urn = row.urn, n.name = row.name, n.version = row.version, ''
     @ ''n.published_at = row.published_at, n.deprecated = row.deprecated''"

definition annotate_version :: string where
  "annotate_version = ''UNWIND $rows AS row MERGE (n {id: row.vertex}) ''
     @ ''SET n:Version, n.published_by = row.published_by, n.has_provenance = row.has_provenance, ''
     @ ''n.has_install_script = row.has_install_script''"

definition upsert_maintainer :: string where
  "upsert_maintainer = ''UNWIND $rows AS row MERGE (n {id: row.vertex}) ''
     @ ''SET n:Maintainer, n.urn = row.urn, n.handle = row.handle''"

definition link_has_version :: string where
  "link_has_version = ''UNWIND $rows AS row MATCH (s:Package {id: row.src}), (d:Version {id: row.dst}) ''
     @ ''MERGE (s)-[r:HAS_VERSION {id: row.id}]->(d) SET r.published_at = row.published_at''"

definition link_depends_on :: string where
  "link_depends_on = ''UNWIND $rows AS row MATCH (s:Version {id: row.src}), (d:Package {id: row.dst}) ''
     @ ''MERGE (s)-[r:DEPENDS_ON {id: row.id}]->(d) SET r.range = row.range, r.direct = row.direct''"

definition link_maintains :: string where
  "link_maintains = ''UNWIND $rows AS row MATCH (s:Maintainer {id: row.src}), (d:Package {id: row.dst}) ''
     @ ''MERGE (s)-[r:MAINTAINS {id: row.id}]->(d) ''
     @ ''SET r.valid_from = row.valid_from, r.valid_to = row.valid_to, r.observed = row.observed''"

definition link_sampled :: string where
  "link_sampled = ''UNWIND $rows AS row MATCH (s:Package {id: row.src}), (d:Version {id: row.dst}) ''
     @ ''MERGE (s)-[r:SAMPLED {id: row.id}]->(d) SET r.published_at = row.published_at''"

subsection \<open>Rows\<close>

record rows =
  rw_packages :: "row list"
  rw_references :: "row list"
  rw_versions :: "row list"
  rw_annotations :: "row list"
  rw_maintainers :: "row list"
  rw_has_version :: "row list"
  rw_sampled :: "row list"
  rw_depends_on :: "row list"
  rw_maintains :: "row list"

definition no_rows :: rows where
  "no_rows = \<lparr>rw_packages = [], rw_references = [], rw_versions = [], rw_annotations = [], rw_maintainers = [], rw_has_version = [],
     rw_sampled = [], rw_depends_on = [], rw_maintains = []\<rparr>"

definition append_rows :: "rows \<Rightarrow> rows \<Rightarrow> rows" where
  "append_rows r other =
     \<lparr>rw_packages = rw_packages r @ rw_packages other, rw_references = rw_references r @ rw_references other,
      rw_versions = rw_versions r @ rw_versions other, rw_annotations = rw_annotations r @ rw_annotations other,
      rw_maintainers = rw_maintainers r @ rw_maintainers other, rw_has_version = rw_has_version r @ rw_has_version other,
      rw_sampled = rw_sampled r @ rw_sampled other, rw_depends_on = rw_depends_on r @ rw_depends_on other,
      rw_maintains = rw_maintains r @ rw_maintains other\<rparr>"

definition node_count :: "rows \<Rightarrow> nat" where
  "node_count r = length (rw_packages r) + length (rw_references r) + length (rw_versions r) + length (rw_maintainers r)"

definition edge_count :: "rows \<Rightarrow> nat" where
  "edge_count r = length (rw_has_version r) + length (rw_sampled r) + length (rw_depends_on r) + length (rw_maintains r)"

definition add_package :: "string \<Rightarrow> int \<Rightarrow> rows \<Rightarrow> rows" where
  "add_package name rank r =
     (let urn = package_urn npm name in
      r\<lparr>rw_packages := rw_packages r @ [[(''vertex'', PInt (node_id urn)), (''urn'', PStr urn), (''ecosystem'', PStr npm),
        (''name'', PStr name), (''rank'', PInt rank)]]\<rparr>)"

definition add_package_ref :: "string \<Rightarrow> rows \<Rightarrow> rows" where
  "add_package_ref name r =
     (let urn = package_urn npm name in
      r\<lparr>rw_references := rw_references r @ [[(''vertex'', PInt (node_id urn)), (''urn'', PStr urn), (''ecosystem'', PStr npm),
        (''name'', PStr name)]]\<rparr>)"

definition add_version :: "string \<Rightarrow> reg_release \<Rightarrow> rows \<Rightarrow> rows" where
  "add_version name rel r =
     (let pkg = package_urn npm name; ver = version_urn npm name (g_version rel); published = timestamp (g_published rel) in
      r\<lparr>rw_versions := rw_versions r @ [[(''vertex'', PInt (node_id ver)), (''urn'', PStr ver), (''name'', PStr name),
          (''version'', PStr (g_version rel)), (''published_at'', PInt published), (''deprecated'', PBool (g_deprecated rel))]],
        rw_has_version := rw_has_version r @ [[(''id'', PInt (edge_id pkg ''HAS_VERSION'' ver [])), (''src'', PInt (node_id pkg)),
          (''dst'', PInt (node_id ver)), (''published_at'', PInt published)]]\<rparr>)"

definition add_version_doc :: "version_doc \<Rightarrow> int \<Rightarrow> rows \<Rightarrow> rows" where
  "add_version_doc doc published r =
     (let pkg = package_urn npm (vd_name doc); ver = version_urn npm (vd_name doc) (vd_version doc) in
      r\<lparr>rw_annotations := rw_annotations r @ [[(''vertex'', PInt (node_id ver)), (''published_by'', PStr (vd_published_by doc)),
          (''has_provenance'', PBool (vd_provenance doc)), (''has_install_script'', PBool (vd_install_script doc))]],
        rw_sampled := rw_sampled r @ [[(''id'', PInt (edge_id pkg ''SAMPLED'' ver [])), (''src'', PInt (node_id pkg)),
          (''dst'', PInt (node_id ver)), (''published_at'', PInt published)]]\<rparr>)"

definition add_dependency :: "reg_dependency \<Rightarrow> rows \<Rightarrow> rows" where
  "add_dependency dep r =
     (let from = version_urn npm (rd_from_name dep) (rd_from_version dep); to = package_urn npm (rd_to_name dep) in
      r\<lparr>rw_depends_on := rw_depends_on r @ [[(''id'', PInt (edge_id from ''DEPENDS_ON'' to [])), (''src'', PInt (node_id from)),
        (''dst'', PInt (node_id to)), (''range'', PStr (rd_requirement dep)), (''direct'', PBool (rd_direct dep))]]\<rparr>)"

definition add_maintainer :: "string \<Rightarrow> rows \<Rightarrow> rows" where
  "add_maintainer handle r =
     (let urn = maintainer_urn npm handle in
      r\<lparr>rw_maintainers := rw_maintainers r @ [[(''vertex'', PInt (node_id urn)), (''urn'', PStr urn), (''handle'', PStr handle)]]\<rparr>)"

subsection \<open>Spells\<close>

record observation =
  ob_at :: int
  ob_maintainers :: "string list"

record spell =
  sp_from :: int
  sp_to :: int
  sp_observed :: int

definition discriminator :: "spell \<Rightarrow> string" where
  "discriminator s = itoa (sp_from s)"

definition add_maintains :: "string \<Rightarrow> string \<Rightarrow> spell \<Rightarrow> rows \<Rightarrow> rows" where
  "add_maintains handle pkg s r =
     (let mnt = maintainer_urn npm handle; p = package_urn npm pkg in
      r\<lparr>rw_maintains := rw_maintains r @ [[(''id'', PInt (edge_id mnt ''MAINTAINS'' p (discriminator s))), (''src'', PInt (node_id mnt)),
        (''dst'', PInt (node_id p)), (''valid_from'', PInt (sp_from s)), (''valid_to'', PInt (sp_to s)),
        (''observed'', PInt (sp_observed s))]]\<rparr>)"

type_synonym spell_state = "(string, spell) gomap \<times> (string, spell list) gomap"

text \<open>The two inner loops: over the open spells, and over the accounts observed.\<close>

definition close_spell :: "observation \<Rightarrow> spell_state \<Rightarrow> string \<Rightarrow> spell_state" where
  "close_spell ob st h =
     (let (opn, out) = st in
      if h \<in> set (ob_maintainers ob) then st
      else (case map_of opn h of
          None \<Rightarrow> st
        | Some s \<Rightarrow> (AList.delete h opn, put h (getd [] out h @ [s\<lparr>sp_to := ob_at ob\<rparr>]) out)))"

definition open_spell :: "observation \<Rightarrow> (string, spell) gomap \<Rightarrow> string \<Rightarrow> (string, spell) gomap" where
  "open_spell ob opn h =
     (case map_of opn h of
        Some s \<Rightarrow> put h (s\<lparr>sp_observed := sp_observed s + 1\<rparr>) opn
      | None \<Rightarrow> put h \<lparr>sp_from = ob_at ob, sp_to = open_interval, sp_observed = 1\<rparr> opn)"

definition observe :: "spell_state \<Rightarrow> observation \<Rightarrow> spell_state" where
  "observe st ob =
     (let (opn, out) = foldl (close_spell ob) st (keys (fst st))
      in (foldl (open_spell ob) opn (collect (ob_maintainers ob)), out))"

definition spells :: "observation list \<Rightarrow> (string, spell list) gomap" where
  "spells obs =
     (if obs = [] then []
      else let (opn, out) = foldl observe ([], []) (sort_slice (\<lambda>a b. ob_at a < ob_at b) obs)
        in foldl (\<lambda>m hs. put (fst hs) (getd [] m (fst hs) @ [snd hs]) m) out opn)"

subsection \<open>Batches\<close>

fun dedupe_loop :: "string \<Rightarrow> int list \<Rightarrow> row list \<Rightarrow> row list" where
  "dedupe_loop key seen [] = []"
| "dedupe_loop key seen (r # rs) =
     (case getd PNull r key of
        PInt i \<Rightarrow> if i \<in> set seen then dedupe_loop key seen rs else r # dedupe_loop key (i # seen) rs
      | _ \<Rightarrow> r # dedupe_loop key seen rs)"

definition dedupe :: "string \<Rightarrow> row list \<Rightarrow> row list" where
  "dedupe key rs = (if length rs < 2 then rs else dedupe_loop key [] rs)"

definition dedupe_rows :: "rows \<Rightarrow> rows" where
  "dedupe_rows r =
     \<lparr>rw_packages = dedupe ''vertex'' (rw_packages r), rw_references = dedupe ''vertex'' (rw_references r),
      rw_versions = dedupe ''vertex'' (rw_versions r), rw_annotations = dedupe ''vertex'' (rw_annotations r),
      rw_maintainers = dedupe ''vertex'' (rw_maintainers r), rw_has_version = dedupe ''id'' (rw_has_version r),
      rw_sampled = dedupe ''id'' (rw_sampled r), rw_depends_on = dedupe ''id'' (rw_depends_on r),
      rw_maintains = dedupe ''id'' (rw_maintains r)\<rparr>"

definition write_order :: "rows \<Rightarrow> (string \<times> string \<times> row list) list" where
  "write_order r =
     [(''packages'', upsert_package, rw_packages r),
      (''package references'', upsert_package_ref, rw_references r),
      (''versions'', upsert_version, rw_versions r),
      (''maintainers'', upsert_maintainer, rw_maintainers r),
      (''version annotations'', annotate_version, rw_annotations r),
      (''has_version'', link_has_version, rw_has_version r),
      (''sampled'', link_sampled, rw_sampled r),
      (''depends_on'', link_depends_on, rw_depends_on r),
      (''maintains'', link_maintains, rw_maintains r)]"

fun write_steps :: "'w runner \<Rightarrow> (err \<Rightarrow> bool) \<Rightarrow> ('w \<Rightarrow> err option) \<Rightarrow> int \<Rightarrow> (string \<times> string \<times> row list) list \<Rightarrow> 'w \<Rightarrow> err option \<times> 'w" where
  "write_steps run transient ended batch [] w = (None, w)"
| "write_steps run transient ended batch ((name, stmt, rs) # steps) w =
     (if rs = [] then write_steps run transient ended batch steps w
      else case write_batch run transient ended stmt rs batch w of
          (_, Some e, w') \<Rightarrow> (Some (Wrap (''write '' @ name) e), w')
        | (_, None, w') \<Rightarrow> write_steps run transient ended batch steps w')"

record ingest_stats =
  is_packages :: nat
  is_skipped :: nat
  is_missing :: nat
  is_nodes :: nat
  is_edges :: nat
  is_requests :: nat

definition ingest_write :: "'w runner \<Rightarrow> (err \<Rightarrow> bool) \<Rightarrow> ('w \<Rightarrow> err option) \<Rightarrow> int \<Rightarrow> rows \<Rightarrow> 'w \<times> ingest_stats \<Rightarrow> err option \<times> 'w \<times> ingest_stats" where
  "ingest_write run transient ended batch pending ws =
     (let r = dedupe_rows pending; (w, stats) = ws in
      case write_steps run transient ended batch (write_order r) w of
        (Some e, w') \<Rightarrow> (Some e, w', stats)
      | (None, w') \<Rightarrow> (None, w', stats\<lparr>is_nodes := is_nodes stats + node_count r, is_edges := is_edges stats + edge_count r\<rparr>))"

record package_rows =
  pr_name :: string
  pr_rows :: rows
  pr_requests :: nat

definition take_package :: "package_rows \<Rightarrow> rows \<Rightarrow> rows" where
  "take_package pr pending = append_rows pending (pr_rows pr)"

definition count_requests :: "package_rows \<Rightarrow> 'w \<times> ingest_stats \<Rightarrow> 'w \<times> ingest_stats" where
  "count_requests pr ws = (fst ws, (snd ws)\<lparr>is_packages := is_packages (snd ws) + 1, is_requests := is_requests (snd ws) + pr_requests pr\<rparr>)"

definition ingest_write_loop :: "'w runner \<Rightarrow> (err \<Rightarrow> bool) \<Rightarrow> ('w \<Rightarrow> err option) \<Rightarrow> int \<Rightarrow> 'f printer \<Rightarrow> 'f syncer
    \<Rightarrow> package_rows list \<Rightarrow> (rows, 'w \<times> ingest_stats, 'f) writer \<Rightarrow> err option \<times> (rows, 'w \<times> ingest_stats, 'f) writer" where
  "ingest_write_loop run transient ended batch println sync =
     flush_loop pr_name take_package count_requests (\<lambda>r. node_count r + edge_count r)
       (ingest_write run transient ended batch) no_rows println sync"

subsection \<open>Epochs\<close>

text \<open>
  A civil month is a pair of a year and a month counted from zero; \<open>quarter_start\<close> is the month the
  quarter begins in and \<open>add_months\<close> is \<open>AddDate\<close> on the first of a month. \<open>date\<close>, the instant of
  the first of a month in UTC, is the standard library's.
\<close>

type_synonym month = "int \<times> int"

definition quarter :: "month \<Rightarrow> int" where
  "quarter m = snd m div 3"

definition quarter_start :: "month \<Rightarrow> month" where
  "quarter_start m = (fst m, quarter m * 3)"

definition add_months :: "int \<Rightarrow> month \<Rightarrow> month" where
  "add_months k m = (fst m + (snd m + k) div 12, (snd m + k) mod 12)"

definition epochs :: "(month \<Rightarrow> gotime) \<Rightarrow> nat \<Rightarrow> month \<Rightarrow> gotime list" where
  "epochs date n now = List.map (\<lambda>i. date (add_months (- 3 * int i) (quarter_start now))) (rev [0..<n])"

fun is_prerelease_text :: "string \<Rightarrow> bool" where
  "is_prerelease_text [] = False"
| "is_prerelease_text (c # cs) = (if c = CHR ''-'' then True else if c = CHR ''+'' then False else is_prerelease_text cs)"

fun version_at_loop :: "gotime \<Rightarrow> reg_release option \<Rightarrow> reg_release list \<Rightarrow> reg_release option" where
  "version_at_loop t best [] = best"
| "version_at_loop t best (r # rs) =
     (if g_published r = zero_time \<or> g_published r > t \<or> is_prerelease_text (g_version r) then version_at_loop t best rs
      else (case best of
          None \<Rightarrow> version_at_loop t (Some r) rs
        | Some b \<Rightarrow> version_at_loop t (if g_published r > g_published b then Some r else best) rs))"

definition version_at :: "reg_release list \<Rightarrow> gotime \<Rightarrow> reg_release option" where
  "version_at releases t = version_at_loop t None releases"

subsection \<open>One package\<close>

text \<open>The registry as the ingest uses it.\<close>

record registry =
  reg_timeline :: "string \<Rightarrow> reg_release list res"
  reg_version_doc :: "string \<Rightarrow> string \<Rightarrow> version_doc res"
  reg_dependencies :: "string \<Rightarrow> string \<Rightarrow> reg_dependency list res"

fun sample_epochs :: "reg_release list \<Rightarrow> string list \<Rightarrow> gotime list \<Rightarrow> reg_release list" where
  "sample_epochs releases seen [] = []"
| "sample_epochs releases seen (t # ts) =
     (case version_at releases t of
        None \<Rightarrow> sample_epochs releases seen ts
      | Some rel \<Rightarrow> if g_version rel \<in> set seen then sample_epochs releases seen ts
          else rel # sample_epochs releases (g_version rel # seen) ts)"

definition add_direct :: "rows \<Rightarrow> reg_dependency \<Rightarrow> rows" where
  "add_direct r d = (if \<not> rd_direct d then r else add_package_ref (rd_to_name d) (add_dependency d r))"

record fetch_state =
  fs_rows :: rows
  fs_requests :: nat
  fs_obs :: "observation list"
  fs_handles :: "string list"

fun fetch_samples :: "registry \<Rightarrow> bool \<Rightarrow> string \<Rightarrow> fetch_state \<Rightarrow> reg_release list \<Rightarrow> fetch_state res" where
  "fetch_samples reg deps name st [] = Inr st"
| "fetch_samples reg deps name st (rel # rels) =
     (let st1 = st\<lparr>fs_requests := fs_requests st + 1\<rparr> in
      case reg_version_doc reg name (g_version rel) of
        Inl e \<Rightarrow>
          if err_is e err_not_found then fetch_samples reg deps name st1 rels
          else Inl (Wrap (''version document '' @ name @ ''@'' @ g_version rel) e)
      | Inr doc \<Rightarrow>
          let at = timestamp (g_published rel);
              st2 = st1\<lparr>fs_rows := add_version_doc doc at (fs_rows st1),
                fs_obs := fs_obs st1 @ [\<lparr>ob_at = at, ob_maintainers = vd_maintainers doc\<rparr>],
                fs_handles := foldl (\<lambda>hs h. set_add h hs) (fs_handles st1) (vd_maintainers doc)\<rparr>
          in if \<not> deps then fetch_samples reg deps name st2 rels
             else let st3 = st2\<lparr>fs_requests := fs_requests st2 + 1\<rparr> in
               (case reg_dependencies reg name (g_version rel) of
                  Inl e \<Rightarrow>
                    if err_is e err_not_found then fetch_samples reg deps name st3 rels
                    else Inl (Wrap (''dependencies '' @ name @ ''@'' @ g_version rel) e)
                | Inr ds \<Rightarrow> fetch_samples reg deps name (st3\<lparr>fs_rows := foldl add_direct (fs_rows st3) ds\<rparr>) rels))"

definition fetch_package :: "registry \<Rightarrow> bool \<Rightarrow> string \<Rightarrow> int \<Rightarrow> gotime list \<Rightarrow> package_rows res" where
  "fetch_package reg deps name rank eps =
     (case reg_timeline reg name of
        Inl e \<Rightarrow> Inl e
      | Inr releases \<Rightarrow>
          let r0 = foldl (\<lambda>r rel. if g_published rel = zero_time then r else add_version name rel r) (add_package name rank no_rows) releases in
          (case fetch_samples reg deps name \<lparr>fs_rows = r0, fs_requests = 1, fs_obs = [], fs_handles = []\<rparr> (sample_epochs releases [] eps) of
             Inl e \<Rightarrow> Inl e
           | Inr st \<Rightarrow>
               let r1 = foldl (\<lambda>r h. add_maintainer h r) (fs_rows st) (fs_handles st);
                   r2 = foldl (\<lambda>r (h, ss). foldl (\<lambda>r s. add_maintains h name s r) r ss) r1 (spells (fs_obs st))
               in Inr \<lparr>pr_name = name, pr_rows = r2, pr_requests = fs_requests st\<rparr>))"

record ingest_options =
  io_epochs :: int
  io_fetchers :: int
  io_batch :: int
  io_deps :: bool
  io_now :: gotime

definition ingest_defaults :: "gotime \<Rightarrow> ingest_options \<Rightarrow> ingest_options" where
  "ingest_defaults clock o1 =
     o1\<lparr>io_epochs := (if io_epochs o1 \<le> 0 then 8 else io_epochs o1),
       io_fetchers := (if io_fetchers o1 \<le> 0 then 8 else io_fetchers o1),
       io_batch := (if io_batch o1 \<le> 0 then default_batch else io_batch o1),
       io_now := (if io_now o1 = zero_time then clock else io_now o1)\<rparr>"

text \<open>
  \<open>Run\<close>: names are ranked from one, those the checkpoint has are skipped, packages that cannot be fetched are
  counted as missing; \<open>arrive\<close> is the order in which the concurrent fetches reach the writer.
\<close>

fun ranked_names :: "int \<Rightarrow> string list \<Rightarrow> (string \<times> int) list" where
  "ranked_names k [] = []"
| "ranked_names k (n # ns) = (n, k) # ranked_names (k + 1) ns"

fun fetch_all :: "registry \<Rightarrow> bool \<Rightarrow> gotime list \<Rightarrow> (string \<times> int) list \<Rightarrow> package_rows list \<times> nat" where
  "fetch_all reg deps eps [] = ([], 0)"
| "fetch_all reg deps eps ((n, k) # jobs) =
     (let (prs, missing) = fetch_all reg deps eps jobs in
      case fetch_package reg deps n k eps of
        Inl e \<Rightarrow> (prs, missing + 1)
      | Inr pr \<Rightarrow> (pr # prs, missing))"

definition ingest_run :: "registry \<Rightarrow> 'w runner \<Rightarrow> (err \<Rightarrow> bool) \<Rightarrow> ('w \<Rightarrow> err option) \<Rightarrow> 'f printer \<Rightarrow> 'f syncer
    \<Rightarrow> (package_rows list \<Rightarrow> package_rows list) \<Rightarrow> (month \<Rightarrow> gotime) \<Rightarrow> (gotime \<Rightarrow> month) \<Rightarrow> ingest_options
    \<Rightarrow> string list \<Rightarrow> 'f checkpoint res \<Rightarrow> 'w \<Rightarrow> err option \<times> ingest_stats \<times> ('w \<times> 'f checkpoint) option" where
  "ingest_run reg run transient ended println sync arrive date month_of opts names opened w =
     (let zero = \<lparr>is_packages = 0, is_skipped = 0, is_missing = 0, is_nodes = 0, is_edges = 0, is_requests = 0\<rparr> in
      case opened of
        Inl e \<Rightarrow> (Some e, zero, None)
      | Inr cp \<Rightarrow>
          let eps = epochs date (nat (io_epochs opts)) (month_of (io_now opts));
              jobs = List.filter (\<lambda>j. \<not> cp_has cp (fst j)) (ranked_names 1 names);
              (prs, missing) = fetch_all reg (io_deps opts) eps jobs;
              stats = zero\<lparr>is_skipped := length names - length jobs, is_missing := missing\<rparr>;
              (e, st) = ingest_write_loop run transient ended (io_batch opts) println sync (arrive prs)
                \<lparr>wr_pending = no_rows, wr_names = [], wr_world = (w, stats), wr_cp = cp\<rparr>
          in (e, snd (wr_world st), Some (fst (wr_world st), wr_cp st)))"

subsection \<open>Spells cover presence\<close>

lemma close_spells:
  assumes "foldl (close_spell ob) (opn, out) hs = (opn', out')"
  shows "map_of opn' h = (if h \<in> set hs \<and> h \<notin> set (ob_maintainers ob) then None else map_of opn h)
    \<and> getd [] out' h = getd [] out h @ (if h \<in> set hs \<and> h \<notin> set (ob_maintainers ob)
        then (case map_of opn h of None \<Rightarrow> [] | Some s \<Rightarrow> [s\<lparr>sp_to := ob_at ob\<rparr>]) else [])
    \<and> (distinct (keys opn) \<longrightarrow> distinct (keys opn'))"
  using assms
proof (induction hs arbitrary: opn out)
  case (Cons x hs)
  obtain o1 u1 where one: "close_spell ob (opn, out) x = (o1, u1)" by fastforce
  have "distinct (keys opn) \<longrightarrow> distinct (keys o1)"
    using one by (auto simp: close_spell_def keys_def distinct_delete split: if_splits option.splits)
  moreover have "map_of o1 h = (if h = x \<and> h \<notin> set (ob_maintainers ob) then None else map_of opn h)"
    "getd [] u1 h = getd [] out h @ (if h = x \<and> h \<notin> set (ob_maintainers ob)
        then (case map_of opn h of None \<Rightarrow> [] | Some s \<Rightarrow> [s\<lparr>sp_to := ob_at ob\<rparr>]) else [])"
    using one by (auto simp: close_spell_def delete_conv' split: if_splits option.splits)
  ultimately show ?case using Cons.IH [of o1 u1] Cons.prems one by (auto split: option.splits)
qed simp

lemma open_spells:
  "distinct hs \<Longrightarrow> map_of (foldl (open_spell ob) opn hs) h =
     (if h \<in> set hs then Some (case map_of opn h of
        Some s \<Rightarrow> s\<lparr>sp_observed := sp_observed s + 1\<rparr>
      | None \<Rightarrow> \<lparr>sp_from = ob_at ob, sp_to = open_interval, sp_observed = 1\<rparr>) else map_of opn h)"
  by (induction hs arbitrary: opn) (auto simp: open_spell_def update_conv' split: option.splits)

lemma open_spells_distinct: "distinct (keys opn) \<Longrightarrow> distinct (keys (foldl (open_spell ob) opn hs))"
  by (induction hs arbitrary: opn) (auto simp: open_spell_def distinct_keys_put split: option.splits)

lemma observe_spells:
  assumes "observe (opn, out) ob = (opn', out')"
  shows "map_of opn' h = (if h \<in> set (ob_maintainers ob) then Some (case map_of opn h of
        Some s \<Rightarrow> s\<lparr>sp_observed := sp_observed s + 1\<rparr>
      | None \<Rightarrow> \<lparr>sp_from = ob_at ob, sp_to = open_interval, sp_observed = 1\<rparr>) else None)
    \<and> getd [] out' h = getd [] out h @ (if h \<in> set (ob_maintainers ob) then []
        else (case map_of opn h of None \<Rightarrow> [] | Some s \<Rightarrow> [s\<lparr>sp_to := ob_at ob\<rparr>]))
    \<and> (distinct (keys opn) \<longrightarrow> distinct (keys opn'))"
proof -
  obtain o1 u1 where one: "foldl (close_spell ob) (opn, out) (keys opn) = (o1, u1)" by fastforce
  have r: "opn' = foldl (open_spell ob) o1 (collect (ob_maintainers ob))" "out' = u1"
    using assms one by (auto simp: observe_def Let_def)
  have "h \<in> set (keys opn) \<longleftrightarrow> map_of opn h \<noteq> None" using has_key_iff [of opn h] by (simp add: has_key_def)
  then show ?thesis
    using close_spells [OF one, of h] open_spells [of "collect (ob_maintainers ob)" ob o1 h] open_spells_distinct [of o1 ob]
    by (auto simp: r split: option.splits)
qed

text \<open>The account is in the last maintainer set observed by \<open>t\<close>.\<close>

definition listed :: "observation list \<Rightarrow> string \<Rightarrow> int \<Rightarrow> bool" where
  "listed obs h t \<longleftrightarrow> (let seen = List.filter (\<lambda>ob. ob_at ob \<le> t) obs in seen \<noteq> [] \<and> h \<in> set (ob_maintainers (last seen)))"

abbreviation in_spell :: "int \<Rightarrow> spell \<Rightarrow> bool" where
  "in_spell t s \<equiv> sp_from s \<le> t \<and> t < sp_to s"

definition spell_inv :: "observation list \<Rightarrow> string \<Rightarrow> spell option \<Rightarrow> spell list \<Rightarrow> bool" where
  "spell_inv obs h opn closed \<longleftrightarrow>
     (opn \<noteq> None \<longleftrightarrow> obs \<noteq> [] \<and> h \<in> set (ob_maintainers (last obs)))
     \<and> (\<forall>s. opn = Some s \<longrightarrow> sp_from s \<le> ob_at (last obs) \<and> sp_to s = open_interval \<and> (\<forall>c \<in> set closed. sp_to c < sp_from s))
     \<and> (\<forall>c \<in> set closed. sp_from c < sp_to c \<and> obs \<noteq> [] \<and> sp_to c \<le> ob_at (last obs))
     \<and> sorted_wrt (\<lambda>a b. sp_to a < sp_from b) closed
     \<and> (\<forall>t. listed obs h t \<longleftrightarrow> (\<exists>c \<in> set closed. in_spell t c) \<or> (\<exists>s. opn = Some s \<and> sp_from s \<le> t))"

lemma listed_snoc:
  assumes "\<And>ob'. ob' \<in> set obs \<Longrightarrow> ob_at ob' < ob_at ob"
  shows "listed (obs @ [ob]) h t = (if ob_at ob \<le> t then h \<in> set (ob_maintainers ob) else listed obs h t)"
  using assms by (auto simp: listed_def Let_def)

lemma spell_inv_observe:
  assumes "spell_inv obs h opn closed" "\<And>ob'. ob' \<in> set obs \<Longrightarrow> ob_at ob' < ob_at ob"
  shows "spell_inv (obs @ [ob]) h
    (if h \<in> set (ob_maintainers ob) then Some (case opn of
        Some s \<Rightarrow> s\<lparr>sp_observed := sp_observed s + 1\<rparr>
      | None \<Rightarrow> \<lparr>sp_from = ob_at ob, sp_to = open_interval, sp_observed = 1\<rparr>) else None)
    (closed @ (if h \<in> set (ob_maintainers ob) then [] else (case opn of None \<Rightarrow> [] | Some s \<Rightarrow> [s\<lparr>sp_to := ob_at ob\<rparr>])))"
proof -
  have last_less: "obs \<noteq> [] \<Longrightarrow> ob_at (last obs) < ob_at ob" using assms(2) by simp
  have I: "opn \<noteq> None \<longleftrightarrow> obs \<noteq> [] \<and> h \<in> set (ob_maintainers (last obs))"
    "\<And>s. opn = Some s \<Longrightarrow> sp_from s \<le> ob_at (last obs) \<and> sp_to s = open_interval \<and> (\<forall>c \<in> set closed. sp_to c < sp_from s)"
    "\<And>c. c \<in> set closed \<Longrightarrow> sp_from c < sp_to c \<and> sp_to c < ob_at ob"
    "sorted_wrt (\<lambda>a b. sp_to a < sp_from b) closed"
    "\<And>t. listed obs h t \<longleftrightarrow> (\<exists>c \<in> set closed. in_spell t c) \<or> (\<exists>s. opn = Some s \<and> sp_from s \<le> t)"
    using assms(1) last_less unfolding spell_inv_def by (blast, blast, fastforce, blast, blast)
  have from_less: "\<And>s. opn = Some s \<Longrightarrow> sp_from s < ob_at ob" using I(1,2) last_less by fastforce
  show ?thesis
  proof (cases opn)
    case None
    then show ?thesis using I(3-5)
      by (auto simp: spell_inv_def listed_snoc [OF assms(2)] sorted_wrt_append) (fastforce dest: I(3))+
  next
    case (Some s)
    then show ?thesis using I(2-5) from_less by (auto simp: spell_inv_def listed_snoc [OF assms(2)] sorted_wrt_append)
  qed
qed

lemma observe_all:
  assumes "sorted_wrt (\<lambda>a b. ob_at a < ob_at b) obs" "foldl observe ([], []) obs = (opn, out)"
  shows "spell_inv obs h (map_of opn h) (getd [] out h) \<and> distinct (keys opn)"
  using assms
proof (induction obs arbitrary: opn out rule: rev_induct)
  case Nil
  then show ?case by (simp add: spell_inv_def listed_def)
next
  case (snoc ob obs)
  obtain o1 u1 where one: "foldl observe ([], []) obs = (o1, u1)" by fastforce
  have less: "\<And>ob'. ob' \<in> set obs \<Longrightarrow> ob_at ob' < ob_at ob" and sorted: "sorted_wrt (\<lambda>a b. ob_at a < ob_at b) obs"
    using snoc.prems(1) by (auto simp: sorted_wrt_append)
  have "observe (o1, u1) ob = (opn, out)" using snoc.prems(2) one by simp
  from observe_spells [OF this, of h] spell_inv_observe [OF conjunct1 [OF snoc.IH [OF sorted one]] less] snoc.IH [OF sorted one]
  show ?case by simp
qed

lemma append_open:
  "distinct (keys opn) \<Longrightarrow> getd [] (foldl (\<lambda>m hs. put (fst hs) (getd [] m (fst hs) @ [snd hs]) m) out opn) h =
     getd [] out h @ (case map_of opn h of None \<Rightarrow> [] | Some s \<Rightarrow> [s])"
proof (induction opn arbitrary: out)
  case (Cons p opn)
  obtain k s where p: "p = (k, s)" by fastforce
  have d: "k \<notin> set (keys opn)" "distinct (keys opn)" using Cons.prems by (simp_all add: keys_def p)
  then have "map_of opn k = None" using has_key_iff [of opn k] by (simp add: has_key_def)
  then show ?case using Cons.IH [OF d(2)] by (simp add: p)
qed simp

lemma listed_latest:
  "sorted_wrt (\<lambda>a b. ob_at a < ob_at b) obs \<Longrightarrow> listed obs h t \<longleftrightarrow>
     (\<exists>ob \<in> set obs. ob_at ob \<le> t \<and> h \<in> set (ob_maintainers ob) \<and> (\<forall>ob' \<in> set obs. ob_at ob' \<le> t \<longrightarrow> ob_at ob' \<le> ob_at ob))"
proof (induction obs rule: rev_induct)
  case Nil
  then show ?case by (simp add: listed_def)
next
  case (snoc ob obs)
  then have less: "\<And>ob'. ob' \<in> set obs \<Longrightarrow> ob_at ob' < ob_at ob" and sorted: "sorted_wrt (\<lambda>a b. ob_at a < ob_at b) obs"
    by (auto simp: sorted_wrt_append)
  let ?latest = "\<lambda>obs x. ob_at x \<le> t \<and> h \<in> set (ob_maintainers x) \<and> (\<forall>y \<in> set obs. ob_at y \<le> t \<longrightarrow> ob_at y \<le> ob_at x)"
  show ?case
  proof (cases "ob_at ob \<le> t")
    case True
    have "(\<exists>x \<in> set (obs @ [ob]). ?latest (obs @ [ob]) x) \<longleftrightarrow> h \<in> set (ob_maintainers ob)"
    proof
      assume "\<exists>x \<in> set (obs @ [ob]). ?latest (obs @ [ob]) x"
      then obtain x where x: "x \<in> set (obs @ [ob])" "?latest (obs @ [ob]) x" by blast
      then have "ob_at ob \<le> ob_at x" using True by simp
      then have "x = ob" using x(1) less by fastforce
      then show "h \<in> set (ob_maintainers ob)" using x by simp
    next
      assume "h \<in> set (ob_maintainers ob)"
      then show "\<exists>x \<in> set (obs @ [ob]). ?latest (obs @ [ob]) x"
        using True less by (intro bexI [of _ ob]) (auto intro: less_imp_le)
    qed
    then show ?thesis using True by (simp only: listed_snoc [OF less] if_True)
  next
    case False
    then have "(\<exists>x \<in> set (obs @ [ob]). ?latest (obs @ [ob]) x) \<longleftrightarrow> (\<exists>x \<in> set obs. ?latest obs x)" by simp
    then show ?thesis using False snoc.IH [OF sorted] by (simp only: listed_snoc [OF less] if_False)
  qed
qed

interpretation by_time: slice_order "\<lambda>a b. ob_at a < ob_at b" "\<lambda>_. True"
  by (rule slice_order_key)

text \<open>
  C5: The spells of an account are its presence: when the observations are at different instants, an account
  holds a spell at an instant exactly when it is in the last maintainer set observed by then; its spells are
  not empty and lie apart in order, so their start instants, which tell their edges apart, differ.
\<close>

theorem spells_are_presence:
  assumes "distinct (List.map ob_at obs)" "\<And>ob. ob \<in> set obs \<Longrightarrow> ob_at ob < open_interval" "t < open_interval"
  shows "((\<exists>s \<in> set (getd [] (spells obs) h). in_spell t s) \<longleftrightarrow>
      (\<exists>ob \<in> set obs. ob_at ob \<le> t \<and> h \<in> set (ob_maintainers ob) \<and> (\<forall>ob' \<in> set obs. ob_at ob' \<le> t \<longrightarrow> ob_at ob' \<le> ob_at ob)))
    \<and> (\<forall>s \<in> set (getd [] (spells obs) h). sp_from s < sp_to s)
    \<and> sorted_wrt (\<lambda>a b. sp_to a < sp_from b) (getd [] (spells obs) h)"
proof -
  let ?s = "sort_slice (\<lambda>a b. ob_at a < ob_at b) obs"
  obtain opn out where f: "foldl observe ([], []) ?s = (opn, out)" by fastforce
  have "mset (List.map ob_at ?s) = mset (List.map ob_at obs)" by simp
  then have "distinct (List.map ob_at ?s)" using assms(1) mset_eq_imp_distinct_iff by blast
  moreover have "sorted (List.map ob_at ?s)"
    using by_time.sorted_sort_slice [of obs] by (simp add: sorted_map not_less)
  ultimately have "sorted_wrt (<) (List.map ob_at ?s)" using strict_sorted_iff by blast
  then have sorted: "sorted_wrt (\<lambda>a b. ob_at a < ob_at b) ?s" by (simp add: sorted_wrt_map)
  note inv = observe_all [OF sorted f, of h]
  have E: "getd [] (spells obs) h = getd [] out h @ (case map_of opn h of None \<Rightarrow> [] | Some s \<Rightarrow> [s])"
    using append_open [of opn out h] inv f by (cases "obs = []") (simp_all add: spells_def)
  have I: "\<And>s. map_of opn h = Some s \<Longrightarrow> sp_from s \<le> ob_at (last ?s) \<and> sp_to s = open_interval \<and> (\<forall>c \<in> set (getd [] out h). sp_to c < sp_from s)"
    "\<And>c. c \<in> set (getd [] out h) \<Longrightarrow> sp_from c < sp_to c" "sorted_wrt (\<lambda>a b. sp_to a < sp_from b) (getd [] out h)"
    "listed ?s h t \<longleftrightarrow> (\<exists>c \<in> set (getd [] out h). in_spell t c) \<or> (\<exists>s. map_of opn h = Some s \<and> sp_from s \<le> t)"
    "map_of opn h \<noteq> None \<Longrightarrow> ?s \<noteq> []"
    using inv unfolding spell_inv_def by blast+
  have opened: "sp_from s < open_interval" if "map_of opn h = Some s" for s
  proof -
    have "last ?s \<in> set obs" using I(5) that last_in_set [of ?s] by simp
    then have "ob_at (last ?s) < open_interval" by (rule assms(2))
    then show ?thesis using I(1) [OF that] by linarith
  qed
  note L = listed_latest [OF sorted, of h t, unfolded set_sort_slice]
  show ?thesis
  proof (cases "map_of opn h")
    case None
    then show ?thesis using I(2-4) unfolding E L [symmetric] by simp
  next
    case (Some s)
    have "in_spell t s \<longleftrightarrow> sp_from s \<le> t" using I(1) [OF Some] assms(3) by simp
    then show ?thesis using I(1-4) opened [OF Some] unfolding E L [symmetric] by (auto simp: Some sorted_wrt_append)
  qed
qed

abbreviation two_observations :: "observation list" where
  "two_observations \<equiv> [\<lparr>ob_at = 200, ob_maintainers = [''b'']\<rparr>, \<lparr>ob_at = 100, ob_maintainers = [''a'', ''b'']\<rparr>]"

theorem spells_are_presence_witness:
  "(\<exists>s \<in> set (getd [] (spells two_observations) ''a''). in_spell 150 s)
   \<and> \<not> (\<exists>s \<in> set (getd [] (spells two_observations) ''a''). in_spell 250 s)"
proof -
  have d: "distinct (List.map ob_at two_observations)" by simp
  have b: "ob_at ob < open_interval" if "ob \<in> set two_observations" for ob using that by (auto simp: open_interval_def)
  have "(150 :: int) < open_interval" "(250 :: int) < open_interval" by (simp_all add: open_interval_def)
  from spells_are_presence [OF d b this(1), of "''a''"] spells_are_presence [OF d b this(2), of "''a''"]
  show ?thesis by simp
qed

subsection \<open>Batches reach the graph, nodes first\<close>

text \<open>The rows of a batch with their statements, and the field each statement identifies its row by.\<close>

definition statement_rows :: "rows \<Rightarrow> (string \<times> row) set" where
  "statement_rows r = (\<Union>(n, s, rs) \<in> set (write_order r). {s} \<times> set rs)"

definition edge_statements :: "string set" where
  "edge_statements = {link_has_version, link_sampled, link_depends_on, link_maintains}"

definition statement_key :: "string \<Rightarrow> string" where
  "statement_key s = (if s \<in> edge_statements then ''id'' else ''vertex'')"

lemmas statement_defs = upsert_package_def upsert_package_ref_def upsert_version_def annotate_version_def
  upsert_maintainer_def link_has_version_def link_depends_on_def link_maintains_def link_sampled_def

lemma statement_keys [simp]:
  "statement_key upsert_package = ''vertex''" "statement_key upsert_package_ref = ''vertex''"
  "statement_key upsert_version = ''vertex''" "statement_key annotate_version = ''vertex''"
  "statement_key upsert_maintainer = ''vertex''" "statement_key link_has_version = ''id''"
  "statement_key link_sampled = ''id''" "statement_key link_depends_on = ''id''" "statement_key link_maintains = ''id''"
  by (simp_all add: statement_key_def edge_statements_def) (simp_all add: statement_defs)

lemma statement_rows_eq:
  "statement_rows r = {upsert_package} \<times> set (rw_packages r) \<union> {upsert_package_ref} \<times> set (rw_references r)
     \<union> {upsert_version} \<times> set (rw_versions r) \<union> {upsert_maintainer} \<times> set (rw_maintainers r)
     \<union> {annotate_version} \<times> set (rw_annotations r) \<union> {link_has_version} \<times> set (rw_has_version r)
     \<union> {link_sampled} \<times> set (rw_sampled r) \<union> {link_depends_on} \<times> set (rw_depends_on r)
     \<union> {link_maintains} \<times> set (rw_maintains r)"
  by (simp add: statement_rows_def write_order_def Un_assoc)

lemma statement_rows_append: "statement_rows (append_rows a b) = statement_rows a \<union> statement_rows b"
  unfolding statement_rows_eq by (simp add: append_rows_def Sigma_Un_distrib2) blast

lemma write_order_dedupe:
  "write_order (dedupe_rows r) = List.map (\<lambda>(n, s, rs). (n, s, dedupe (statement_key s) rs)) (write_order r)"
  by (simp add: write_order_def dedupe_rows_def)

lemma dedupe_loop_keeps:
  "row \<in> set rs \<Longrightarrow> (\<exists>row' \<in> set (dedupe_loop key seen rs). getd PNull row' key = getd PNull row key)
     \<or> (\<exists>i \<in> set seen. getd PNull row key = PInt i)"
proof (induction key seen rs rule: dedupe_loop.induct)
  case (2 key seen r rs)
  show ?case
  proof (cases "row = r")
    case True
    then show ?thesis by (auto split: prim.splits)
  next
    case False
    then have "row \<in> set rs" using 2 by simp
    then show ?thesis using "2.IH" "2.prems" by (cases "getd PNull r key") auto
  qed
qed simp

lemma dedupe_keeps: "row \<in> set rs \<Longrightarrow> \<exists>row' \<in> set (dedupe key rs). getd PNull row' key = getd PNull row key"
  using dedupe_loop_keeps [of row rs key "[]"] by (auto simp: dedupe_def)

lemma dedupe_rows_keeps:
  assumes "(s, row) \<in> statement_rows r"
  shows "\<exists>row'. (s, row') \<in> statement_rows (dedupe_rows r) \<and> getd PNull row' (statement_key s) = getd PNull row (statement_key s)"
proof -
  obtain n rs where n: "(n, s, rs) \<in> set (write_order r)" "row \<in> set rs" using assms by (auto simp: statement_rows_def)
  then have "(n, s, dedupe (statement_key s) rs) \<in> set (write_order (dedupe_rows r))" unfolding write_order_dedupe by force
  moreover obtain row' where "row' \<in> set (dedupe (statement_key s) rs)" "getd PNull row' (statement_key s) = getd PNull row (statement_key s)"
    using dedupe_keeps [OF n(2)] by blast
  ultimately show ?thesis unfolding statement_rows_def by blast
qed

lemma write_steps_append:
  "write_steps run transient ended batch (xs @ ys) w =
     (case write_steps run transient ended batch xs w of
        (Some e, w') \<Rightarrow> (Some e, w') | (None, w') \<Rightarrow> write_steps run transient ended batch ys w')"
  by (induction xs arbitrary: w) (auto split: prod.splits option.splits)

definition steps_rows :: "(string \<times> string \<times> row list) list \<Rightarrow> (string \<times> row) set" where
  "steps_rows steps = (\<Union>(n, s, rs) \<in> set steps. {s} \<times> set rs)"

definition ingest_covers :: "rows \<Rightarrow> package_rows \<Rightarrow> bool" where
  "ingest_covers pending pr \<longleftrightarrow> statement_rows (pr_rows pr) \<subseteq> statement_rows pending"

definition ingest_merged :: "('w \<Rightarrow> (string \<times> row) set) \<Rightarrow> 'w \<times> ingest_stats \<Rightarrow> package_rows \<Rightarrow> bool" where
  "ingest_merged rows_in ws pr \<longleftrightarrow> (\<forall>(s, row) \<in> statement_rows (pr_rows pr).
     \<exists>row'. (s, row') \<in> rows_in (fst ws) \<and> getd PNull row' (statement_key s) = getd PNull row (statement_key s))"

context merge_store
begin

lemma write_steps_rows:
  "write_steps run transient ended batch steps w = (e, w') \<Longrightarrow>
     rows_in w \<subseteq> rows_in w' \<and> rows_in w' \<subseteq> rows_in w \<union> steps_rows steps
     \<and> (e = None \<longrightarrow> rows_in w' = rows_in w \<union> steps_rows steps)"
proof (induction steps arbitrary: w)
  case Nil
  then show ?case by (simp add: steps_rows_def)
next
  case (Cons x steps)
  obtain n s rs where x: "x = (n, s, rs)" by (metis prod_cases3)
  have rows: "steps_rows (x # steps) = {s} \<times> set rs \<union> steps_rows steps" by (simp add: steps_rows_def x)
  show ?case
  proof (cases "rs = []")
    case True
    then show ?thesis using Cons.IH [of w] Cons.prems unfolding rows by (simp add: x)
  next
    case False
    obtain k r w1 where b: "write_batch run transient ended s rs batch w = (k, r, w1)" by (metis prod_cases3)
    note B = write_batch_rows [OF b]
    show ?thesis
    proof (cases r)
      case None
      then have "write_steps run transient ended batch steps w1 = (e, w')" using Cons.prems False b by (simp add: x)
      note IH = Cons.IH [OF this]
      have w1: "rows_in w1 = rows_in w \<union> {s} \<times> set rs" using B None by simp
      show ?thesis using IH unfolding rows w1 by (simp add: Un_assoc)
    next
      case (Some y)
      then have e: "e \<noteq> None" "w' = w1" using Cons.prems False b by (auto simp: x)
      have "rows_in w \<subseteq> rows_in w1" "rows_in w1 \<subseteq> rows_in w \<union> {s} \<times> set rs" using B by blast+
      then show ?thesis using e unfolding rows e(2) by blast
    qed
  qed
qed

lemma write_nodes_first:
  assumes "write_steps run transient ended batch (write_order r) w = (e, w')"
    and "(s, row) \<in> rows_in w' - rows_in w" "s \<in> edge_statements"
  shows "{(s, row) \<in> statement_rows r. s \<notin> edge_statements} \<subseteq> rows_in w'"
proof -
  let ?nodes = "take 5 (write_order r)" and ?edges = "drop 5 (write_order r)"
  obtain e1 w1 where n: "write_steps run transient ended batch ?nodes w = (e1, w1)" by fastforce
  note N = write_steps_rows [OF n]
  have nodes: "steps_rows ?nodes = {(s, row) \<in> statement_rows r. s \<notin> edge_statements}"
    by (auto simp: steps_rows_def statement_rows_def write_order_def edge_statements_def) (simp_all add: statement_defs)
  have split: "write_steps run transient ended batch (write_order r) w =
      (case (e1, w1) of (Some e, w') \<Rightarrow> (Some e, w') | (None, w') \<Rightarrow> write_steps run transient ended batch ?edges w')"
    using write_steps_append [of run transient ended batch ?nodes ?edges w] by (simp only: append_take_drop_id n)
  have "e1 = None"
  proof (rule ccontr)
    assume "e1 \<noteq> None"
    then have "w' = w1" using assms(1) split by auto
    then have "(s, row) \<in> steps_rows ?nodes" using N assms(2) by blast
    then show False using nodes assms(3) by blast
  qed
  then have "write_steps run transient ended batch ?edges w1 = (e, w')" using assms(1) split by simp
  from write_steps_rows [OF this] N \<open>e1 = None\<close> show ?thesis unfolding nodes [symmetric] by blast
qed

lemma ingest_write_rows:
  assumes "ingest_write run transient ended batch pending ws = (e, ws')"
  shows "rows_in (fst ws) \<subseteq> rows_in (fst ws')
    \<and> (e = None \<longrightarrow> rows_in (fst ws') = rows_in (fst ws) \<union> statement_rows (dedupe_rows pending))"
proof -
  obtain e1 w1 where s: "write_steps run transient ended batch (write_order (dedupe_rows pending)) (fst ws) = (e1, w1)" by fastforce
  have "fst ws' = w1" "e = e1" using assms s by (auto simp: ingest_write_def Let_def split: prod.splits option.splits)
  then show ?thesis using write_steps_rows [OF s] by (simp add: steps_rows_def statement_rows_def)
qed

end

sublocale merge_store \<subseteq> ingesting: flusher pr_name take_package count_requests "\<lambda>r. node_count r + edge_count r"
    "ingest_write run transient ended batch" no_rows ingest_covers "ingest_merged rows_in"
  for transient ended batch
proof
  show "ingest_covers (take_package r p) r" "ingest_covers p r' \<Longrightarrow> ingest_covers (take_package r p) r'" for p r r'
    by (auto simp: ingest_covers_def take_package_def statement_rows_append)
  show "ingest_merged rows_in w r' \<Longrightarrow> ingest_merged rows_in (count_requests r w) r'" for w :: "'w \<times> ingest_stats" and r r'
    by (simp add: ingest_merged_def count_requests_def)
  show "ingest_merged rows_in w' r'"
    if "ingest_write run transient ended batch p w = (e, w')" "ingest_merged rows_in w r'" for p w e w' r'
    using ingest_write_rows [OF that(1)] that(2) unfolding ingest_merged_def by blast
  show "ingest_merged rows_in w' r'"
    if "ingest_write run transient ended batch p w = (None, w')" "ingest_covers p r'" for p w w' r'
    unfolding ingest_merged_def
  proof (clarify)
    fix s row assume "(s, row) \<in> statement_rows (pr_rows r')"
    then have "(s, row) \<in> statement_rows p" using that(2) unfolding ingest_covers_def by blast
    then obtain row' where "(s, row') \<in> statement_rows (dedupe_rows p)" "getd PNull row' (statement_key s) = getd PNull row (statement_key s)"
      using dedupe_rows_keeps by blast
    then show "\<exists>row'. (s, row') \<in> rows_in (fst w') \<and> getd PNull row' (statement_key s) = getd PNull row (statement_key s)"
      using ingest_write_rows [OF that(1)] by blast
  qed
qed

context merge_store
begin

lemma ingest_kept:
  assumes "append_file println sync contents"
    and "ingest_write_loop run transient ended batch println sync prs
      \<lparr>wr_pending = no_rows, wr_names = [], wr_world = (w, stats), wr_cp = cp\<rparr> = (e, st)"
  shows "(\<forall>n \<in> set (cp_done (wr_cp st)) - set (cp_done cp). \<exists>pr \<in> set prs. pr_name pr = n
        \<and> (\<forall>(s, row) \<in> statement_rows (pr_rows pr). \<exists>row'. (s, row') \<in> rows_in (fst (wr_world st))
             \<and> getd PNull row' (statement_key s) = getd PNull row (statement_key s)))
    \<and> (e = None \<longrightarrow> set (cp_done (wr_cp st)) = set (cp_done cp) \<union> pr_name ` set prs)"
proof -
  have "ingesting.kept (set (cp_done cp)) {} \<lparr>wr_pending = no_rows, wr_names = [], wr_world = (w, stats), wr_cp = cp\<rparr>"
    by (simp add: ingesting.kept_def)
  from ingesting.flush_loop_kept [OF assms(1) this assms(2) [unfolded ingest_write_loop_def]]
  show ?thesis unfolding ingesting.kept_def ingest_merged_def by auto
qed

end


text \<open>
  C8: Nodes go before the edges that reference them: as soon as one edge row of a batch is in the graph, so is every
  node row of that batch, also when the write stops half way.
\<close>

theorem nodes_before_edges:
  assumes "merge_store run rows_in" "ingest_write run transient ended batch pending (w, stats) = (e, w', stats')"
    and "(s, row) \<in> rows_in w' - rows_in w" "s \<in> edge_statements"
  shows "{(s, row) \<in> statement_rows (dedupe_rows pending). s \<notin> edge_statements} \<subseteq> rows_in w'"
proof -
  obtain e1 w1 where s: "write_steps run transient ended batch (write_order (dedupe_rows pending)) w = (e1, w1)" by fastforce
  then have "w' = w1" using assms(2) by (auto simp: ingest_write_def Let_def split: option.splits)
  then show ?thesis using merge_store.write_nodes_first [OF assms(1) s] assms(3,4) by blast
qed

text \<open>One package with one version, written to an empty graph.\<close>

abbreviation left_pad :: package_rows where
  "left_pad \<equiv> \<lparr>pr_name = ''left-pad'', pr_rows = no_rows\<lparr>rw_packages := [[(''vertex'', PInt 7)]], rw_versions := [[(''vertex'', PInt 8)]],
     rw_has_version := [[(''id'', PInt 9), (''src'', PInt 7), (''dst'', PInt 8)]]\<rparr>, pr_requests = 1\<rparr>"

abbreviation no_stats :: ingest_stats where
  "no_stats \<equiv> \<lparr>is_packages = 0, is_skipped = 0, is_missing = 0, is_nodes = 0, is_edges = 0, is_requests = 0\<rparr>"

lemmas write_eval = ingest_write_def dedupe_rows_def dedupe_def write_order_def no_rows_def append_rows_def take_package_def
  write_batch_def max_batch_def write_chunks.simps run_chunk_def numeral_3_eq_3 mem_run_def Let_def


theorem nodes_before_edges_witness:
  "let (e, w', stats') = ingest_write mem_run (\<lambda>_. False) (\<lambda>_. None) 256 (pr_rows left_pad) (\<lparr>mem_script = [], mem_rows = []\<rparr>, no_stats)
   in (upsert_version, [(''vertex'', PInt 8)]) \<in> set (mem_rows w')"
proof -
  let ?edge = "[(''id'', PInt 9), (''src'', PInt 7), (''dst'', PInt 8)] :: row"
  obtain e w' stats' where r: "ingest_write mem_run (\<lambda>_. False) (\<lambda>_. None) 256 (pr_rows left_pad)
      (\<lparr>mem_script = [], mem_rows = []\<rparr>, no_stats) = (e, w', stats')" by (metis prod_cases3)
  have edge: "(link_has_version, ?edge) \<in> set (mem_rows w') - set (mem_rows \<lparr>mem_script = [], mem_rows = []\<rparr>)"
    using r by (auto simp: write_eval)
  have "(upsert_version, [(''vertex'', PInt 8)]) \<in> statement_rows (dedupe_rows (pr_rows left_pad))"
    by (simp add: statement_rows_eq dedupe_rows_def dedupe_def no_rows_def)
  moreover have "upsert_version \<notin> edge_statements" unfolding edge_statements_def by (simp only: statement_defs) simp
  ultimately have m: "(upsert_version, [(''vertex'', PInt 8)]) \<in>
      {(s, row) \<in> statement_rows (dedupe_rows (pr_rows left_pad)). s \<notin> edge_statements}" by blast
  have "link_has_version \<in> edge_statements" by (simp add: edge_statements_def)
  from nodes_before_edges [OF mem.merge_store_axioms r edge this] m
  have "(upsert_version, [(''vertex'', PInt 8)]) \<in> set (mem_rows w')" by (rule subsetD)
  then show ?thesis by (simp only: r Let_def case_prod_conv)
qed

end
