(* ===== verification/Typosquat.thy ===== *)
theory Typosquat
  imports Complex_Main GraphDb Identity
begin

text \<open>
  Lookalike names: \<open>internal/typosquat\<close>. The edit distance is proved to be the least number of single
  character edits between two names, whatever the two rolling rows hold; the search for candidates is proved
  sound and free of duplicates. A ratio of ranks is a rational number.
\<close>

subsection \<open>Runes\<close>

text \<open>
  \<open>[]rune(s)\<close>: the code points of a UTF-8 string; a byte that starts no valid encoding is the
  replacement character on its own. The second byte's lower and upper bounds rule out overlong forms and surrogates.
\<close>

abbreviation byte :: "char \<Rightarrow> nat" where
  "byte c \<equiv> of_char c"

definition continues :: "char \<Rightarrow> bool" where
  "continues c \<longleftrightarrow> 128 \<le> byte c \<and> byte c < 192"

definition rune_error :: nat where
  "rune_error = 65533"

definition decode_rune :: "char \<Rightarrow> string \<Rightarrow> nat \<times> nat" where
  "decode_rune c cs =
     (let b = byte c in
      if b < 128 then (b, 0)
      else if 194 \<le> b \<and> b < 224 \<and> length cs \<ge> 1 \<and> continues (cs ! 0)
      then ((b - 192) * 64 + (byte (cs ! 0) - 128), 1)
      else if 224 \<le> b \<and> b < 240 \<and> length cs \<ge> 2 \<and> continues (cs ! 0) \<and> continues (cs ! 1)
        \<and> (b = 224 \<longrightarrow> byte (cs ! 0) \<ge> 160) \<and> (b = 237 \<longrightarrow> byte (cs ! 0) < 160)
      then ((b - 224) * 4096 + (byte (cs ! 0) - 128) * 64 + (byte (cs ! 1) - 128), 2)
      else if 240 \<le> b \<and> b < 245 \<and> length cs \<ge> 3 \<and> continues (cs ! 0) \<and> continues (cs ! 1) \<and> continues (cs ! 2)
        \<and> (b = 240 \<longrightarrow> byte (cs ! 0) \<ge> 144) \<and> (b = 244 \<longrightarrow> byte (cs ! 0) < 144)
      then ((b - 240) * 262144 + (byte (cs ! 0) - 128) * 4096 + (byte (cs ! 1) - 128) * 64 + (byte (cs ! 2) - 128), 3)
      else (rune_error, 0))"

function runes :: "string \<Rightarrow> nat list" where
  "runes [] = []"
| "runes (c # cs) = (let (r, k) = decode_rune c cs in r # runes (drop k cs))"
  by pat_completeness auto
termination
  by (relation "measure length") auto

subsection \<open>Edit distance\<close>

text \<open>One row from the one before: \<open>lft\<close> is the entry just computed, \<open>diag\<close> the entry above it.\<close>

fun next_entries :: "'a \<Rightarrow> 'a list \<Rightarrow> nat \<Rightarrow> nat \<Rightarrow> nat list \<Rightarrow> nat list" where
  "next_entries b [] lft diag prev = []"
| "next_entries b (a # as) lft diag [] = []"
| "next_entries b (a # as) lft diag (p # ps) =
     (let cost = (if b = a then 0 else 1); cur = min (min (p + 1) (lft + 1)) (diag + cost)
      in cur # next_entries b as cur p ps)"

definition next_row :: "'a list \<Rightarrow> nat \<Rightarrow> nat list \<Rightarrow> 'a \<Rightarrow> nat list" where
  "next_row as i prev b = i # next_entries b as i (hd prev) (tl prev)"

fun rows_loop :: "'a list \<Rightarrow> nat \<Rightarrow> nat list \<Rightarrow> 'a list \<Rightarrow> nat list" where
  "rows_loop as i prev [] = prev"
| "rows_loop as i prev (b # bs) = rows_loop as (i + 1) (next_row as i prev b) bs"

definition rune_distance :: "'a list \<Rightarrow> 'a list \<Rightarrow> nat" where
  "rune_distance ra0 rb0 =
     (let (ra, rb) = (if length ra0 > length rb0 then (rb0, ra0) else (ra0, rb0))
      in rows_loop ra 1 [0..<length ra + 1] rb ! length ra)"

definition edit_distance :: "string \<Rightarrow> string \<Rightarrow> nat" where
  "edit_distance a b = (if a = b then 0 else rune_distance (runes a) (runes b))"

text \<open>The reference: alignments of two lists with their cost, and the least cost by recursion.\<close>

inductive align :: "nat \<Rightarrow> 'a list \<Rightarrow> 'a list \<Rightarrow> bool" where
  nil: "align 0 [] []"
| keep: "align n xs ys \<Longrightarrow> align n (x # xs) (x # ys)"
| subst: "align n xs ys \<Longrightarrow> align (Suc n) (x # xs) (y # ys)"
| del: "align n xs ys \<Longrightarrow> align (Suc n) (x # xs) ys"
| ins: "align n xs ys \<Longrightarrow> align (Suc n) xs (y # ys)"

inductive_cases align_NilL: "align n [] ys"
inductive_cases align_NilR: "align n xs []"
inductive_cases align_Cons: "align n (x # xs) (y # ys)"

fun lev :: "'a list \<Rightarrow> 'a list \<Rightarrow> nat" where
  "lev [] ys = length ys"
| "lev xs [] = length xs"
| "lev (x # xs) (y # ys) =
     min (min (lev xs (y # ys) + 1) (lev (x # xs) ys + 1)) (lev xs ys + (if x = y then 0 else 1))"

lemma lev_NilR [simp]: "lev xs [] = length xs"
  by (cases xs) auto

lemma align_lev: "align (lev xs ys) xs ys"
proof (induction xs ys rule: lev.induct)
  case (1 ys)
  then show ?case by (induction ys) (auto intro: align.intros)
next
  case (2 x xs)
  have "align (length zs) zs []" for zs :: "'a list" by (induction zs) (auto intro: align.intros)
  from this [of "x # xs"] show ?case by simp
next
  case (3 x xs y ys)
  then show ?case by (auto simp: min_def intro: align.intros)
qed

lemma lev_align: "align n xs ys \<Longrightarrow> lev xs ys \<le> n"
proof (induction rule: align.induct)
  case (keep n xs ys x)
  then show ?case by simp
next
  case (del n xs ys x)
  then show ?case by (cases ys) auto
next
  case (ins n xs ys y)
  then show ?case by (cases xs) auto
qed auto

lemma align_append: "align n a b \<Longrightarrow> align m c d \<Longrightarrow> align (n + m) (a @ c) (b @ d)"
  by (induction rule: align.induct) (auto intro: align.intros)

lemma align_rev: "align n xs ys \<Longrightarrow> align n (rev xs) (rev ys)"
proof (induction rule: align.induct)
  case (keep n xs ys x)
  then show ?case using align_append [of n "rev xs" "rev ys" 0 "[x]" "[x]"] by (auto intro: align.intros)
next
  case (subst n xs ys x y)
  then show ?case using align_append [of n "rev xs" "rev ys" 1 "[x]" "[y]"] by (auto intro: align.intros)
next
  case (del n xs ys x)
  then show ?case using align_append [of n "rev xs" "rev ys" 1 "[x]" "[]"] by (auto intro: align.intros)
next
  case (ins n xs ys y)
  then show ?case using align_append [of n "rev xs" "rev ys" 1 "[]" "[y]"] by (auto intro: align.intros)
qed (auto intro: align.intros)

lemma align_sym: "align n xs ys \<Longrightarrow> align n ys xs"
  by (induction rule: align.induct) (auto intro: align.intros)

lemma lev_rev: "lev (rev xs) (rev ys) = lev xs ys"
  using lev_align [OF align_rev [OF align_lev [of xs ys]]] lev_align [OF align_rev [OF align_lev [of "rev xs" "rev ys"]]] by simp

lemma lev_sym: "lev xs ys = lev ys xs"
  using lev_align [OF align_sym [OF align_lev [of xs ys]]] lev_align [OF align_sym [OF align_lev [of ys xs]]] by simp

lemma align_refl: "align 0 xs xs"
  by (induction xs) (auto intro: align.intros)

lemma lev_refl [simp]: "lev xs xs = 0"
  using lev_align [OF align_refl [of xs]] by simp

text \<open>The recursion from the ends of the lists, which the rows follow.\<close>

lemma lev_snoc:
  "lev (xs @ [x]) (ys @ [y]) =
     min (min (lev xs (ys @ [y]) + 1) (lev (xs @ [x]) ys + 1)) (lev xs ys + (if x = y then 0 else 1))"
  using lev_rev [of "xs @ [x]" "ys @ [y]"] lev_rev [of xs "ys @ [y]"] lev_rev [of "xs @ [x]" ys] lev_rev [of xs ys] by simp

lemma next_entries_lev:
  "length ps = length as \<Longrightarrow> lft = lev us (bs @ [b]) \<Longrightarrow> diag = lev us bs \<Longrightarrow>
   (\<And>j. j < length as \<Longrightarrow> ps ! j = lev (us @ take (Suc j) as) bs) \<Longrightarrow>
   next_entries b as lft diag ps = List.map (\<lambda>j. lev (us @ take (Suc j) as) (bs @ [b])) [0..<length as]"
proof (induction b as lft diag ps arbitrary: us rule: next_entries.induct)
  case (3 b a as lft diag p ps)
  have p: "p = lev (us @ [a]) bs" using "3.prems"(4) [of 0] by simp
  have cur: "min (min (p + 1) (lft + 1)) (diag + (if b = a then 0 else 1)) = lev (us @ [a]) (bs @ [b])"
    using "3.prems"(2,3) by (auto simp: lev_snoc p min_def)
  have rest: "next_entries b as (lev (us @ [a]) (bs @ [b])) p ps = List.map (\<lambda>j. lev ((us @ [a]) @ take (Suc j) as) (bs @ [b])) [0..<length as]"
  proof (rule "3.IH" [where us = "us @ [a]", OF refl cur [symmetric, THEN sym, symmetric] _ refl p])
    show "length ps = length as" using "3.prems"(1) by simp
    show "ps ! j = lev ((us @ [a]) @ take (Suc j) as) bs" if "j < length as" for j
      using "3.prems"(4) [of "Suc j"] that by simp
  qed
  have "[0..<length (a # as)] = 0 # List.map Suc [0..<length as]" by (simp add: upt_conv_Cons map_Suc_upt del: upt_Suc)
  then show ?case using cur rest by (simp add: Let_def o_def)
qed auto

lemma rows_loop_lev:
  "prev = List.map (\<lambda>j. lev (take j as) us) [0..<length as + 1] \<Longrightarrow> i = length us + 1 \<Longrightarrow>
   rows_loop as i prev bs = List.map (\<lambda>j. lev (take j as) (us @ bs)) [0..<length as + 1]"
proof (induction bs arbitrary: i prev us)
  case (Cons b bs)
  have upt: "[0..<length as + 1] = 0 # List.map Suc [0..<length as]"
    by (simp add: upt_conv_Cons map_Suc_upt del: upt_Suc)
  have prev: "prev = length us # List.map (\<lambda>j. lev (take (Suc j) as) us) [0..<length as]"
    unfolding Cons.prems upt by simp
  have "next_entries b as i (hd prev) (tl prev) = List.map (\<lambda>j. lev ([] @ take (Suc j) as) (us @ [b])) [0..<length as]"
    by (rule next_entries_lev) (simp_all add: Cons.prems(2) prev)
  then have "next_row as i prev b = List.map (\<lambda>j. lev (take j as) (us @ [b])) [0..<length as + 1]"
    unfolding upt by (simp add: next_row_def Cons.prems o_def del: upt_Suc)
  from Cons.IH [OF this, of "i + 1"] show ?case using Cons.prems(2) by simp
qed simp

lemma rune_distance_lev: "rune_distance xs ys = lev xs ys"
proof -
  have eq: "rows_loop as 1 [0..<length as + 1] bs ! length as = lev as bs" for as bs :: "'a list"
  proof -
    have "[0..<length as + 1] = List.map (\<lambda>j. lev (take j as) []) [0..<length as + 1]"
      by (rule nth_equalityI) (auto simp del: upt_Suc)
    from rows_loop_lev [OF this, of 1 bs] show ?thesis by (simp del: upt_Suc)
  qed
  show ?thesis using eq [of xs ys] eq [of ys xs] by (simp only: rune_distance_def Let_def split: if_splits) (auto simp: lev_sym)
qed

lemma edit_distance_lev: "edit_distance a b = lev (runes a) (runes b)"
  by (simp add: edit_distance_def rune_distance_lev)

lemma edit_distance_sym: "edit_distance a b = edit_distance b a"
  by (simp add: edit_distance_lev lev_sym)

text \<open>One edit of a text: a character inserted, deleted or replaced.\<close>

inductive edit1 :: "'a list \<Rightarrow> 'a list \<Rightarrow> bool" where
  insertion: "edit1 (u @ v) (u @ x # v)"
| deletion: "edit1 (u @ x # v) (u @ v)"
| substitution: "edit1 (u @ x # v) (u @ y # v)"

lemma edit1_Cons: "edit1 xs ys \<Longrightarrow> edit1 (x # xs) (x # ys)"
  by (induction rule: edit1.induct) (metis append_Cons edit1.intros)+

lemma edit1_here: "edit1 xs (y # xs)" "edit1 (x # xs) xs" "edit1 (x # xs) (y # xs)"
  using edit1.intros(1) [of "[]" xs y] edit1.intros(2) [of "[]" x xs] edit1.intros(3) [of "[]" x xs y] by simp_all

lemma edits_Cons: "(edit1 ^^ n) xs ys \<Longrightarrow> (edit1 ^^ n) (x # xs) (x # ys)"
  by (induction n arbitrary: ys) (auto intro: edit1_Cons)

lemma align_edits: "align n xs ys \<Longrightarrow> (edit1 ^^ n) xs ys"
proof (induction rule: align.induct)
  case (subst n xs ys x y)
  then show ?case using relpowp_Suc_I2 [of edit1, OF edit1_here(3) edits_Cons] by metis
next
  case (del n xs ys x)
  then show ?case using relpowp_Suc_I2 [of edit1, OF edit1_here(2)] by metis
next
  case (ins n xs ys y)
  then show ?case using relpowp_Suc_I [of n edit1, OF _ edit1_here(1)] by metis
qed (auto intro: edits_Cons)

text \<open>An alignment splits where its right text does.\<close>

lemma align_split:
  "align n xs zs \<Longrightarrow> zs = u @ w \<Longrightarrow>
     \<exists>xs1 xs2 n1 n2. xs = xs1 @ xs2 \<and> n = n1 + n2 \<and> align n1 xs1 u \<and> align n2 xs2 w"
proof (induction arbitrary: u rule: align.induct)
  case nil
  then show ?case by (auto intro: align.intros)
next
  case (keep n xs ys x)
  show ?case
  proof (cases u)
    case Nil
    then show ?thesis using keep by (metis align.keep align.nil add_0 append_Nil)
  next
    case (Cons c u')
    with keep.prems have "ys = u' @ w" "c = x" by auto
    with keep.IH [of u'] Cons show ?thesis by (metis align.keep append_Cons)
  qed
next
  case (subst n xs ys x y)
  show ?case
  proof (cases u)
    case Nil
    then show ?thesis using subst by (metis align.subst align.nil add_0 append_Nil)
  next
    case (Cons c u')
    with subst.prems have "ys = u' @ w" "c = y" by auto
    with subst.IH [of u'] Cons show ?thesis by (metis align.subst append_Cons add_Suc)
  qed
next
  case (del n xs ys x)
  then obtain xs1 xs2 n1 n2 where "xs = xs1 @ xs2" "n = n1 + n2" "align n1 xs1 u" "align n2 xs2 w" by metis
  then show ?case by (metis align.del append_Cons add_Suc)
next
  case (ins n xs ys y)
  show ?case
  proof (cases u)
    case Nil
    then show ?thesis using ins by (metis align.ins align.nil add_0 append_Nil)
  next
    case (Cons c u')
    with ins.prems have "ys = u' @ w" "c = y" by auto
    with ins.IH [of u'] Cons show ?thesis by (metis align.ins append_Cons add_Suc)
  qed
qed

lemma align_drop: "align n xs zs \<Longrightarrow> zs = y # v \<Longrightarrow> \<exists>m \<le> Suc n. align m xs v"
proof (induction rule: align.induct)
  case (keep n xs ys x)
  then show ?case by (metis align.del order_refl list.inject)
next
  case (subst n xs ys x y)
  then show ?case by (metis align.del le_Suc_eq list.inject)
next
  case (del n xs ys x)
  then show ?case by (metis align.del Suc_le_mono)
next
  case (ins n xs ys y)
  then show ?case by (intro exI [of _ n]) auto
qed auto

lemma align_change: "align n xs zs \<Longrightarrow> zs = y # v \<Longrightarrow> \<exists>m \<le> Suc n. align m xs (z # v)"
proof (induction rule: align.induct)
  case (keep n xs ys x)
  then show ?case by (metis align.subst order_refl list.inject)
next
  case (subst n xs ys x y)
  then show ?case by (metis align.subst le_Suc_eq list.inject)
next
  case (del n xs ys x)
  then show ?case by (metis align.del Suc_le_mono)
next
  case (ins n xs ys y)
  then show ?case by (metis align.ins le_Suc_eq list.inject)
qed auto

lemma align_edit1: "edit1 ys zs \<Longrightarrow> align n xs ys \<Longrightarrow> \<exists>m \<le> Suc n. align m xs zs"
proof (induction rule: edit1.induct)
  case (insertion u v x)
  from align_split [OF this refl] obtain a b n1 n2 where
    "xs = a @ b" "n = n1 + n2" "align n1 a u" "align n2 b v" by auto
  then show ?case using align_append [OF _ align.ins, of n1 a u n2 b v x] by auto
next
  case (deletion u x v)
  from align_split [OF this refl] obtain a b n1 n2 where
    *: "xs = a @ b" "n = n1 + n2" "align n1 a u" "align n2 b (x # v)" by auto
  from align_drop [OF *(4) refl] obtain m where "m \<le> Suc n2" "align m b v" by auto
  with * align_append [of n1 a u m b v] show ?case by (intro exI [of _ "n1 + m"]) auto
next
  case (substitution u x v y)
  from align_split [OF this refl] obtain a b n1 n2 where
    *: "xs = a @ b" "n = n1 + n2" "align n1 a u" "align n2 b (x # v)" by auto
  from align_change [OF *(4) refl, of y] obtain m where "m \<le> Suc n2" "align m b (y # v)" by auto
  with * align_append [of n1 a u m b "y # v"] show ?case by (intro exI [of _ "n1 + m"]) auto
qed

lemma lev_edits: "(edit1 ^^ n) xs ys \<Longrightarrow> lev xs ys \<le> n"
proof (induction n arbitrary: ys)
  case (Suc n)
  then obtain zs where "(edit1 ^^ n) xs zs" "edit1 zs ys" by auto
  with Suc.IH [of zs] align_edit1 [OF _ align_lev [of xs zs], of ys] show ?case
    by (metis Suc_le_mono lev_align order_trans)
qed simp

text \<open>C17: the edit distance between two names is the least number of single character insertions,
  deletions and substitutions that turn the code points of one into those of the other.\<close>

theorem edit_distance_minimal:
  "edit_distance a b = (LEAST n. (edit1 ^^ n) (runes a) (runes b))"
  by (rule sym, rule Least_equality)
    (use align_edits [OF align_lev [of "runes a" "runes b"]] lev_edits in \<open>auto simp: edit_distance_lev\<close>)

subsection \<open>Normalisation\<close>

text \<open>
  \<open>strings.NewReplacer(...).Replace\<close>: at every position the first pair whose old text starts there is
  replaced, and the scan goes on after it; no old text is empty here.
\<close>

function replace_all :: "(string \<times> string) list \<Rightarrow> string \<Rightarrow> string" where
  "replace_all ps [] = []"
| "replace_all ps (c # cs) =
     (case find (\<lambda>(old, nw). old \<noteq> [] \<and> has_prefix old (c # cs)) ps of
        None \<Rightarrow> c # replace_all ps cs
      | Some (old, nw) \<Rightarrow> nw @ replace_all ps (drop (length old - 1) cs))"
  by pat_completeness auto
termination
  by (relation "measure (\<lambda>(ps, s). length s)") auto

definition homoglyphs :: "(string \<times> string) list" where
  "homoglyphs =
     [(''0'', ''o''), (''1'', ''l''), (''3'', ''e''), (''4'', ''a''), (''5'', ''s''), (''7'', ''t''),
      (''rn'', ''m''), (''vv'', ''w'')]"

definition separators :: "(string \<times> string) list" where
  "separators = [(''-'', []), (''_'', []), (''.'', [])]"

text \<open>
  \<open>strings.ToLower\<close>: by arithmetic on an ASCII text, by Unicode's case tables, the parameter \<open>tables\<close>, on any other.
\<close>

definition lower_byte :: "char \<Rightarrow> char" where
  "lower_byte c = (if 65 \<le> byte c \<and> byte c \<le> 90 then char_of (byte c + 32) else c)"

definition to_lower :: "(string \<Rightarrow> string) \<Rightarrow> string \<Rightarrow> string" where
  "to_lower tables s = (if list_all (\<lambda>c. byte c < 128) s then List.map lower_byte s else tables s)"

definition normalize :: "(string \<Rightarrow> string) \<Rightarrow> string \<Rightarrow> string" where
  "normalize tables name =
     (let (scope, rest) = (case cut_str name ''/'' of None \<Rightarrow> ([], name) | Some (s, r) \<Rightarrow> (s, r));
          rest = to_lower tables rest;
          rest = replace_all homoglyphs rest;
          rest = replace_all separators rest
      in if scope = [] then rest else to_lower tables scope @ ''/'' @ rest)"

subsection \<open>Candidates\<close>

record squat_pair =
  popular :: string
  lookalike :: string
  cand_distance :: nat
  popularity_ratio :: rat

definition neighbour_window :: nat where
  "neighbour_window = 20"

definition unranked :: int where
  "unranked = 2 ^ 63 - 1"

definition pair_key :: "string \<Rightarrow> string \<Rightarrow> string \<times> string" where
  "pair_key a b = (if a < b then (a, b) else (b, a))"

definition rank_of :: "(string, int) gomap \<Rightarrow> string \<Rightarrow> int" where
  "rank_of ranks name = (case map_of ranks name of Some r \<Rightarrow> r | None \<Rightarrow> unranked)"

definition orient :: "string \<Rightarrow> string \<Rightarrow> nat \<Rightarrow> (string, int) gomap \<Rightarrow> squat_pair" where
  "orient a b d ranks =
     (let ra = rank_of ranks a; rb = rank_of ranks b;
          (pop, look, pop_rank, look_rank) = (if rb < ra then (b, a, rb, ra) else (a, b, ra, rb))
      in \<lparr>popular = pop, lookalike = look, cand_distance = d, popularity_ratio = of_int look_rank / of_int pop_rank\<rparr>)"

text \<open>
  The two loops over the entries in the order of their normal forms: each entry, a name and its normal
  form, with the \<open>window\<close> entries after it. The state is the pairs seen and the candidates so far.
\<close>

type_synonym named_form = "string \<times> string"

fun compare_with ::
  "(string, int) gomap \<Rightarrow> int \<Rightarrow> named_form \<Rightarrow> named_form list \<Rightarrow> (string \<times> string) list \<times> squat_pair list \<Rightarrow>
   (string \<times> string) list \<times> squat_pair list" where
  "compare_with ranks max_distance a [] st = st"
| "compare_with ranks max_distance a (b # bs) st =
     compare_with ranks max_distance a bs
       (if fst a = fst b then st
        else let d = edit_distance (snd a) (snd b)
          in if int d > max_distance then st
          else let pair = pair_key (fst a) (fst b)
            in if pair \<in> set (fst st) then st
            else (fst st @ [pair], snd st @ [orient (fst a) (fst b) d ranks]))"

fun compare_all ::
  "(string, int) gomap \<Rightarrow> int \<Rightarrow> named_form list \<Rightarrow> (string \<times> string) list \<times> squat_pair list \<Rightarrow>
   (string \<times> string) list \<times> squat_pair list" where
  "compare_all ranks max_distance [] st = st"
| "compare_all ranks max_distance (e # es) st =
     compare_all ranks max_distance es (compare_with ranks max_distance e (take neighbour_window es) st)"

definition sorted_entries :: "(string \<Rightarrow> string) \<Rightarrow> string list \<Rightarrow> named_form list" where
  "sorted_entries tables names =
     sort_slice (\<lambda>x y. snd x < snd y) (List.map (\<lambda>n. (n, normalize tables n)) names)"

definition find_candidates ::
  "(string \<Rightarrow> string) \<Rightarrow> string list \<Rightarrow> (string, int) gomap \<Rightarrow> int \<Rightarrow> squat_pair list" where
  "find_candidates tables names ranks max_distance =
     snd (compare_all ranks max_distance (sorted_entries tables names) ([], []))"

text \<open>
  The batch that writes candidates as \<open>TYPOSQUAT_OF\<close> edges, from the lookalike to the popular name.
  \<open>float\<close> gives the bits of the \<open>float64\<close> nearest to a ratio.
\<close>

definition link_typosquat_of :: string where
  "link_typosquat_of = ''UNWIND $rows AS row MATCH (s:Package {id: row.src}), (d:Package {id: row.dst}) ''
     @ ''MERGE (s)-[r:TYPOSQUAT_OF {id: row.id}]->(d) SET r.distance = row.distance, r.popularity_ratio = row.popularity_ratio''"

definition typosquat_row :: "(rat \<Rightarrow> nat) \<Rightarrow> squat_pair \<Rightarrow> row" where
  "typosquat_row float c =
     (let src = package_urn ''npm'' (lookalike c); dst = package_urn ''npm'' (popular c) in
      [(''id'', PInt (edge_id src ''TYPOSQUAT_OF'' dst [])), (''src'', PInt (node_id src)), (''dst'', PInt (node_id dst)),
       (''distance'', PInt (int (cand_distance c))), (''popularity_ratio'', PFloat (float (popularity_ratio c)))])"

definition write_typosquats ::
  "(rat \<Rightarrow> nat) \<Rightarrow> 'w runner \<Rightarrow> (err \<Rightarrow> bool) \<Rightarrow> ('w \<Rightarrow> err option) \<Rightarrow> squat_pair list \<Rightarrow> int \<Rightarrow> 'w \<Rightarrow> nat \<times> err option \<times> 'w" where
  "write_typosquats float run transient ended cands batch w =
     write_batch run transient ended link_typosquat_of (List.map (typosquat_row float) cands) batch w"

text \<open>What a candidate says, with the pair it is about.\<close>

definition cand_pair :: "squat_pair \<Rightarrow> string \<times> string" where
  "cand_pair c = pair_key (popular c) (lookalike c)"

lemma pair_key_sym: "pair_key a b = pair_key b a"
  by (auto simp: pair_key_def)

lemma cand_pair_orient [simp]: "cand_pair (orient a b d ranks) = pair_key a b"
  by (auto simp: cand_pair_def orient_def Let_def pair_key_sym)

definition cand_ok :: "(string \<Rightarrow> string) \<Rightarrow> string set \<Rightarrow> (string, int) gomap \<Rightarrow> int \<Rightarrow> squat_pair \<Rightarrow> bool" where
  "cand_ok tables names ranks max_distance c \<longleftrightarrow>
     popular c \<in> names \<and> lookalike c \<in> names \<and> popular c \<noteq> lookalike c \<and>
     cand_distance c = edit_distance (normalize tables (popular c)) (normalize tables (lookalike c)) \<and>
     int (cand_distance c) \<le> max_distance \<and> rank_of ranks (popular c) \<le> rank_of ranks (lookalike c) \<and>
     popularity_ratio c = of_int (rank_of ranks (lookalike c)) / of_int (rank_of ranks (popular c))"

lemma cand_ok_orient:
  assumes "a \<in> N" "b \<in> N" "a \<noteq> b" "int (edit_distance (normalize t a) (normalize t b)) \<le> m"
  shows "cand_ok t N ranks m (orient a b (edit_distance (normalize t a) (normalize t b)) ranks)"
  using assms by (auto simp: cand_ok_def orient_def Let_def edit_distance_sym)

definition near_forms :: "int \<Rightarrow> named_form \<Rightarrow> named_form \<Rightarrow> bool" where
  "near_forms m a b \<longleftrightarrow> fst a \<noteq> fst b \<and> int (edit_distance (snd a) (snd b)) \<le> m"

definition key_of :: "named_form \<Rightarrow> named_form \<Rightarrow> string \<times> string" where
  "key_of a b = pair_key (fst a) (fst b)"

text \<open>The state both loops keep: the pairs seen are those of the candidates, once each.\<close>

definition scan_ok ::
  "(string \<Rightarrow> string) \<Rightarrow> string set \<Rightarrow> (string, int) gomap \<Rightarrow> int \<Rightarrow> (string \<times> string) list \<times> squat_pair list \<Rightarrow> bool" where
  "scan_ok t N ranks m st \<longleftrightarrow>
     fst st = List.map cand_pair (snd st) \<and> distinct (fst st) \<and> list_all (cand_ok t N ranks m) (snd st)"

definition entry_ok :: "(string \<Rightarrow> string) \<Rightarrow> string set \<Rightarrow> named_form \<Rightarrow> bool" where
  "entry_ok t N e \<longleftrightarrow> fst e \<in> N \<and> snd e = normalize t (fst e)"

lemma compare_with_ok:
  "scan_ok t N ranks m st \<Longrightarrow> entry_ok t N a \<Longrightarrow> list_all (entry_ok t N) bs \<Longrightarrow>
     scan_ok t N ranks m (compare_with ranks m a bs st) \<and>
     set (fst (compare_with ranks m a bs st)) = set (fst st) \<union> key_of a ` {b \<in> set bs. near_forms m a b}"
proof (induction ranks m a bs st rule: compare_with.induct)
  case (2 ranks m a b bs st)
  let ?st = "if fst a = fst b then st
        else let d = edit_distance (snd a) (snd b)
          in if int d > m then st
          else let pair = pair_key (fst a) (fst b)
            in if pair \<in> set (fst st) then st
            else (fst st @ [pair], snd st @ [orient (fst a) (fst b) d ranks])"
  have ok: "scan_ok t N ranks m ?st"
    using 2(2-4) cand_ok_orient [of "fst a" N "fst b" t m ranks]
    by (auto simp: scan_ok_def entry_ok_def Let_def)
  have st: "set (fst ?st) = set (fst st) \<union> key_of a ` {x. x = b \<and> near_forms m a x}"
    by (auto simp: near_forms_def key_of_def Let_def)
  have "set (fst (compare_with ranks m a bs ?st)) = set (fst ?st) \<union> key_of a ` {x \<in> set bs. near_forms m a x}"
    "scan_ok t N ranks m (compare_with ranks m a bs ?st)"
    using "2.IH" [OF ok "2.prems"(2)] "2.prems"(3) by simp_all
  moreover have "key_of a ` {x \<in> set (b # bs). near_forms m a x} =
    key_of a ` {x. x = b \<and> near_forms m a x} \<union> key_of a ` {x \<in> set bs. near_forms m a x}" by auto
  ultimately show ?case unfolding compare_with.simps st by (simp add: Un_assoc)
qed simp

definition near_pairs :: "int \<Rightarrow> named_form list \<Rightarrow> (string \<times> string) set" where
  "near_pairs m es = {key_of (es ! i) (es ! j) | i j. i < j \<and> j \<le> i + neighbour_window \<and> j < length es \<and> near_forms m (es ! i) (es ! j)}"

lemma near_pairs_Cons:
  "near_pairs m (e # es) = key_of e ` {b \<in> set (take neighbour_window es). near_forms m e b} \<union> near_pairs m es"
proof (rule set_eqI)
  fix p
  show "p \<in> near_pairs m (e # es) \<longleftrightarrow> p \<in> key_of e ` {b \<in> set (take neighbour_window es). near_forms m e b} \<union> near_pairs m es"
  proof
    assume "p \<in> near_pairs m (e # es)"
    then obtain i j where *: "p = key_of ((e # es) ! i) ((e # es) ! j)" "i < j" "j \<le> i + neighbour_window"
      "j < length (e # es)" "near_forms m ((e # es) ! i) ((e # es) ! j)" by (auto simp: near_pairs_def)
    obtain j' where j: "j = Suc j'" using *(2) by (cases j) auto
    show "p \<in> key_of e ` {b \<in> set (take neighbour_window es). near_forms m e b} \<union> near_pairs m es"
    proof (cases i)
      case 0
      then have "es ! j' \<in> set (take neighbour_window es)" using * j by (auto simp: in_set_conv_nth)
      with * 0 j show ?thesis by auto
    next
      case (Suc i')
      with * j have "p \<in> near_pairs m es" unfolding near_pairs_def by auto
      then show ?thesis by simp
    qed
  next
    assume "p \<in> key_of e ` {b \<in> set (take neighbour_window es). near_forms m e b} \<union> near_pairs m es"
    then show "p \<in> near_pairs m (e # es)"
    proof
      assume "p \<in> key_of e ` {b \<in> set (take neighbour_window es). near_forms m e b}"
      then obtain j where "j < neighbour_window" "j < length es" "p = key_of e (es ! j)" "near_forms m e (es ! j)"
        by (auto simp: in_set_conv_nth)
      then show ?thesis unfolding near_pairs_def by (intro CollectI exI [of _ 0] exI [of _ "Suc j"]) auto
    next
      assume "p \<in> near_pairs m es"
      then obtain i j where "p = key_of (es ! i) (es ! j)" "i < j" "j \<le> i + neighbour_window" "j < length es"
        "near_forms m (es ! i) (es ! j)" by (auto simp: near_pairs_def)
      then show ?thesis unfolding near_pairs_def by (intro CollectI exI [of _ "Suc i"] exI [of _ "Suc j"]) auto
    qed
  qed
qed

lemma compare_all_ok:
  "scan_ok t N ranks m st \<Longrightarrow> list_all (entry_ok t N) es \<Longrightarrow>
     scan_ok t N ranks m (compare_all ranks m es st) \<and>
     set (fst (compare_all ranks m es st)) = set (fst st) \<union> near_pairs m es"
proof (induction ranks m es st rule: compare_all.induct)
  case (1 ranks m st)
  then show ?case by (simp add: near_pairs_def)
next
  case (2 ranks m e es st)
  have "list_all (entry_ok t N) (take neighbour_window es)" using 2(3) by (auto simp: list_all_iff dest: in_set_takeD)
  with 2 compare_with_ok [of t N ranks m st e "take neighbour_window es"] show ?case
    by (simp add: near_pairs_Cons Un_assoc)
qed

text \<open>C18: the search reports each unordered pair of names at most once, and exactly the pairs of different
  names whose normal forms lie within the window of each other and within the distance asked for; what it
  says of a pair is right: the more popular name by rank, the distance and the ratio of the ranks.\<close>

theorem candidates_exact:
  "(let cs = find_candidates tables names ranks m
    in distinct (List.map cand_pair cs) \<and> set (List.map cand_pair cs) = near_pairs m (sorted_entries tables names)
      \<and> list_all (cand_ok tables (set names) ranks m) cs)"
proof -
  have "list_all (entry_ok tables (set names)) (sorted_entries tables names)"
    by (auto simp: list_all_iff sorted_entries_def entry_ok_def)
  moreover have "scan_ok tables (set names) ranks m ([], [])" by (simp add: scan_ok_def)
  moreover obtain seen cs where st: "compare_all ranks m (sorted_entries tables names) ([], []) = (seen, cs)"
    by (rule prod.exhaust)
  ultimately have ok: "scan_ok tables (set names) ranks m (seen, cs)"
    and near: "set seen = near_pairs m (sorted_entries tables names)"
    using compare_all_ok [of tables "set names" ranks m "([], [])" "sorted_entries tables names"] by simp_all
  from ok have all: "seen = List.map cand_pair cs \<and> distinct seen \<and> list_all (cand_ok tables (set names) ranks m) cs"
    unfolding scan_ok_def fst_conv snd_conv .
  then have pairs: "List.map cand_pair cs = seen" by (elim conjE) (erule sym)
  from all show ?thesis unfolding find_candidates_def st snd_conv Let_def pairs near by (elim conjE) (intro conjI refl)
qed

end
