(* ===== verification/Sketch.thy ===== *)
theory Sketch
  imports Complex_Main Identity GoText "HOL-Library.Word"
begin

unbundle bit_operations_syntax

text \<open>
  Reachability over a whole graph: \<open>internal/sketch\<close>. A sketch is a value with the four operations of
  Go's interface \<open>Sketch\<close>; the engine's epoch is proved once, inside a locale for any kind of sketch that
  represents a set, and both kinds of the code are interpretations of it. Counts of HyperLogLog are over
  the real numbers. Goroutines of a round only read the previous round's sketches, so their results are
  those of the chunks one after the other.
\<close>

subsection \<open>The interface and the engine\<close>

record 's sketch_ops =
  sk_new :: 's
  sk_add :: "'s \<Rightarrow> string \<Rightarrow> 's"
  sk_merge :: "'s \<Rightarrow> 's \<Rightarrow> 's res"
  sk_count :: "'s \<Rightarrow> int"

record pkg_edge =
  pe_from :: string
  pe_to :: string

type_synonym 's sketches = "(string, 's) gomap"

text \<open>A method call on a key the map does not have: Go's panic on a nil interface.\<close>

definition nil_sketch :: err where
  "nil_sketch = Msg ''invalid memory address or nil pointer dereference''"

definition seed :: "('s, 'x) sketch_ops_scheme \<Rightarrow> string \<Rightarrow> 's sketches \<Rightarrow> 's sketches" where
  "seed ops n cur = (if has_key cur n then cur else put n (sk_add ops (sk_new ops) n) cur)"

definition seed_all :: "('s, 'x) sketch_ops_scheme \<Rightarrow> string list \<Rightarrow> pkg_edge list \<Rightarrow> 's sketches" where
  "seed_all ops nodes es =
     foldl (\<lambda>cur e. seed ops (pe_to e) (seed ops (pe_from e) cur)) (foldl (\<lambda>cur n. seed ops n cur) [] nodes) es"

function chunks_from :: "nat \<Rightarrow> 'a list \<Rightarrow> 'a list list" where
  "chunks_from per es =
     (if es = [] \<or> per = 0 then [] else take per es # chunks_from per (drop per es))"
  by pat_completeness auto
termination
  by (relation "measure (\<lambda>(per, es). length es)") auto

declare chunks_from.simps [simp del]

definition split_edges :: "'a list \<Rightarrow> int \<Rightarrow> 'a list list" where
  "split_edges es n =
     (let n = (if n > int (length es) then int (length es) else n)
      in if n \<le> 1 then [es] else chunks_from (nat ((int (length es) + n - 1) div n)) es)"

fun merge_loop :: "('s, 'x) sketch_ops_scheme \<Rightarrow> 's sketches \<Rightarrow> pkg_edge list \<Rightarrow> 's sketches \<Rightarrow> 's sketches res" where
  "merge_loop ops cur [] local = Inr local"
| "merge_loop ops cur (e # es) local =
     (let dst = getd (sk_new ops) local (pe_to e) in
      case map_of cur (pe_from e) of
        None \<Rightarrow> Inl nil_sketch
      | Some src \<Rightarrow>
          (case sk_merge ops dst src of
             Inl err \<Rightarrow> Inl err
           | Inr dst \<Rightarrow> merge_loop ops cur es (put (pe_to e) dst local)))"

definition merge_chunk :: "('s, 'x) sketch_ops_scheme \<Rightarrow> 's sketches \<Rightarrow> pkg_edge list \<Rightarrow> 's sketches res" where
  "merge_chunk ops cur chunk = merge_loop ops cur chunk []"

fun fold_in :: "('s, 'x) sketch_ops_scheme \<Rightarrow> (string \<times> 's) list \<Rightarrow> 's sketches \<Rightarrow> 's sketches res" where
  "fold_in ops [] nxt = Inr nxt"
| "fold_in ops ((n, sk) # part) nxt =
     (case map_of nxt n of
        None \<Rightarrow> Inl nil_sketch
      | Some have_sk \<Rightarrow>
          (case sk_merge ops have_sk sk of
             Inl err \<Rightarrow> Inl err
           | Inr merged \<Rightarrow> fold_in ops part (put n merged nxt)))"

fun fold_partials :: "('s, 'x) sketch_ops_scheme \<Rightarrow> 's sketches \<Rightarrow> pkg_edge list list \<Rightarrow> 's sketches \<Rightarrow> 's sketches res" where
  "fold_partials ops cur [] nxt = Inr nxt"
| "fold_partials ops cur (chunk # chunks) nxt =
     (case merge_chunk ops cur chunk of
        Inl err \<Rightarrow> Inl err
      | Inr part \<Rightarrow>
          (case fold_in ops part nxt of
             Inl err \<Rightarrow> Inl err
           | Inr nxt \<Rightarrow> fold_partials ops cur chunks nxt))"

definition cold_start :: "('s, 'x) sketch_ops_scheme \<Rightarrow> 's sketches \<Rightarrow> 's sketches" where
  "cold_start ops cur = List.map (\<lambda>(n, _). (n, sk_add ops (sk_new ops) n)) cur"

definition round_of :: "('s, 'x) sketch_ops_scheme \<Rightarrow> pkg_edge list list \<Rightarrow> 's sketches \<Rightarrow> 's sketches res" where
  "round_of ops chunks cur = fold_partials ops cur chunks (cold_start ops cur)"

definition counts_changed :: "('s, 'x) sketch_ops_scheme \<Rightarrow> 's sketches \<Rightarrow> 's sketches \<Rightarrow> bool" where
  "counts_changed ops cur nxt =
     list_ex (\<lambda>(n, sk). Some (sk_count ops sk) \<noteq> map_option (sk_count ops) (map_of cur n)) nxt"

text \<open>The loop has no bound in the code: a run that does not end is \<open>None\<close>.\<close>

partial_function (option) run_rounds ::
  "('s, 'x) sketch_ops_scheme \<Rightarrow> pkg_edge list list \<Rightarrow> 's sketches \<Rightarrow> 's sketches res option" where
  "run_rounds ops chunks cur =
     (case round_of ops chunks cur of
        Inl err \<Rightarrow> Some (Inl err)
      | Inr nxt \<Rightarrow> if counts_changed ops cur nxt then run_rounds ops chunks nxt else Some (Inr nxt))"

text \<open>\<open>Engine.workers\<close>: the number configured, or \<open>GOMAXPROCS\<close>.\<close>

definition workers_of :: "int \<Rightarrow> int \<Rightarrow> int" where
  "workers_of workers gomaxprocs = (if workers > 0 then workers else gomaxprocs)"

definition run_epoch ::
  "('s, 'x) sketch_ops_scheme \<Rightarrow> int \<Rightarrow> int \<Rightarrow> string list \<Rightarrow> pkg_edge list \<Rightarrow> 's sketches res option" where
  "run_epoch ops workers gomaxprocs nodes es =
     run_rounds ops (split_edges es (workers_of workers gomaxprocs)) (seed_all ops nodes es)"

subsection \<open>What an epoch computes\<close>

text \<open>The nodes that reach \<open>v\<close> in at most \<open>k\<close> steps, and the nodes an epoch knows.\<close>

definition arcs :: "pkg_edge list \<Rightarrow> (string \<times> string) set" where
  "arcs es = (\<lambda>e. (pe_from e, pe_to e)) ` set es"

fun back_k :: "(string \<times> string) set \<Rightarrow> nat \<Rightarrow> string \<Rightarrow> string set" where
  "back_k E 0 v = {v}"
| "back_k E (Suc k) v = insert v (\<Union>u \<in> {u. (u, v) \<in> E}. back_k E k u)"

definition epoch_nodes :: "string list \<Rightarrow> pkg_edge list \<Rightarrow> string set" where
  "epoch_nodes nodes es = set nodes \<union> pe_from ` set es \<union> pe_to ` set es"

lemma back_k_sound: "u \<in> back_k E k v \<Longrightarrow> (u, v) \<in> E\<^sup>*"
  by (induction k arbitrary: v) (auto intro: rtrancl_into_rtrancl)

lemma back_k_mono: "back_k E k v \<subseteq> back_k E (Suc k) v"
proof (induction k arbitrary: v)
  case (Suc k)
  then show ?case unfolding back_k.simps(2) [of E "Suc k"] back_k.simps(2) [of E k] by blast
qed simp

lemma back_k_fixpoint:
  assumes "\<And>v. back_k E (Suc k) v \<subseteq> back_k E k v"
  shows "back_k E k v = {u. (u, v) \<in> E\<^sup>*}"
proof (intro equalityI subsetI)
  fix u assume "u \<in> {u. (u, v) \<in> E\<^sup>*}"
  then have "(u, v) \<in> E\<^sup>*" by simp
  then show "u \<in> back_k E k v"
  proof (induction rule: rtrancl_induct)
    case base
    then show ?case by (cases k) auto
  next
    case (step y z)
    then have "u \<in> back_k E (Suc k) z" by auto
    then show ?case using assms by auto
  qed
qed (use back_k_sound in auto)

lemma arcs_nodes: "(u, v) \<in> arcs es \<Longrightarrow> u \<in> epoch_nodes nodes es \<and> v \<in> epoch_nodes nodes es"
  by (auto simp: arcs_def epoch_nodes_def)

lemma back_k_nodes: "v \<in> epoch_nodes nodes es \<Longrightarrow> back_k (arcs es) k v \<subseteq> epoch_nodes nodes es"
proof (induction k arbitrary: v)
  case (Suc k)
  then show ?case using arcs_nodes [of _ v es nodes] by fastforce
qed simp

lemma back_k_outside: "v \<notin> epoch_nodes nodes es \<Longrightarrow> back_k (arcs es) k v = {v}"
  using arcs_nodes [of _ v es nodes] by (cases k) auto

lemma finite_epoch_nodes [simp]: "finite (epoch_nodes nodes es)"
  by (simp add: epoch_nodes_def)

lemma concat_chunks_from: "per > 0 \<Longrightarrow> concat (chunks_from per es) = es"
proof (induction per es rule: chunks_from.induct)
  case (1 per es)
  then show ?case by (subst chunks_from.simps) auto
qed

text \<open>However many workers there are, the chunks are the edges in their order.\<close>

lemma concat_split_edges: "concat (split_edges es n) = es"
proof (cases "n > 1 \<and> length es > 1")
  case True
  let ?n = "if n > int (length es) then int (length es) else n"
  have "1 < ?n" using True by simp
  then have "0 < (int (length es) + ?n - 1) div ?n" using True by (subst pos_imp_zdiv_pos_iff) auto
  then show ?thesis using \<open>1 < ?n\<close> by (simp add: split_edges_def Let_def concat_chunks_from)
next
  case False
  then show ?thesis by (auto simp: split_edges_def Let_def)
qed

text \<open>How much the sets can still grow: the measure on which the rounds end.\<close>

definition slack :: "string list \<Rightarrow> pkg_edge list \<Rightarrow> nat \<Rightarrow> nat" where
  "slack nodes es k = (\<Sum>v \<in> epoch_nodes nodes es. card (epoch_nodes nodes es) - card (back_k (arcs es) k v))"

declare back_k.simps(2) [simp del]

lemma finite_back_k: "v \<in> epoch_nodes nodes es \<Longrightarrow> finite (back_k (arcs es) k v)"
  by (rule finite_subset [OF back_k_nodes finite_epoch_nodes])

lemma slack_falls:
  assumes "v \<in> epoch_nodes nodes es" "back_k (arcs es) k v \<noteq> back_k (arcs es) (Suc k) v"
  shows "slack nodes es (Suc k) < slack nodes es k"
  unfolding slack_def
proof (rule sum_strict_mono_ex1)
  let ?N = "epoch_nodes nodes es" and ?b = "back_k (arcs es)"
  show "\<forall>w \<in> ?N. card ?N - card (?b (Suc k) w) \<le> card ?N - card (?b k w)"
    by (intro ballI diff_le_mono2 card_mono finite_back_k back_k_mono)
  have "card (?b k v) < card (?b (Suc k) v)"
    by (rule psubset_card_mono [OF finite_back_k [OF assms(1)]]) (use assms(2) back_k_mono in blast)
  moreover have "card (?b (Suc k) v) \<le> card ?N"
    by (rule card_mono [OF finite_epoch_nodes back_k_nodes [OF assms(1)]])
  ultimately show "\<exists>w \<in> ?N. card ?N - card (?b (Suc k) w) < card ?N - card (?b k w)"
    by (intro bexI [OF _ assms(1)]) linarith
qed simp

text \<open>
  A kind of sketch: values that represent a set of members, by \<open>rep\<close>. The laws say what adding and
  merging do to the set represented, that merging two of the engine's own sketches does not panic, and that
  the count depends on the set alone.
\<close>

locale sketch_type =
  fixes ops :: "('s, 'x) sketch_ops_scheme" and rep :: "'s \<Rightarrow> string set \<Rightarrow> bool"
  assumes rep_new: "rep (sk_new ops) {}"
    and rep_add: "rep s A \<Longrightarrow> rep (sk_add ops s n) (insert n A)"
    and rep_merge: "rep s A \<Longrightarrow> rep t B \<Longrightarrow> \<exists>u. sk_merge ops s t = Inr u \<and> rep u (A \<union> B)"
    and count_cong: "rep s A \<Longrightarrow> rep t A \<Longrightarrow> sk_count ops s = sk_count ops t"
begin

definition holds :: "'s sketches \<Rightarrow> string set \<Rightarrow> (string \<Rightarrow> string set) \<Rightarrow> bool" where
  "holds m N f \<longleftrightarrow> distinct (keys m) \<and> (\<forall>v. if v \<in> N then (\<exists>s. map_of m v = Some s \<and> rep s (f v)) else map_of m v = None)"

lemma holds_in: "holds m N f \<Longrightarrow> v \<in> N \<Longrightarrow> \<exists>s. map_of m v = Some s \<and> rep s (f v)"
  by (simp add: holds_def)

lemma holds_out: "holds m N f \<Longrightarrow> v \<notin> N \<Longrightarrow> map_of m v = None"
  by (simp add: holds_def)

lemma holdsI:
  "distinct (keys m) \<Longrightarrow> (\<And>v. v \<in> N \<Longrightarrow> \<exists>s. map_of m v = Some s \<and> rep s (f v)) \<Longrightarrow>
     (\<And>v. v \<notin> N \<Longrightarrow> map_of m v = None) \<Longrightarrow> holds m N f"
  by (simp add: holds_def)

lemma holds_put:
  "holds m N f \<Longrightarrow> rep s A \<Longrightarrow> holds (put v s m) (insert v N) (f(v := A))"
  by (auto simp: holds_def update_conv' distinct_keys_put)

lemma holds_seed: "holds m N (\<lambda>v. {v}) \<Longrightarrow> holds (seed ops n m) (insert n N) (\<lambda>v. {v})"
proof -
  assume m: "holds m N (\<lambda>v. {v})"
  show ?thesis
  proof (cases "has_key m n")
    case True
    then have "n \<in> N" using m by (auto simp: holds_def has_key_def split: if_splits)
    then show ?thesis using True m by (simp add: seed_def insert_absorb)
  next
    case False
    have "(\<lambda>v. {v})(n := {n}) = (\<lambda>v. {v})" by auto
    with False holds_put [OF m rep_add [OF rep_new], of n n] show ?thesis by (simp add: seed_def)
  qed
qed

lemma holds_seed_all: "holds (seed_all ops nodes es) (epoch_nodes nodes es) (\<lambda>v. {v})"
proof -
  have 1: "holds (foldl (\<lambda>cur n. seed ops n cur) m ns) (N \<union> set ns) (\<lambda>v. {v})" if "holds m N (\<lambda>v. {v})" for m N ns
    using that
  proof (induction ns arbitrary: m N)
    case (Cons n ns)
    from Cons.IH [OF holds_seed [OF Cons.prems, of n]] show ?case by simp
  qed simp
  have 2: "holds (foldl (\<lambda>cur e. seed ops (pe_to e) (seed ops (pe_from e) cur)) m es)
      (N \<union> pe_from ` set es \<union> pe_to ` set es) (\<lambda>v. {v})" if "holds m N (\<lambda>v. {v})" for m N es
    using that
  proof (induction es arbitrary: m N)
    case (Cons e es)
    from Cons.IH [OF holds_seed [OF holds_seed [OF Cons.prems, of "pe_from e"], of "pe_to e"]]
    show ?case by (simp add: insert_commute)
  qed simp
  have "holds [] {} (\<lambda>v. {v})" by (simp add: holds_def)
  from 2 [OF 1 [OF this]] show ?thesis by (simp add: seed_all_def epoch_nodes_def)
qed

text \<open>One worker's map: its targets, each with what its sources hold.\<close>

lemma merge_loop_holds:
  assumes "holds cur N f" "pe_from ` set es \<subseteq> N" "holds local T g"
  shows "\<exists>out. merge_loop ops cur es local = Inr out \<and>
    holds out (T \<union> pe_to ` set es)
      (\<lambda>v. (if v \<in> T then g v else {}) \<union> (\<Union>e \<in> {e \<in> set es. pe_to e = v}. f (pe_from e)))"
  using assms
proof (induction es arbitrary: local T g)
  case Nil
  have "holds local T (\<lambda>v. if v \<in> T then g v else {})" using Nil(3) by (auto simp: holds_def)
  then show ?case by simp
next
  case (Cons e es)
  obtain src where src: "map_of cur (pe_from e) = Some src" "rep src (f (pe_from e))"
    using holds_in [OF Cons.prems(1), of "pe_from e"] Cons.prems(2) by auto
  have dst: "rep (getd (sk_new ops) local (pe_to e)) (if pe_to e \<in> T then g (pe_to e) else {})"
    using Cons.prems(3) rep_new by (auto simp: holds_def getd_def split: option.splits dest!: spec [of _ "pe_to e"])
  obtain u where u: "sk_merge ops (getd (sk_new ops) local (pe_to e)) src = Inr u"
      "rep u ((if pe_to e \<in> T then g (pe_to e) else {}) \<union> f (pe_from e))"
    using rep_merge [OF dst src(2)] by auto
  let ?g = "g(pe_to e := (if pe_to e \<in> T then g (pe_to e) else {}) \<union> f (pe_from e))"
  have "holds (put (pe_to e) u local) (insert (pe_to e) T) ?g" by (rule holds_put [OF Cons.prems(3) u(2)])
  from Cons.IH [OF Cons.prems(1) _ this] Cons.prems(2) obtain out where
    out: "merge_loop ops cur es (put (pe_to e) u local) = Inr out"
    "holds out (insert (pe_to e) T \<union> pe_to ` set es)
      (\<lambda>v. (if v \<in> insert (pe_to e) T then ?g v else {}) \<union> (\<Union>e \<in> {e \<in> set es. pe_to e = v}. f (pe_from e)))"
    by auto
  have "(\<lambda>v. (if v \<in> insert (pe_to e) T then ?g v else {}) \<union> (\<Union>e \<in> {e \<in> set es. pe_to e = v}. f (pe_from e)))
    = (\<lambda>v. (if v \<in> T then g v else {}) \<union> (\<Union>e' \<in> {e' \<in> set (e # es). pe_to e' = v}. f (pe_from e')))"
    by (rule ext) (auto split: if_splits)
  with out show ?case by (simp add: u src Let_def)
qed

lemma fold_in_holds:
  assumes "distinct (keys part)" "\<And>n s. (n, s) \<in> set part \<Longrightarrow> n \<in> N \<and> rep s (h n)" "holds nxt N f"
  shows "\<exists>out. fold_in ops part nxt = Inr out \<and>
    holds out N (\<lambda>v. f v \<union> (if v \<in> set (keys part) then h v else {}))"
  using assms
proof (induction part arbitrary: nxt f)
  case Nil
  then show ?case by simp
next
  case (Cons p part)
  obtain n sk where p: "p = (n, sk)" by (cases p)
  have n: "n \<in> N" "rep sk (h n)" using Cons.prems(2) p by auto
  obtain s where s: "map_of nxt n = Some s" "rep s (f n)" using holds_in [OF Cons.prems(3) n(1)] by auto
  obtain u where u: "sk_merge ops s sk = Inr u" "rep u (f n \<union> h n)" using rep_merge [OF s(2) n(2)] by auto
  have "holds (put n u nxt) N (f(n := f n \<union> h n))"
    using holds_put [OF Cons.prems(3) u(2), of n] n(1) by (simp add: insert_absorb)
  from Cons.IH [OF _ _ this] Cons.prems(1,2) obtain out where out: "fold_in ops part (put n u nxt) = Inr out"
    "holds out N (\<lambda>v. (f(n := f n \<union> h n)) v \<union> (if v \<in> set (keys part) then h v else {}))"
    by (auto simp: keys_def)
  have "n \<notin> set (keys part)" using Cons.prems(1) p by (simp add: keys_def)
  then have "(\<lambda>v. (f(n := f n \<union> h n)) v \<union> (if v \<in> set (keys part) then h v else {}))
    = (\<lambda>v. f v \<union> (if v \<in> set (keys (p # part)) then h v else {}))"
    by (intro ext) (simp add: p keys_def)
  with out show ?case by (simp add: p s u)
qed

lemma holds_entries: "holds m N f \<Longrightarrow> (n, s) \<in> set m \<Longrightarrow> n \<in> N \<and> rep s (f n)"
proof -
  assume m: "holds m N f" "(n, s) \<in> set m"
  then have "map_of m n = Some s" by (simp add: holds_def keys_def)
  with m(1) show ?thesis by (auto simp: holds_def split: if_splits dest!: spec [of _ n])
qed

lemma holds_distinct: "holds m N f \<Longrightarrow> distinct (keys m)"
  by (simp add: holds_def)

lemma holds_keys:
  assumes "holds m N f" shows "set (keys m) = N"
proof -
  have "v \<in> set (keys m) \<longleftrightarrow> v \<in> N" for v
    using holds_in [OF assms, of v] holds_out [OF assms, of v] has_key_iff [of m v]
    by (cases "v \<in> N") (auto simp: has_key_def)
  then show ?thesis by auto
qed

lemma fold_partials_holds:
  assumes "holds cur N f" "pe_from ` set (concat chunks) \<subseteq> N" "pe_to ` set (concat chunks) \<subseteq> N" "holds nxt N g"
  shows "\<exists>out. fold_partials ops cur chunks nxt = Inr out \<and>
    holds out N (\<lambda>v. g v \<union> (\<Union>e \<in> {e \<in> set (concat chunks). pe_to e = v}. f (pe_from e)))"
  using assms
proof (induction chunks arbitrary: nxt g)
  case Nil
  then show ?case by simp
next
  case (Cons chunk chunks)
  have "holds [] {} (\<lambda>v. {})" by (simp add: holds_def)
  from merge_loop_holds [OF Cons.prems(1) _ this, of chunk] Cons.prems(2) obtain part where
    part: "merge_chunk ops cur chunk = Inr part"
    "holds part (pe_to ` set chunk) (\<lambda>v. \<Union>e \<in> {e \<in> set chunk. pe_to e = v}. f (pe_from e))"
    by (auto simp: merge_chunk_def)
  have "n \<in> N \<and> rep s (\<Union>e \<in> {e \<in> set chunk. pe_to e = n}. f (pe_from e))" if "(n, s) \<in> set part" for n s
    using holds_entries [OF part(2) that] Cons.prems(3) by auto
  from fold_in_holds [OF holds_distinct [OF part(2)] this Cons.prems(4)] obtain mid where
    mid: "fold_in ops part nxt = Inr mid"
    "holds mid N (\<lambda>v. g v \<union> (if v \<in> set (keys part) then \<Union>e \<in> {e \<in> set chunk. pe_to e = v}. f (pe_from e) else {}))"
    by blast
  have sub: "pe_from ` set (concat chunks) \<subseteq> N" "pe_to ` set (concat chunks) \<subseteq> N" using Cons.prems(2,3) by auto
  from Cons.IH [OF Cons.prems(1) sub mid(2)] obtain out where
    out: "fold_partials ops cur chunks mid = Inr out"
    "holds out N (\<lambda>v. (g v \<union> (if v \<in> set (keys part) then \<Union>e \<in> {e \<in> set chunk. pe_to e = v}. f (pe_from e) else {}))
      \<union> (\<Union>e \<in> {e \<in> set (concat chunks). pe_to e = v}. f (pe_from e)))"
    by blast
  have "(\<lambda>v. (g v \<union> (if v \<in> set (keys part) then \<Union>e \<in> {e \<in> set chunk. pe_to e = v}. f (pe_from e) else {}))
      \<union> (\<Union>e \<in> {e \<in> set (concat chunks). pe_to e = v}. f (pe_from e)))
    = (\<lambda>v. g v \<union> (\<Union>e \<in> {e \<in> set (concat (chunk # chunks)). pe_to e = v}. f (pe_from e)))"
    unfolding holds_keys [OF part(2)] by (rule ext) auto
  with out show ?case by (simp add: part mid)
qed

lemma cold_start_holds: "holds cur N f \<Longrightarrow> holds (cold_start ops cur) N (\<lambda>v. {v})"
proof -
  assume cur: "holds cur N f"
  have m: "map_of (cold_start ops cur) v = map_option (\<lambda>_. sk_add ops (sk_new ops) v) (map_of cur v)" for v
    by (induction cur) (auto simp: cold_start_def)
  have k: "keys (cold_start ops cur) = keys cur" by (simp add: keys_def cold_start_def o_def case_prod_beta)
  show ?thesis
  proof (rule holdsI)
    show "\<exists>s. map_of (cold_start ops cur) v = Some s \<and> rep s {v}" if "v \<in> N" for v
      using holds_in [OF cur that] rep_add [OF rep_new] by (auto simp: m)
  qed (use holds_out [OF cur] holds_distinct [OF cur] in \<open>simp_all add: m k\<close>)
qed

lemma round_holds:
  assumes "holds cur (epoch_nodes nodes es) (back_k (arcs es) k)" "concat chunks = es"
  shows "\<exists>nxt. round_of ops chunks cur = Inr nxt \<and> holds nxt (epoch_nodes nodes es) (back_k (arcs es) (Suc k))"
proof -
  have f: "pe_from ` set (concat chunks) \<subseteq> epoch_nodes nodes es" and t: "pe_to ` set (concat chunks) \<subseteq> epoch_nodes nodes es"
    using assms(2) by (auto simp: epoch_nodes_def)
  have "(\<lambda>v. {v} \<union> (\<Union>e \<in> {e \<in> set (concat chunks). pe_to e = v}. back_k (arcs es) k (pe_from e)))
    = back_k (arcs es) (Suc k)"
    unfolding assms(2) by (rule ext) (auto simp: arcs_def back_k.simps(2))
  with fold_partials_holds [OF assms(1) f t cold_start_holds [OF assms(1)]] show ?thesis by (simp add: round_of_def)
qed

lemma rounds_return:
  assumes "holds cur (epoch_nodes nodes es) (back_k (arcs es) k)" "concat chunks = es"
  shows "\<exists>out j. run_rounds ops chunks cur = Some (Inr out) \<and>
    holds out (epoch_nodes nodes es) (back_k (arcs es) (Suc j)) \<and>
    (\<exists>before. holds before (epoch_nodes nodes es) (back_k (arcs es) j) \<and> \<not> counts_changed ops before out)"
  using assms
proof (induction "slack nodes es k" arbitrary: cur k rule: less_induct)
  case less
  obtain nxt where nxt: "round_of ops chunks cur = Inr nxt"
    "holds nxt (epoch_nodes nodes es) (back_k (arcs es) (Suc k))" using round_holds [OF less.prems] by blast
  show ?case
  proof (cases "counts_changed ops cur nxt")
    case True
    then obtain v s where s: "(v, s) \<in> set nxt" "Some (sk_count ops s) \<noteq> map_option (sk_count ops) (map_of cur v)"
      by (auto simp: counts_changed_def list_ex_iff)
    from holds_entries [OF nxt(2) s(1)] have v: "v \<in> epoch_nodes nodes es" "rep s (back_k (arcs es) (Suc k) v)" by simp_all
    obtain t where t: "map_of cur v = Some t" "rep t (back_k (arcs es) k v)" using holds_in [OF less.prems(1) v(1)] by auto
    have "back_k (arcs es) k v \<noteq> back_k (arcs es) (Suc k) v"
      using count_cong [OF t(2), of s] v(2) s(2) t(1) by auto
    from less.hyps [OF slack_falls [OF v(1) this] nxt(2) less.prems(2)] show ?thesis
      using nxt(1) True by (subst run_rounds.simps) simp
  next
    case False
    then have "run_rounds ops chunks cur = Some (Inr nxt)" using nxt(1) by (subst run_rounds.simps) simp
    with nxt(2) less.prems(1) False show ?thesis by blast
  qed
qed

text \<open>Every epoch ends, and without a panic; each node's sketch is that of the nodes within some number of steps.\<close>

lemma epoch_returns:
  "\<exists>out j. run_epoch ops workers gomaxprocs nodes es = Some (Inr out) \<and>
    holds out (epoch_nodes nodes es) (back_k (arcs es) (Suc j)) \<and>
    (\<exists>before. holds before (epoch_nodes nodes es) (back_k (arcs es) j) \<and> \<not> counts_changed ops before out)"
proof -
  have "holds (seed_all ops nodes es) (epoch_nodes nodes es) (back_k (arcs es) 0)"
    using holds_seed_all [of nodes es] by (simp add: back_k.simps(1) [abs_def])
  from rounds_return [OF this concat_split_edges] show ?thesis by (simp add: run_epoch_def)
qed

end

text \<open>A kind of sketch that counts its members exactly: then the rounds end only at the fixpoint.\<close>

locale exact_sketch = sketch_type +
  assumes count_card: "rep s A \<Longrightarrow> sk_count ops s = int (card A)"
begin

lemma epoch_exact:
  "\<exists>out. run_epoch ops workers gomaxprocs nodes es = Some (Inr out) \<and>
    holds out (epoch_nodes nodes es) (\<lambda>v. {u. (u, v) \<in> (arcs es)\<^sup>*})"
proof -
  obtain out j pre_map where out: "run_epoch ops workers gomaxprocs nodes es = Some (Inr out)"
    "holds out (epoch_nodes nodes es) (back_k (arcs es) (Suc j))"
    "holds pre_map (epoch_nodes nodes es) (back_k (arcs es) j)" "\<not> counts_changed ops pre_map out"
    using epoch_returns [of workers gomaxprocs nodes es] by (elim exE conjE) (rule that)
  have stable: "back_k (arcs es) (Suc j) v \<subseteq> back_k (arcs es) j v" for v
  proof (cases "v \<in> epoch_nodes nodes es")
    case True
    obtain s t where s: "map_of out v = Some s" "rep s (back_k (arcs es) (Suc j) v)"
      and t: "map_of pre_map v = Some t" "rep t (back_k (arcs es) j v)"
      using holds_in [OF out(2) True] holds_in [OF out(3) True] by (elim exE conjE) (rule that)
    have "(v, s) \<in> set out" using s(1) by (rule map_of_SomeD)
    with out(4) t(1) have "sk_count ops s = sk_count ops t" by (auto simp: counts_changed_def list_ex_iff)
    then have "card (back_k (arcs es) (Suc j) v) = card (back_k (arcs es) j v)"
      using count_card [OF s(2)] count_card [OF t(2)] by simp
    moreover have "finite (back_k (arcs es) (Suc j) v)" by (rule finite_back_k [OF True])
    ultimately have "back_k (arcs es) j v = back_k (arcs es) (Suc j) v"
      by (intro card_subset_eq [OF _ back_k_mono]) simp_all
    then show ?thesis by simp
  next
    case False
    then show ?thesis by (simp only: back_k_outside subset_refl)
  qed
  have "back_k (arcs es) j = (\<lambda>v. {u. (u, v) \<in> (arcs es)\<^sup>*})"
    by (rule ext) (rule back_k_fixpoint [OF stable])
  moreover have "back_k (arcs es) (Suc j) = back_k (arcs es) j"
    by (rule ext) (rule equalityI [OF stable back_k_mono])
  ultimately have "back_k (arcs es) (Suc j) = (\<lambda>v. {u. (u, v) \<in> (arcs es)\<^sup>*})" by (simp only:)
  from out(2) [unfolded this] out(1) show ?thesis by (intro exI conjI)
qed

end

subsection \<open>Exact sets\<close>

record exact_set =
  members :: "string list"

definition new_exact_set :: exact_set where
  "new_exact_set = \<lparr>members = []\<rparr>"

definition exact_add :: "exact_set \<Rightarrow> string \<Rightarrow> exact_set" where
  "exact_add s n = s\<lparr>members := set_add n (members s)\<rparr>"

definition exact_merge :: "exact_set \<Rightarrow> exact_set \<Rightarrow> exact_set res" where
  "exact_merge s other = Inr (s\<lparr>members := foldl (\<lambda>ms n. set_add n ms) (members s) (members other)\<rparr>)"

definition exact_count :: "exact_set \<Rightarrow> int" where
  "exact_count s = int (length (members s))"

definition exact_ops :: "exact_set sketch_ops" where
  "exact_ops = \<lparr>sk_new = new_exact_set, sk_add = exact_add, sk_merge = exact_merge, sk_count = exact_count\<rparr>"

definition exact_rep :: "exact_set \<Rightarrow> string set \<Rightarrow> bool" where
  "exact_rep s A \<longleftrightarrow> distinct (members s) \<and> set (members s) = A"

interpretation exact: exact_sketch exact_ops exact_rep
proof unfold_locales
  show "\<exists>u. sk_merge exact_ops s t = Inr u \<and> exact_rep u (A \<union> B)" if "exact_rep s A" "exact_rep t B" for s A t B
    using that by (simp add: exact_ops_def exact_merge_def exact_rep_def foldl_set_add)
  show "sk_count exact_ops s = int (card A)" if "exact_rep s A" for s A
    using that distinct_card [of "members s"] by (auto simp: exact_ops_def exact_count_def exact_rep_def)
  show "sk_count exact_ops s = sk_count exact_ops t" if "exact_rep s A" "exact_rep t A" for s t A
    using that distinct_card [of "members s"] distinct_card [of "members t"]
    by (auto simp: exact_ops_def exact_count_def exact_rep_def)
qed (simp_all add: exact_ops_def exact_rep_def new_exact_set_def exact_add_def)

text \<open>C19: with exact sets every epoch ends, whatever the number of workers, the cycles and the duplicates of
  the edge list, and the set of a node is exactly the set of nodes from which this epoch's edges lead to it.\<close>

theorem exact_epoch_is_reachability:
  "\<exists>out. run_epoch exact_ops workers gomaxprocs nodes es = Some (Inr out) \<and>
     (\<forall>v. map_option (\<lambda>s. set (members s)) (map_of out v) =
       (if v \<in> epoch_nodes nodes es then Some {u. (u, v) \<in> (arcs es)\<^sup>*} else None))"
proof -
  obtain out where out: "run_epoch exact_ops workers gomaxprocs nodes es = Some (Inr out)"
    "exact.holds out (epoch_nodes nodes es) (\<lambda>v. {u. (u, v) \<in> (arcs es)\<^sup>*})"
    using exact.epoch_exact by blast
  have "map_option (\<lambda>s. set (members s)) (map_of out v) =
     (if v \<in> epoch_nodes nodes es then Some {u. (u, v) \<in> (arcs es)\<^sup>*} else None)" for v
    using exact.holds_in [OF out(2), of v] exact.holds_out [OF out(2), of v] by (auto simp: exact_rep_def)
  with out(1) show ?thesis by blast
qed

subsection \<open>HyperLogLog\<close>

definition hash64 :: "string \<Rightarrow> 64 word" where
  "hash64 n =
     (let h = fnv1a n;
          h = h XOR drop_bit 33 h;
          h = h * 0xff51afd7ed558ccd;
          h = h XOR drop_bit 33 h;
          h = h * 0xc4ceb9fe1a85ec53
      in h XOR drop_bit 33 h)"

text \<open>\<open>bits.LeadingZeros64\<close>.\<close>

definition leading_zeros :: "64 word \<Rightarrow> nat" where
  "leading_zeros x = length (takeWhile (\<lambda>i. \<not> bit x i) (rev [0..<64]))"

record hll =
  precision :: nat
  registers :: "nat list"

definition new_hll :: "nat \<Rightarrow> hll" where
  "new_hll p = \<lparr>precision = p, registers = replicate (2 ^ p) 0\<rparr>"

text \<open>The register of a member: a shift by \<open>64 - precision\<close>, which wraps above 64 and then shifts every bit out.\<close>

definition hll_index :: "nat \<Rightarrow> string \<Rightarrow> nat" where
  "hll_index p n = (if p \<le> 64 then unat (drop_bit (64 - p) (hash64 n)) else 0)"

definition hll_rank :: "nat \<Rightarrow> string \<Rightarrow> nat" where
  "hll_rank p n = leading_zeros (push_bit p (hash64 n)) + 1"

definition hll_add :: "hll \<Rightarrow> string \<Rightarrow> hll" where
  "hll_add h n =
     (let idx = hll_index (precision h) n; rnk = hll_rank (precision h) n
      in if rnk > registers h ! idx then h\<lparr>registers := (registers h)[idx := rnk]\<rparr> else h)"

definition hll_merge :: "hll \<Rightarrow> hll \<Rightarrow> hll res" where
  "hll_merge h other =
     (if precision other \<noteq> precision h then Inl (Msg ''HLL.Merge: mismatched precision'')
      else Inr (h\<lparr>registers := List.map (\<lambda>(r, old). if r > old then r else old) (zip (registers other) (registers h))\<rparr>))"

definition alpha :: "real \<Rightarrow> real" where
  "alpha m = (if m = 16 then 0.673 else if m = 32 then 0.697 else if m = 64 then 0.709 else 0.7213 / (1 + 1.079 / m))"

definition hll_count :: "hll \<Rightarrow> int" where
  "hll_count h =
     (let m = real (length (registers h));
          total = sum_list (List.map (\<lambda>r. 2 powr (- real r)) (registers h));
          zeros = length (List.filter (\<lambda>r. r = 0) (registers h));
          estimate = alpha m * m * m / total
      in if estimate \<le> 2.5 * m \<and> zeros > 0 then round (m * ln (m / real zeros)) else round estimate)"

definition hll_ops :: "nat \<Rightarrow> hll sketch_ops" where
  "hll_ops p = \<lparr>sk_new = new_hll p, sk_add = hll_add, sk_merge = hll_merge, sk_count = hll_count\<rparr>"

text \<open>The sketch of a set: each register is the highest rank of the members that fall into it.\<close>

definition hll_rep :: "nat \<Rightarrow> hll \<Rightarrow> string set \<Rightarrow> bool" where
  "hll_rep p h A \<longleftrightarrow> precision h = p \<and> length (registers h) = 2 ^ p \<and>
     (\<forall>i < 2 ^ p. \<forall>r. registers h ! i \<le> r \<longleftrightarrow> (\<forall>n \<in> A. hll_index p n = i \<longrightarrow> hll_rank p n \<le> r))"

lemma hll_index_bound: "hll_index p n < 2 ^ p"
proof (cases "p \<le> 64")
  case True
  have "unat (drop_bit (64 - p) (hash64 n)) = unat (hash64 n) div 2 ^ (64 - p)"
    unfolding unat_drop_bit_eq by (rule drop_bit_eq_div)
  moreover have "unat (hash64 n) < 2 ^ p * 2 ^ (64 - p)"
    using unsigned_less [of "hash64 n"] True by (simp flip: power_add)
  ultimately show ?thesis using True by (simp add: hll_index_def less_mult_imp_div_less)
qed (simp add: hll_index_def)

lemma hll_rep_unique: "hll_rep p h A \<Longrightarrow> hll_rep p h' A \<Longrightarrow> h = h'"
proof -
  assume *: "hll_rep p h A" "hll_rep p h' A"
  have "registers h = registers h'"
  proof (rule nth_equalityI)
    fix i assume "i < length (registers h)"
    then have i: "i < 2 ^ p" using * by (simp add: hll_rep_def)
    have "registers h ! i \<le> r \<longleftrightarrow> registers h' ! i \<le> r" for r using * i by (simp add: hll_rep_def)
    then show "registers h ! i = registers h' ! i" by (meson order_antisym order_refl)
  qed (use * in \<open>simp add: hll_rep_def\<close>)
  with * show ?thesis by (simp add: hll_rep_def)
qed

lemma hll_rep_add:
  assumes "hll_rep p h A" shows "hll_rep p (hll_add h n) (insert n A)"
proof -
  have p: "precision h = p" "length (registers h) = 2 ^ p" using assms by (simp_all add: hll_rep_def)
  have reg: "registers (hll_add h n) ! i = (if i = hll_index p n then max (registers h ! i) (hll_rank p n) else registers h ! i)"
    if "i < 2 ^ p" for i
    using that p hll_index_bound [of p n] by (auto simp: hll_add_def Let_def nth_list_update)
  have "registers (hll_add h n) ! i \<le> r \<longleftrightarrow> (\<forall>m \<in> insert n A. hll_index p m = i \<longrightarrow> hll_rank p m \<le> r)"
    if "i < 2 ^ p" for i r
    using assms that unfolding reg [OF that] by (auto simp: hll_rep_def)
  then show ?thesis using p by (auto simp: hll_rep_def hll_add_def Let_def)
qed

lemma hll_rep_merge:
  assumes "hll_rep p h A" "hll_rep p h' B"
  shows "\<exists>u. hll_merge h h' = Inr u \<and> hll_rep p u (A \<union> B)"
proof -
  have p: "precision h = p" "length (registers h) = 2 ^ p" "precision h' = p" "length (registers h') = 2 ^ p"
    using assms by (simp_all add: hll_rep_def)
  define u where "u = h\<lparr>registers := List.map (\<lambda>(r, old). if r > old then r else old) (zip (registers h') (registers h))\<rparr>"
  have "registers u ! i = max (registers h ! i) (registers h' ! i)" if "i < 2 ^ p" for i
    using that p by (simp add: u_def max_def)
  then have "registers u ! i \<le> r \<longleftrightarrow> (\<forall>m \<in> A \<union> B. hll_index p m = i \<longrightarrow> hll_rank p m \<le> r)" if "i < 2 ^ p" for i r
    using assms that by (auto simp: hll_rep_def)
  then have "hll_rep p u (A \<union> B)" using p by (simp add: hll_rep_def u_def)
  then show ?thesis using p by (simp add: hll_merge_def u_def)
qed

interpretation hll: sketch_type "hll_ops p" "hll_rep p" for p
proof unfold_locales
  show "hll_rep p (sk_new (hll_ops p)) {}" by (simp add: hll_ops_def hll_rep_def new_hll_def)
  show "sk_count (hll_ops p) s = sk_count (hll_ops p) t" if "hll_rep p s A" "hll_rep p t A" for s t A
    using hll_rep_unique [OF that] by simp
qed (simp_all add: hll_ops_def hll_rep_add hll_rep_merge)

text \<open>What building a sketch of a list of members gives: the one sketch of their set.\<close>

definition hll_of :: "nat \<Rightarrow> string list \<Rightarrow> hll" where
  "hll_of p ns = foldl hll_add (new_hll p) ns"

lemma hll_rep_of: "hll_rep p (hll_of p ns) (set ns)"
proof -
  have "hll_rep p (foldl hll_add h ns) (A \<union> set ns)" if "hll_rep p h A" for h A
    using that
  proof (induction ns arbitrary: h A)
    case (Cons n ns)
    from Cons.IH [OF hll_rep_add [OF Cons.prems]] show ?case by simp
  qed simp
  from this [OF hll.rep_new [unfolded hll_ops_def sketch_ops.simps]] show ?thesis by (simp add: hll_of_def)
qed

text \<open>Merging the sketches of two lists of members gives the sketch of all of them, whatever the order,
  the repetitions and the overlap: the sketch is a function of the set.\<close>

theorem hll_merge_is_union:
  assumes "set zs = set xs \<union> set ys"
  shows "hll_merge (hll_of p xs) (hll_of p ys) = Inr (hll_of p zs)"
proof -
  obtain u where u: "hll_merge (hll_of p xs) (hll_of p ys) = Inr u" "hll_rep p u (set zs)"
    using hll_rep_merge [OF hll_rep_of hll_rep_of] assms by metis
  then show ?thesis using hll_rep_unique [OF u(2) hll_rep_of] by auto
qed

theorem hll_merge_is_union_witness:
  "hll_merge (hll_of 4 [''react'', ''lodash'', ''react'']) (hll_of 4 [''chalk'', ''lodash'']) =
     Inr (hll_of 4 [''chalk'', ''lodash'', ''react''])"
  by (rule hll_merge_is_union) auto

text \<open>With HyperLogLog every epoch ends without a panic, and there is a number of steps such that the
  sketch of every node is the sketch of the nodes that lead to it in at most that many.\<close>

theorem hll_epoch_returns:
  "\<exists>out j. run_epoch (hll_ops p) workers gomaxprocs nodes es = Some (Inr out) \<and>
     (\<forall>v. if v \<in> epoch_nodes nodes es then (\<exists>h. map_of out v = Some h \<and> hll_rep p h (back_k (arcs es) (Suc j) v))
       else map_of out v = None)"
proof -
  obtain out j where "run_epoch (hll_ops p) workers gomaxprocs nodes es = Some (Inr out)"
    "hll.holds p out (epoch_nodes nodes es) (back_k (arcs es) (Suc j))"
    using hll.epoch_returns by blast
  then show ?thesis unfolding hll.holds_def by blast
qed

subsection \<open>The epoch stops on counts, not on registers\<close>

definition chain :: "pkg_edge list" where
  "chain = [\<lparr>pe_from = ''n'', pe_to = ''b''\<rparr>, \<lparr>pe_from = ''b'', pe_to = ''c''\<rparr>, \<lparr>pe_from = ''c'', pe_to = ''f''\<rparr>]"

lemma chain_hashes:
  "hll_index 1 ''n'' = 0" "hll_rank 1 ''n'' = 4" "hll_index 1 ''b'' = 0" "hll_rank 1 ''b'' = 1"
  "hll_index 1 ''c'' = 0" "hll_rank 1 ''c'' = 1" "hll_index 1 ''f'' = 1" "hll_rank 1 ''f'' = 1"
  by code_simp+

definition two_registers :: "nat \<Rightarrow> nat \<Rightarrow> hll" where
  "two_registers a b = \<lparr>precision = 1, registers = [a, b]\<rparr>"

lemma chain_seeds:
  "hll_add (new_hll 1) ''n'' = two_registers 4 0" "hll_add (new_hll 1) ''b'' = two_registers 1 0"
  "hll_add (new_hll 1) ''c'' = two_registers 1 0" "hll_add (new_hll 1) ''f'' = two_registers 0 1"
  by (simp_all add: hll_add_def new_hll_def two_registers_def chain_hashes [simplified] numeral_2_eq_2)

lemma new_hll_1: "new_hll 1 = two_registers 0 0"
  by (simp add: new_hll_def two_registers_def numeral_2_eq_2)

lemma merge_two: "hll_merge (two_registers a b) (two_registers c d) = Inr (two_registers (max a c) (max b d))"
  by (simp add: hll_merge_def two_registers_def max_def)

text \<open>One empty register: linear counting, the same whatever the rank of the other.\<close>

lemma count_one_empty:
  "a > 0 \<Longrightarrow> hll_count (two_registers a 0) = round (2 * ln 2 :: real)"
  "b > 0 \<Longrightarrow> hll_count (two_registers 0 b) = round (2 * ln 2 :: real)"
proof -
  have "0.7213 / (1 + 1.079 / 2) * 2 * 2 / (x + 1) \<le> (2.5 * 2 :: real)" if "x \<ge> 0" for x
    using that by (simp add: field_simps)
  from this [of "2 powr - real a"] this [of "2 powr - real b"]
  show "a > 0 \<Longrightarrow> hll_count (two_registers a 0) = round (2 * ln 2 :: real)"
    "b > 0 \<Longrightarrow> hll_count (two_registers 0 b) = round (2 * ln 2 :: real)"
    by (auto simp: hll_count_def two_registers_def alpha_def Let_def add.commute)
qed

lemma count_full:
  "hll_count (two_registers 1 1) = 2" "hll_count (two_registers 4 1) = 3"
proof -
  have p: "2 powr (- 1) = (1 / 2 :: real)" "2 powr (- 4) = (1 / 16 :: real)"
    using powr_minus [of "2 :: real" 1] powr_minus [of "2 :: real" 4] powr_realpow [of "2 :: real" 4] by (simp_all add: field_simps)
  show "hll_count (two_registers 1 1) = 2" "hll_count (two_registers 4 1) = 3"
    by (simp_all add: hll_count_def two_registers_def alpha_def Let_def p round_def floor_eq_iff field_simps)
qed

lemma round_ln_2: "round (2 * ln 2 :: real) < 2"
proof -
  have "1 + 3 / 4 + (3 / 4)\<^sup>2 / 2 \<le> exp (3 / 4 :: real)" by (rule exp_lower_Taylor_quadratic) simp
  then have "2 < exp (3 / 4 :: real)" by (simp add: power2_eq_square)
  then have "ln 2 < ln (exp (3 / 4 :: real))" by (subst ln_less_cancel_iff) simp_all
  then have "ln 2 < (3 / 4 :: real)" by simp
  then show ?thesis unfolding round_def by linarith
qed

definition chain_state :: "hll \<Rightarrow> hll \<Rightarrow> hll \<Rightarrow> hll \<Rightarrow> hll sketches" where
  "chain_state n b c f = [(''n'', n), (''b'', b), (''c'', c), (''f'', f)]"

lemma chain_cold: "cold_start (hll_ops 1) (chain_state n b c f) =
  chain_state (two_registers 4 0) (two_registers 1 0) (two_registers 1 0) (two_registers 0 1)"
  by (simp add: cold_start_def chain_state_def hll_ops_def chain_seeds [simplified])

lemma chain_round:
  "round_of (hll_ops 1) [chain] (chain_state (two_registers n1 n2) (two_registers b1 b2) (two_registers c1 c2) f) =
     Inr (chain_state (two_registers 4 0) (two_registers (max 1 n1) n2) (two_registers (max 1 b1) b2) (two_registers c1 (max 1 c2)))"
  unfolding round_of_def chain_cold
  by (simp add: chain_state_def merge_chunk_def chain_def hll_ops_def Let_def getd_def new_hll_1 [simplified] merge_two)

lemma chain_seeded:
  "seed_all (hll_ops 1) [''n'', ''b'', ''c'', ''f''] chain =
     chain_state (two_registers 4 0) (two_registers 1 0) (two_registers 1 0) (two_registers 0 1)"
  by (simp add: seed_all_def seed_def has_key_def chain_def chain_state_def hll_ops_def chain_seeds [simplified])

lemma chain_split: "split_edges chain 1 = [chain]"
  by (simp add: split_edges_def chain_def)

lemma chain_counts:
  "counts_changed (hll_ops 1)
     (chain_state (two_registers 4 0) (two_registers 1 0) (two_registers 1 0) (two_registers 0 1))
     (chain_state (two_registers 4 0) (two_registers 4 0) (two_registers 1 0) (two_registers 1 1))"
  "\<not> counts_changed (hll_ops 1)
     (chain_state (two_registers 4 0) (two_registers 4 0) (two_registers 1 0) (two_registers 1 1))
     (chain_state (two_registers 4 0) (two_registers 4 0) (two_registers 4 0) (two_registers 1 1))"
  using round_ln_2 count_full(1) [simplified]
  by (simp_all add: counts_changed_def chain_state_def hll_ops_def count_one_empty)

lemma chain_epoch:
  "run_epoch (hll_ops 1) 1 gomaxprocs [''n'', ''b'', ''c'', ''f''] chain =
     Some (Inr (chain_state (two_registers 4 0) (two_registers 4 0) (two_registers 4 0) (two_registers 1 1)))"
  unfolding run_epoch_def workers_of_def chain_seeded
  by (simp add: chain_split, subst run_rounds.simps, simp add: chain_round [simplified] chain_counts(1) [simplified],
    subst run_rounds.simps, simp add: chain_round [simplified] chain_counts(2) [simplified])

lemma chain_reach: "{u. (u, ''f'') \<in> (arcs chain)\<^sup>*} = {''n'', ''b'', ''c'', ''f''}"
proof -
  have E: "arcs chain = {(''n'', ''b''), (''b'', ''c''), (''c'', ''f'')}" by (simp add: arcs_def chain_def)
  show ?thesis
  proof (intro equalityI subsetI)
    fix u assume "u \<in> {u. (u, ''f'') \<in> (arcs chain)\<^sup>*}"
    then have "(u, ''f'') \<in> (arcs chain)\<^sup>*" by simp
    then show "u \<in> {''n'', ''b'', ''c'', ''f''}"
      by (induction rule: converse_rtrancl_induct) (auto simp: E)
  next
    fix u assume "u \<in> {''n'', ''b'', ''c'', ''f''}"
    moreover have "(''c'', ''f'') \<in> (arcs chain)\<^sup>*" by (simp add: E r_into_rtrancl)
    moreover from this have "(''b'', ''f'') \<in> (arcs chain)\<^sup>*" by (rule converse_rtrancl_into_rtrancl [rotated]) (simp add: E)
    moreover from this have "(''n'', ''f'') \<in> (arcs chain)\<^sup>*" by (rule converse_rtrancl_into_rtrancl [rotated]) (simp add: E)
    ultimately show "u \<in> {u. (u, ''f'') \<in> (arcs chain)\<^sup>*}" by auto
  qed
qed

text \<open>The epoch compares estimates, not registers, between rounds. On a chain of four packages with two
  registers each, a round that still changes registers changes no estimate: the epoch stops, and reports 2 for
  the last package, although the sketch of the four packages that lead to it counts 3.\<close>

theorem hll_epoch_stops_early:
  "\<exists>out h. run_epoch (hll_ops 1) 1 gomaxprocs [''n'', ''b'', ''c'', ''f''] chain = Some (Inr out) \<and>
     map_of out ''f'' = Some h \<and> hll_count h = 2 \<and>
     {u. (u, ''f'') \<in> (arcs chain)\<^sup>*} = set [''n'', ''b'', ''c'', ''f''] \<and>
     hll_count (hll_of 1 [''n'', ''b'', ''c'', ''f'']) = 3"
proof -
  have "hll_of 1 [''n'', ''b'', ''c'', ''f''] = two_registers 4 1"
    by (simp add: hll_of_def chain_seeds [simplified], simp add: hll_add_def two_registers_def chain_hashes [simplified])
  then show ?thesis
    unfolding chain_epoch chain_reach using count_full by (simp add: chain_state_def)
qed

end
