(* ===== verification/Observatory.thy ===== *)
theory Observatory
  imports Sketch GraphDb
begin

text \<open>
  The package level view over time: \<open>internal/observatory\<close>. Snapshots of the dependency edges at every epoch,
  the aggregation of package sketches into account sketches, the rankings, the validation of an estimator
  against exact sets, and the rows written back. The theorems compose them with the epochs of theory Sketch.
\<close>

subsection \<open>Snapshots\<close>

record obs_release =
  or_version :: string
  or_published :: int

record obs_source =
  os_timeline :: "string \<Rightarrow> obs_release list res"
  os_dependencies :: "string \<Rightarrow> string \<Rightarrow> string list res"

fun prerelease_tag :: "string \<Rightarrow> bool" where
  "prerelease_tag [] = False"
| "prerelease_tag (c # cs) = (if c = CHR ''-'' then True else if c = CHR ''+'' then False else prerelease_tag cs)"

fun current_loop :: "int \<Rightarrow> obs_release option \<Rightarrow> obs_release list \<Rightarrow> obs_release option" where
  "current_loop t best [] = best"
| "current_loop t best (r # rs) =
     (if or_published r \<le> 0 \<or> or_published r > t \<or> prerelease_tag (or_version r) then current_loop t best rs
      else case best of
          None \<Rightarrow> current_loop t (Some r) rs
        | Some b \<Rightarrow> current_loop t (if or_published r > or_published b then Some r else best) rs)"

definition current_version :: "obs_release list \<Rightarrow> int \<Rightarrow> obs_release option" where
  "current_version releases t = current_loop t None releases"

definition note_epoch :: "obs_release list \<Rightarrow> (string, int list) gomap \<Rightarrow> int \<Rightarrow> (string, int list) gomap" where
  "note_epoch releases m e =
     (case current_version releases e of
        None \<Rightarrow> m
      | Some r \<Rightarrow> put (or_version r) (getd [] m (or_version r) @ [e]) m)"

definition epochs_by_version :: "obs_release list \<Rightarrow> int list \<Rightarrow> (string, int list) gomap" where
  "epochs_by_version releases epochs = foldl (note_epoch releases) [] epochs"

type_synonym snapshot_map = "(int, pkg_edge list) gomap"

definition add_edges :: "string \<Rightarrow> string list \<Rightarrow> snapshot_map \<Rightarrow> int \<Rightarrow> snapshot_map" where
  "add_edges name deps out e = put e (getd [] out e @ List.map (\<lambda>dep. \<lparr>pe_from = name, pe_to = dep\<rparr>) deps) out"

fun versions_loop :: "obs_source \<Rightarrow> string \<Rightarrow> (string \<times> int list) list \<Rightarrow> snapshot_map \<Rightarrow> snapshot_map res" where
  "versions_loop src name [] out = Inr out"
| "versions_loop src name ((version, at_epochs) # rest) out =
     (case os_dependencies src name version of
        Inl e \<Rightarrow> Inl (Wrap (''dependencies of '' @ name @ ''@'' @ version) e)
      | Inr deps \<Rightarrow> versions_loop src name rest (foldl (add_edges name deps) out at_epochs))"

fun names_loop :: "obs_source \<Rightarrow> int list \<Rightarrow> string list \<Rightarrow> snapshot_map \<Rightarrow> snapshot_map res" where
  "names_loop src epochs [] out = Inr out"
| "names_loop src epochs (name # names) out =
     (case os_timeline src name of
        Inl e \<Rightarrow> Inl (Wrap (''timeline of '' @ name) e)
      | Inr releases \<Rightarrow>
          (case versions_loop src name (epochs_by_version releases epochs) out of
             Inl e \<Rightarrow> Inl e
           | Inr out \<Rightarrow> names_loop src epochs names out))"

definition snapshots :: "obs_source \<Rightarrow> string list \<Rightarrow> int list \<Rightarrow> snapshot_map res" where
  "snapshots src names epochs = names_loop src epochs names (foldl (\<lambda>out e. put e [] out) [] epochs)"

text \<open>\<open>GraphSource\<close>: the two reads from the database.\<close>

definition obs_timeline_stmt :: "int \<Rightarrow> string" where
  "obs_timeline_stmt i = ''MATCH (p:Package {id: '' @ itoa i @ ''})-[:HAS_VERSION]->(v:Version) ''
     @ ''RETURN v.version AS version, v.published_at AS published''"

definition obs_release_of :: "grecord \<Rightarrow> obs_release option" where
  "obs_release_of rec =
     (case column rec ''version'' of
        PStr v \<Rightarrow> Some \<lparr>or_version = v, or_published = as_int (column rec ''published'')\<rparr>
      | _ \<Rightarrow> None)"

definition graph_timeline :: "query_fun \<Rightarrow> string \<Rightarrow> obs_release list res" where
  "graph_timeline query name =
     (case query (obs_timeline_stmt (node_id (package_urn ''npm'' name))) of
        Inl e \<Rightarrow> Inl e
      | Inr recs \<Rightarrow> Inr (List.map_filter obs_release_of recs))"

definition obs_dependencies_stmt :: "int \<Rightarrow> string" where
  "obs_dependencies_stmt i = ''MATCH (v:Version {id: '' @ itoa i @ ''})-[:DEPENDS_ON]->(p:Package) RETURN p.name AS name''"

definition text_column :: "string \<Rightarrow> grecord \<Rightarrow> string option" where
  "text_column c rec = (case column rec c of PStr s \<Rightarrow> Some s | _ \<Rightarrow> None)"

definition graph_dependencies :: "query_fun \<Rightarrow> string \<Rightarrow> string \<Rightarrow> string list res" where
  "graph_dependencies query name version =
     (case query (obs_dependencies_stmt (node_id (version_urn ''npm'' name version))) of
        Inl e \<Rightarrow> Inl e
      | Inr recs \<Rightarrow> Inr (List.map_filter (text_column ''name'') recs))"

definition graph_source :: "query_fun \<Rightarrow> obs_source" where
  "graph_source query = \<lparr>os_timeline = graph_timeline query, os_dependencies = graph_dependencies query\<rparr>"

text \<open>A release is eligible at an instant when it was published by then and is no prerelease.\<close>

definition eligible :: "int \<Rightarrow> obs_release \<Rightarrow> bool" where
  "eligible t r \<longleftrightarrow> 0 < or_published r \<and> or_published r \<le> t \<and> \<not> prerelease_tag (or_version r)"

definition newer :: "obs_release \<Rightarrow> obs_release \<Rightarrow> obs_release" where
  "newer b r = (if or_published r > or_published b then r else b)"

lemma current_loop_spec:
  "current_loop t best rs =
     (case best of
        None \<Rightarrow> (case List.filter (eligible t) rs of [] \<Rightarrow> None | r # es \<Rightarrow> Some (foldl newer r es))
      | Some b \<Rightarrow> Some (foldl newer b (List.filter (eligible t) rs)))"
  by (induction t best rs rule: current_loop.induct) (auto simp: eligible_def newer_def split: option.splits)

lemma newest_foldl:
  "foldl newer b rs \<in> set (b # rs)" "r \<in> set (b # rs) \<Longrightarrow> or_published r \<le> or_published (foldl newer b rs)"
proof (induction rs arbitrary: b r)
  case (Cons x rs)
  { case 1 show ?case using Cons.IH(1) [of "newer b x"] by (auto simp: newer_def split: if_splits) }
  { case 2
    have "or_published (newer b x) \<le> or_published (foldl newer (newer b x) rs)" by (rule Cons.IH(2)) simp
    moreover have "or_published b \<le> or_published (newer b x)" "or_published x \<le> or_published (newer b x)" by (simp_all add: newer_def)
    moreover have "or_published r \<le> or_published (foldl newer (newer b x) rs)" if "r \<in> set rs" using that by (intro Cons.IH(2)) simp
    ultimately show ?case using 2 by auto }
qed simp_all

lemma current_version_Some:
  assumes "current_version rs t = Some r"
  shows "r \<in> set rs" "eligible t r" "\<And>r'. r' \<in> set rs \<Longrightarrow> eligible t r' \<Longrightarrow> or_published r' \<le> or_published r"
proof -
  obtain b es where es: "List.filter (eligible t) rs = b # es" "r = foldl newer b es"
    using assms by (auto simp: current_version_def current_loop_spec split: list.splits)
  have "r \<in> set (List.filter (eligible t) rs)" unfolding es by (rule newest_foldl(1))
  then show "r \<in> set rs" "eligible t r" by simp_all
  show "or_published r' \<le> or_published r" if "r' \<in> set rs" "eligible t r'" for r'
    unfolding es(2) by (rule newest_foldl(2)) (use that in \<open>simp flip: es(1)\<close>)
qed

lemma current_version_None: "current_version rs t = None \<longleftrightarrow> List.filter (eligible t) rs = []"
  by (auto simp: current_version_def current_loop_spec split: list.splits)

lemma getd_add_edges:
  "getd [] (add_edges name deps out e) e' =
     getd [] out e' @ (if e' = e then List.map (\<lambda>dep. \<lparr>pe_from = name, pe_to = dep\<rparr>) deps else [])"
  by (simp add: add_edges_def)

lemma foldl_add_edges:
  "set (getd [] (foldl (add_edges name deps) out es) e) =
     set (getd [] out e) \<union> (if e \<in> set es then {\<lparr>pe_from = name, pe_to = dep\<rparr> | dep. dep \<in> set deps} else {})"
  by (induction es arbitrary: out) (auto simp: getd_add_edges)

lemma note_epoch_at:
  "x \<in> set (getd [] (note_epoch rs m e) v) \<longleftrightarrow>
     x \<in> set (getd [] m v) \<or> x = e \<and> map_option or_version (current_version rs e) = Some v"
  "distinct (keys m) \<Longrightarrow> distinct (keys (note_epoch rs m e))"
  by (auto simp: note_epoch_def distinct_keys_put split: option.splits)

lemma epochs_by_version_at:
  "x \<in> set (getd [] (epochs_by_version rs epochs) v) \<longleftrightarrow> x \<in> set epochs \<and> map_option or_version (current_version rs x) = Some v"
  "distinct (keys (epochs_by_version rs epochs))"
proof -
  have "x \<in> set (getd [] (foldl (note_epoch rs) m epochs) v) \<longleftrightarrow>
     x \<in> set (getd [] m v) \<or> x \<in> set epochs \<and> map_option or_version (current_version rs x) = Some v" for m
    by (induction epochs arbitrary: m) (auto simp: note_epoch_at(1))
  from this [of "[]"] show "x \<in> set (getd [] (epochs_by_version rs epochs) v) \<longleftrightarrow>
    x \<in> set epochs \<and> map_option or_version (current_version rs x) = Some v" by (simp add: epochs_by_version_def)
  have "distinct (keys m) \<Longrightarrow> distinct (keys (foldl (note_epoch rs) m epochs))" for m
    by (induction epochs arbitrary: m) (simp_all add: note_epoch_at(2))
  then show "distinct (keys (epochs_by_version rs epochs))" by (simp add: epochs_by_version_def)
qed

text \<open>What the loops add for a name: the dependencies of the version current at each epoch.\<close>

definition edges_at :: "obs_source \<Rightarrow> string \<Rightarrow> (string \<times> int list) list \<Rightarrow> int \<Rightarrow> pkg_edge set" where
  "edges_at src name vs e =
     {\<lparr>pe_from = name, pe_to = dep\<rparr> | dep. \<exists>v ds. (\<exists>es. (v, es) \<in> set vs \<and> e \<in> set es) \<and> os_dependencies src name v = Inr ds \<and> dep \<in> set ds}"

lemma versions_loop_edges:
  "versions_loop src name vs out = Inr out' \<Longrightarrow> set (getd [] out' e) = set (getd [] out e) \<union> edges_at src name vs e"
proof (induction src name vs out rule: versions_loop.induct)
  case (2 src name v es rest out)
  then obtain ds where ds: "os_dependencies src name v = Inr ds"
    and rest: "versions_loop src name rest (foldl (add_edges name ds) out es) = Inr out'"
    by (auto split: sum.splits)
  have "edges_at src name ((v, es) # rest) e =
    (if e \<in> set es then {\<lparr>pe_from = name, pe_to = dep\<rparr> | dep. dep \<in> set ds} else {}) \<union> edges_at src name rest e"
    using ds by (auto simp: edges_at_def)
  with "2.IH" [OF ds rest] show ?case by (simp add: foldl_add_edges Un_assoc)
qed (simp add: edges_at_def)

definition dependency_at :: "obs_source \<Rightarrow> int \<Rightarrow> string \<Rightarrow> string \<Rightarrow> bool" where
  "dependency_at src e name dep \<longleftrightarrow>
     (\<exists>rs r ds. os_timeline src name = Inr rs \<and> current_version rs e = Some r \<and>
        os_dependencies src name (or_version r) = Inr ds \<and> dep \<in> set ds)"

lemma by_version_entry:
  "(\<exists>es. (v, es) \<in> set (epochs_by_version rs epochs) \<and> e \<in> set es) \<longleftrightarrow>
     e \<in> set epochs \<and> map_option or_version (current_version rs e) = Some v"
proof -
  have m: "(v, es) \<in> set (epochs_by_version rs epochs) \<longleftrightarrow> map_of (epochs_by_version rs epochs) v = Some es" for es
    by (rule map_of_eq_Some_iff [OF epochs_by_version_at(2) [unfolded keys_def], symmetric])
  have "(\<exists>es. map_of (epochs_by_version rs epochs) v = Some es \<and> e \<in> set es) \<longleftrightarrow> e \<in> set (getd [] (epochs_by_version rs epochs) v)"
    by (cases "map_of (epochs_by_version rs epochs) v") (simp_all add: getd_def)
  then show ?thesis unfolding m epochs_by_version_at(1) .
qed

lemma dependency_at_iff:
  "os_timeline src name = Inr rs \<Longrightarrow> dependency_at src e name dep \<longleftrightarrow>
     (\<exists>v ds. map_option or_version (current_version rs e) = Some v \<and> os_dependencies src name v = Inr ds \<and> dep \<in> set ds)"
  unfolding dependency_at_def by (cases "current_version rs e") auto

lemma edges_at_current:
  assumes "os_timeline src name = Inr rs"
  shows "edges_at src name (epochs_by_version rs epochs) e =
    {\<lparr>pe_from = name, pe_to = dep\<rparr> | dep. e \<in> set epochs \<and> dependency_at src e name dep}"
  unfolding edges_at_def by_version_entry dependency_at_iff [OF assms] by auto

lemma names_loop_edges:
  "names_loop src epochs names out = Inr out' \<Longrightarrow>
     set (getd [] out' e) = set (getd [] out e) \<union>
       {\<lparr>pe_from = name, pe_to = dep\<rparr> | name dep. e \<in> set epochs \<and> name \<in> set names \<and> dependency_at src e name dep}"
proof (induction src epochs names out rule: names_loop.induct)
  case (2 src epochs name names out)
  then obtain rs mid where rs: "os_timeline src name = Inr rs"
    "versions_loop src name (epochs_by_version rs epochs) out = Inr mid" "names_loop src epochs names mid = Inr out'"
    by (auto split: sum.splits)
  from "2.IH" [OF rs] versions_loop_edges [OF rs(2), of e] show ?case
    unfolding edges_at_current [OF rs(1)] by auto
qed simp

lemma getd_no_edges: "getd [] (foldl (\<lambda>out e. put e [] out) out0 epochs) e = (if e \<in> set epochs then [] else getd [] out0 e)"
  by (induction epochs arbitrary: out0) auto


definition sample_source :: obs_source where
  "sample_source =
     \<lparr>os_timeline = \<lambda>_. Inr [\<lparr>or_version = ''1.0.0'', or_published = 10\<rparr>, \<lparr>or_version = ''2.0.0-rc'', or_published = 20\<rparr>,
        \<lparr>or_version = ''2.0.0'', or_published = 30\<rparr>],
      os_dependencies = \<lambda>n v. if v = ''1.0.0'' then Inr [''old''] else Inr [''new'']\<rparr>"

lemma sample_snapshots:
  "snapshots sample_source [''a''] [5, 25, 30] =
     Inr [(5, []), (25, [\<lparr>pe_from = ''a'', pe_to = ''old''\<rparr>]), (30, [\<lparr>pe_from = ''a'', pe_to = ''new''\<rparr>])]"
  by (simp add: snapshots_def sample_source_def epochs_by_version_def note_epoch_def current_version_def getd_def add_edges_def)


subsection \<open>Accounts\<close>

fun credit :: "('s, 'x) sketch_ops_scheme \<Rightarrow> 's \<Rightarrow> string list \<Rightarrow> 's sketches \<Rightarrow> 's sketches res" where
  "credit ops sk [] ms = Inr ms"
| "credit ops sk (h # hs) ms =
     (case sk_merge ops (getd (sk_new ops) ms h) sk of
        Inl e \<Rightarrow> Inl e
      | Inr acc \<Rightarrow> credit ops sk hs (put h acc ms))"

fun aggregate_loop ::
  "('s, 'x) sketch_ops_scheme \<Rightarrow> (string \<Rightarrow> int \<Rightarrow> string list res) \<Rightarrow> int \<Rightarrow> (string \<times> 's) list \<Rightarrow> 's sketches \<times> string list \<Rightarrow>
   ('s sketches \<times> string list) res" where
  "aggregate_loop ops holders_of instant [] st = Inr st"
| "aggregate_loop ops holders_of instant ((name, sk) # rest) st =
     (case holders_of name instant of
        Inl e \<Rightarrow> Inl (Wrap (''maintainers of '' @ name) e)
      | Inr holders \<Rightarrow>
          if holders = [] then aggregate_loop ops holders_of instant rest (fst st, snd st @ [name])
          else (case credit ops sk holders (fst st) of
              Inl e \<Rightarrow> Inl e
            | Inr ms \<Rightarrow> aggregate_loop ops holders_of instant rest (ms, snd st)))"

definition aggregate ::
  "('s, 'x) sketch_ops_scheme \<Rightarrow> (string \<Rightarrow> int \<Rightarrow> string list res) \<Rightarrow> 's sketches \<Rightarrow> int \<Rightarrow> ('s sketches \<times> string list) res" where
  "aggregate ops holders_of packages instant = aggregate_loop ops holders_of instant packages ([], [])"

definition holders_stmt :: "int \<Rightarrow> int \<Rightarrow> string" where
  "holders_stmt i instant = ''MATCH (m:Maintainer)-[r:MAINTAINS]->(p:Package {id: '' @ itoa i @ ''}) WHERE r.valid_from <= ''
     @ itoa instant @ '' AND r.valid_to > '' @ itoa instant @ '' RETURN m.handle AS handle''"

definition graph_holders :: "query_fun \<Rightarrow> string \<Rightarrow> int \<Rightarrow> string list res" where
  "graph_holders query name instant =
     (case query (holders_stmt (node_id (package_urn ''npm'' name)) instant) of
        Inl e \<Rightarrow> Inl e
      | Inr recs \<Rightarrow> Inr (List.map_filter (text_column ''handle'') recs))"

text \<open>What the accounts are credited with: the union of what the packages they hold are reached by.\<close>

context sketch_type
begin

lemma credit_holds:
  "holds ms M g \<Longrightarrow> rep sk A \<Longrightarrow> \<exists>out. credit ops sk hs ms = Inr out \<and>
     holds out (M \<union> set hs) (\<lambda>h. (if h \<in> M then g h else {}) \<union> (if h \<in> set hs then A else {}))"
proof (induction hs arbitrary: ms M g)
  case Nil
  have "holds ms M (\<lambda>h. if h \<in> M then g h else {})" using Nil(1) by (auto simp: holds_def)
  then show ?case by simp
next
  case (Cons h hs)
  have "rep (getd (sk_new ops) ms h) (if h \<in> M then g h else {})"
    using Cons.prems(1) rep_new by (auto simp: holds_def getd_def split: option.splits dest!: spec [of _ h])
  then obtain u where u: "sk_merge ops (getd (sk_new ops) ms h) sk = Inr u" "rep u ((if h \<in> M then g h else {}) \<union> A)"
    using rep_merge [OF _ Cons.prems(2)] by blast
  let ?g = "g(h := (if h \<in> M then g h else {}) \<union> A)"
  from Cons.IH [OF holds_put [OF Cons.prems(1) u(2), of h] Cons.prems(2)] obtain out where
    out: "credit ops sk hs (put h u ms) = Inr out"
    "holds out (insert h M \<union> set hs) (\<lambda>x. (if x \<in> insert h M then ?g x else {}) \<union> (if x \<in> set hs then A else {}))" by blast
  have "(\<lambda>x. (if x \<in> insert h M then ?g x else {}) \<union> (if x \<in> set hs then A else {}))
    = (\<lambda>x. (if x \<in> M then g x else {}) \<union> (if x \<in> set (h # hs) then A else {}))"
    by (rule ext) auto
  with out show ?case by (simp add: u)
qed

lemma aggregate_loop_holds:
  assumes "\<And>n s. (n, s) \<in> set ps \<Longrightarrow> rep s (f n)" "holds ms M g"
  shows "\<exists>out. aggregate_loop ops (\<lambda>n _. Inr (H n)) instant ps (ms, orph) = Inr (out, orph @ List.filter (\<lambda>n. H n = []) (keys ps)) \<and>
    holds out (M \<union> \<Union> (set ` H ` set (keys ps)))
      (\<lambda>h. (if h \<in> M then g h else {}) \<union> (\<Union>n \<in> {n \<in> set (keys ps). h \<in> set (H n)}. f n))"
  using assms
proof (induction ps arbitrary: ms M g orph)
  case Nil
  have "holds ms M (\<lambda>h. if h \<in> M then g h else {})" using Nil(2) by (auto simp: holds_def)
  then show ?case by simp
next
  case (Cons p ps)
  obtain n sk where p: "p = (n, sk)" by (cases p)
  have sk: "rep sk (f n)" and rest: "\<And>n s. (n, s) \<in> set ps \<Longrightarrow> rep s (f n)" using Cons.prems(1) p by auto
  show ?case
  proof (cases "H n = []")
    case True
    from Cons.IH [OF rest Cons.prems(2), of "orph @ [n]"] obtain out where
      "aggregate_loop ops (\<lambda>n _. Inr (H n)) instant ps (ms, orph @ [n]) = Inr (out, (orph @ [n]) @ List.filter (\<lambda>n. H n = []) (keys ps))"
      "holds out (M \<union> \<Union> (set ` H ` set (keys ps)))
        (\<lambda>h. (if h \<in> M then g h else {}) \<union> (\<Union>n \<in> {n \<in> set (keys ps). h \<in> set (H n)}. f n))" by blast
    moreover have "{m \<in> set (keys (p # ps)). h \<in> set (H m)} = {m \<in> set (keys ps). h \<in> set (H m)}" for h
      using True p by (auto simp: keys_def)
    ultimately show ?thesis using True by (simp add: p keys_def)
  next
    case False
    obtain mid where mid: "credit ops sk (H n) ms = Inr mid"
      "holds mid (M \<union> set (H n)) (\<lambda>h. (if h \<in> M then g h else {}) \<union> (if h \<in> set (H n) then f n else {}))"
      using credit_holds [OF Cons.prems(2) sk] by blast
    from Cons.IH [OF rest mid(2), of orph] obtain out where
      out: "aggregate_loop ops (\<lambda>n _. Inr (H n)) instant ps (mid, orph) = Inr (out, orph @ List.filter (\<lambda>n. H n = []) (keys ps))"
      "holds out (M \<union> set (H n) \<union> \<Union> (set ` H ` set (keys ps)))
        (\<lambda>h. (if h \<in> M \<union> set (H n) then (if h \<in> M then g h else {}) \<union> (if h \<in> set (H n) then f n else {}) else {})
          \<union> (\<Union>n \<in> {n \<in> set (keys ps). h \<in> set (H n)}. f n))" by blast
    have "(\<lambda>h. (if h \<in> M \<union> set (H n) then (if h \<in> M then g h else {}) \<union> (if h \<in> set (H n) then f n else {}) else {})
          \<union> (\<Union>n \<in> {n \<in> set (keys ps). h \<in> set (H n)}. f n))
      = (\<lambda>h. (if h \<in> M then g h else {}) \<union> (\<Union>m \<in> {m \<in> set (keys (p # ps)). h \<in> set (H m)}. f m))"
      by (rule ext) (auto simp: p keys_def)
    moreover have "M \<union> set (H n) \<union> \<Union> (set ` H ` set (keys ps)) = M \<union> \<Union> (set ` H ` set (keys (p # ps)))"
      by (auto simp: p keys_def)
    ultimately show ?thesis using out False by (simp add: p mid keys_def)
  qed
qed

lemma aggregate_holds:
  assumes "holds packages N f"
  shows "\<exists>out. aggregate ops (\<lambda>n _. Inr (H n)) packages instant = Inr (out, List.filter (\<lambda>n. H n = []) (keys packages)) \<and>
    holds out (\<Union> (set ` H ` N)) (\<lambda>h. \<Union>n \<in> {n \<in> N. h \<in> set (H n)}. f n)"
proof -
  have "holds [] {} (\<lambda>_. {})" by (simp add: holds_def)
  moreover have "\<And>n s. (n, s) \<in> set packages \<Longrightarrow> rep s (f n)" using holds_entries [OF assms] by blast
  ultimately show ?thesis
    using aggregate_loop_holds [of packages f "[]" "{}" "\<lambda>_. {}" H instant "[]"] holds_keys [OF assms]
    by (simp add: aggregate_def)
qed

end


subsection \<open>Rankings\<close>

record leader =
  lb_name :: string
  lb_kri :: int

definition leader_before :: "leader \<Rightarrow> leader \<Rightarrow> bool" where
  "leader_before x y = (if lb_kri x \<noteq> lb_kri y then lb_kri x > lb_kri y else lb_name x < lb_name y)"

definition rank_results :: "('s \<Rightarrow> int) \<Rightarrow> 's sketches \<Rightarrow> leader list" where
  "rank_results cnt results = sort_slice leader_before (List.map (\<lambda>(n, sk). \<lparr>lb_name = n, lb_kri = cnt sk\<rparr>) results)"

definition top :: "leader list \<Rightarrow> int \<Rightarrow> leader list" where
  "top entries n = (if n > 0 \<and> n < int (length entries) then take (nat n) entries else entries)"

definition leaderboard :: "('s \<Rightarrow> int) \<Rightarrow> 's sketches \<Rightarrow> int \<Rightarrow> leader list" where
  "leaderboard cnt results n = top (rank_results cnt results) n"

text \<open>\<open>Orphaned\<close>: a name without a sketch puts a nil sketch into the subset, whose count panics.\<close>

fun orphan_subset :: "'s sketches \<Rightarrow> string list \<Rightarrow> 's sketches \<Rightarrow> 's sketches res" where
  "orphan_subset packages [] sub = Inr sub"
| "orphan_subset packages (p # ps) sub =
     (case map_of packages p of
        None \<Rightarrow> Inl nil_sketch
      | Some sk \<Rightarrow> orphan_subset packages ps (put p sk sub))"

definition orphaned_board :: "('s \<Rightarrow> int) \<Rightarrow> 's sketches \<Rightarrow> string list \<Rightarrow> int \<Rightarrow> leader list res" where
  "orphaned_board cnt packages orphans n =
     (case orphan_subset packages orphans [] of
        Inl e \<Rightarrow> Inl e
      | Inr sub \<Rightarrow> Inr (top (rank_results cnt sub) n))"

interpretation by_kri: slice_order leader_before "\<lambda>_. True"
  by unfold_locales (auto simp: leader_before_def split: if_splits)

lemma rank_results_order: "mset results = mset results' \<Longrightarrow> rank_results cnt results = rank_results cnt results'"
proof -
  assume m: "mset results = mset results'"
  let ?f = "\<lambda>(n, sk). \<lparr>lb_name = n, lb_kri = cnt sk\<rparr>"
  have s: "sorted_wrt (\<lambda>x y. \<not> leader_before y x) (sort_slice leader_before xs)" for xs
    by (rule by_kri.sorted_sort_slice) simp
  show ?thesis unfolding rank_results_def
  proof (rule by_kri.sorted_unique [OF _ _ s s])
    show "mset (sort_slice leader_before (List.map ?f results)) = mset (sort_slice leader_before (List.map ?f results'))"
      by (simp only: mset_sort_slice mset_map m)
  qed (auto simp: leader_before_def)
qed

text \<open>A ranking lists the entries by falling reach, ties by name, cut to the number asked for, and it does
  not depend on the order in which Go ranges over the map.\<close>

theorem leaderboard_ranks:
  assumes "mset results = mset results'"
  shows "leaderboard cnt results n = leaderboard cnt results' n \<and>
    sorted_wrt (\<lambda>x y. lb_kri x > lb_kri y \<or> lb_kri x = lb_kri y \<and> lb_name x \<le> lb_name y) (leaderboard cnt results n) \<and>
    (n \<le> 0 \<longrightarrow> mset (leaderboard cnt results n) = image_mset (\<lambda>(v, sk). \<lparr>lb_name = v, lb_kri = cnt sk\<rparr>) (mset results)) \<and>
    (n > 0 \<longrightarrow> length (leaderboard cnt results n) = min (nat n) (length results))"
proof -
  let ?r = "rank_results cnt results"
  have "sorted_wrt (\<lambda>x y. \<not> leader_before y x) ?r"
    unfolding rank_results_def by (rule by_kri.sorted_sort_slice) simp
  then have "sorted_wrt (\<lambda>x y. lb_kri x > lb_kri y \<or> lb_kri x = lb_kri y \<and> lb_name x \<le> lb_name y) ?r"
    by (rule sorted_wrt_mono_rel [rotated]) (auto simp: leader_before_def split: if_splits)
  then have "sorted_wrt (\<lambda>x y. lb_kri x > lb_kri y \<or> lb_kri x = lb_kri y \<and> lb_name x \<le> lb_name y) (leaderboard cnt results n)"
    by (simp add: leaderboard_def top_def sorted_wrt_take)
  moreover have "length ?r = length results" by (simp add: rank_results_def)
  moreover have "mset ?r = image_mset (\<lambda>(v, sk). \<lparr>lb_name = v, lb_kri = cnt sk\<rparr>) (mset results)" by (simp add: rank_results_def)
  ultimately show ?thesis using rank_results_order [OF assms] by (auto simp: leaderboard_def top_def)
qed

theorem leaderboard_ranks_witness:
  "leaderboard id [(''a'', 1), (''b'', 3), (''c'', 3)] 2 = leaderboard id [(''c'', 3), (''a'', 1), (''b'', 3)] 2"
  using leaderboard_ranks [of "[(''a'', 1), (''b'', 3), (''c'', 3)]" "[(''c'', 3), (''a'', 1), (''b'', 3)]" id 2] by simp

subsection \<open>Validation\<close>

record validation =
  va_package :: string
  va_exact :: int
  va_estimate :: int

definition relative_error :: "validation \<Rightarrow> rat" where
  "relative_error r =
     (if va_exact r = 0 then (if va_estimate r = 0 then 0 else 1)
      else \<bar>of_int (va_estimate r - va_exact r)\<bar> / of_int (va_exact r))"

fun validate_loop :: "exact_set sketches \<Rightarrow> ('s \<Rightarrow> int) \<Rightarrow> 's sketches \<Rightarrow> string list \<Rightarrow> validation list res" where
  "validate_loop ex cnt est [] = Inr []"
| "validate_loop ex cnt est (p # ps) =
     (case (map_of ex p, map_of est p) of
        (Some s, Some t) \<Rightarrow>
          (case validate_loop ex cnt est ps of
             Inl e \<Rightarrow> Inl e
           | Inr rs \<Rightarrow> Inr (\<lparr>va_package = p, va_exact = exact_count s, va_estimate = cnt t\<rparr> # rs))
      | _ \<Rightarrow> Inl nil_sketch)"

definition validate ::
  "('s, 'x) sketch_ops_scheme \<Rightarrow> int \<Rightarrow> string list \<Rightarrow> pkg_edge list \<Rightarrow> string list \<Rightarrow> validation list res option" where
  "validate ops gomaxprocs nodes es sample =
     (case run_epoch exact_ops 0 gomaxprocs nodes es of
        None \<Rightarrow> None
      | Some (Inl e) \<Rightarrow> Some (Inl e)
      | Some (Inr ex) \<Rightarrow>
          (case run_epoch ops 0 gomaxprocs nodes es of
             None \<Rightarrow> None
           | Some (Inl e) \<Rightarrow> Some (Inl e)
           | Some (Inr est) \<Rightarrow>
               (case validate_loop ex (sk_count ops) est sample of
                  Inl e \<Rightarrow> Some (Inl e)
                | Inr rs \<Rightarrow> Some (Inr (sort_slice (\<lambda>x y. va_exact x > va_exact y) rs)))))"

lemma validate_loop_rows:
  "(\<And>p. p \<in> set ps \<Longrightarrow> \<exists>s t. map_of ex p = Some s \<and> map_of est p = Some t \<and> exact_count s = e p) \<Longrightarrow>
     \<exists>rs. validate_loop ex cnt est ps = Inr rs \<and> List.map (\<lambda>r. (va_package r, va_exact r)) rs = List.map (\<lambda>p. (p, e p)) ps"
proof (induction ps)
  case (Cons p ps)
  then obtain rs where "validate_loop ex cnt est ps = Inr rs"
    "List.map (\<lambda>r. (va_package r, va_exact r)) rs = List.map (\<lambda>p. (p, e p)) ps" by auto
  moreover obtain s t where "map_of ex p = Some s" "map_of est p = Some t" "exact_count s = e p" using Cons.prems [of p] by auto
  ultimately show ?case by simp
qed simp

text \<open>The validation of HyperLogLog on packages of the epoch returns one result for each of them, by
  falling exact reach, and the exact column is the number of packages from which the edges lead to it.\<close>

theorem validation_is_exact:
  assumes "set sample \<subseteq> epoch_nodes nodes es"
  shows "\<exists>rs. validate (hll_ops p) gomaxprocs nodes es sample = Some (Inr rs) \<and>
    image_mset (\<lambda>r. (va_package r, va_exact r)) (mset rs) =
      image_mset (\<lambda>v. (v, int (card {u. (u, v) \<in> (arcs es)\<^sup>*}))) (mset sample) \<and>
    sorted_wrt (\<lambda>x y. va_exact x \<ge> va_exact y) rs"
proof -
  obtain ex where ex: "run_epoch exact_ops 0 gomaxprocs nodes es = Some (Inr ex)"
    "exact.holds ex (epoch_nodes nodes es) (\<lambda>v. {u. (u, v) \<in> (arcs es)\<^sup>*})"
    using exact.epoch_exact by blast
  obtain est j where est: "run_epoch (hll_ops p) 0 gomaxprocs nodes es = Some (Inr est)"
    "hll.holds p est (epoch_nodes nodes es) (back_k (arcs es) (Suc j))"
    using hll.epoch_returns by blast
  have "\<exists>s t. map_of ex v = Some s \<and> map_of est v = Some t \<and> exact_count s = int (card {u. (u, v) \<in> (arcs es)\<^sup>*})"
    if "v \<in> set sample" for v
  proof -
    have v: "v \<in> epoch_nodes nodes es" using that assms by auto
    obtain s where s: "map_of ex v = Some s" "exact_rep s {u. (u, v) \<in> (arcs es)\<^sup>*}" using exact.holds_in [OF ex(2) v] by blast
    have "sk_count exact_ops s = int (card {u. (u, v) \<in> (arcs es)\<^sup>*})" by (rule exact.count_card [OF s(2)])
    then show ?thesis using s(1) hll.holds_in [OF est(2) v] by (auto simp: exact_ops_def)
  qed
  from validate_loop_rows [of sample ex est "\<lambda>v. int (card {u. (u, v) \<in> (arcs es)\<^sup>*})" "sk_count (hll_ops p)", OF this]
  obtain rs where rs: "validate_loop ex (sk_count (hll_ops p)) est sample = Inr rs"
    "List.map (\<lambda>r. (va_package r, va_exact r)) rs = List.map (\<lambda>v. (v, int (card {u. (u, v) \<in> (arcs es)\<^sup>*}))) sample"
    by blast
  let ?out = "sort_slice (\<lambda>x y. va_exact x > va_exact y) rs"
  have "image_mset (\<lambda>r. (va_package r, va_exact r)) (mset ?out) =
      image_mset (\<lambda>v. (v, int (card {u. (u, v) \<in> (arcs es)\<^sup>*}))) (mset sample)"
    using arg_cong [OF rs(2), of mset] by simp
  moreover have "sorted_wrt (\<lambda>x y. va_exact x \<ge> va_exact y) ?out"
  proof -
    have "sorted_wrt (\<lambda>x y. \<not> va_exact x < va_exact y) ?out"
      using slice_order.sorted_sort_slice [of "\<lambda>x y. va_exact x > va_exact y" "\<lambda>_. True" rs]
      by (auto simp: slice_order_def)
    then show ?thesis by (rule sorted_wrt_mono_rel [rotated]) simp
  qed
  ultimately show ?thesis by (simp add: validate_def ex(1) est(1) rs(1))
qed

theorem validation_is_exact_witness:
  "\<exists>rs. validate (hll_ops 8) 4 [''x''] [\<lparr>pe_from = ''a'', pe_to = ''b''\<rparr>] [''b'', ''x''] = Some (Inr rs) \<and>
    image_mset (\<lambda>r. (va_package r, va_exact r)) (mset rs) =
      image_mset (\<lambda>v. (v, int (card {u. (u, v) \<in> (arcs [\<lparr>pe_from = ''a'', pe_to = ''b''\<rparr>])\<^sup>*}))) (mset [''b'', ''x'']) \<and>
    sorted_wrt (\<lambda>x y. va_exact x \<ge> va_exact y) rs"
  by (rule validation_is_exact) (simp add: epoch_nodes_def)

subsection \<open>What is written back\<close>

definition kri_stmt :: "string \<Rightarrow> string" where
  "kri_stmt label = ''UNWIND $rows AS row MERGE (n {id: row.id}) SET n:'' @ label @ '', n.kri = row.kri, n.kri_at = row.at''"

definition write_back ::
  "'w runner \<Rightarrow> (err \<Rightarrow> bool) \<Rightarrow> ('w \<Rightarrow> err option) \<Rightarrow> ('s \<Rightarrow> int) \<Rightarrow> 's sketches \<Rightarrow> int \<Rightarrow> string \<Rightarrow> (string \<Rightarrow> string)
     \<Rightarrow> int \<Rightarrow> 'w \<Rightarrow> nat \<times> err option \<times> 'w" where
  "write_back run transient ended cnt results instant label urn batch w =
     (let rows = List.map (\<lambda>(i, sk). [(''id'', PInt (node_id (urn i))), (''kri'', PInt (cnt sk)), (''at'', PInt instant)]) results
      in write_batch run transient ended (kri_stmt label) rows batch w)"

definition kri_history_stmt :: "string \<Rightarrow> string" where
  "kri_history_stmt label = ''UNWIND $rows AS row MATCH (n1:'' @ label @ '' {id: row.id}), (n2:'' @ label
     @ '' {id: row.id}) MERGE (n1)-[r:KRI_AT {id: row.edge_id}]->(n2) ''
     @ ''SET r.epoch = row.epoch, r.kri = row.kri, r.orphaned = row.orphaned''"

definition kri_history_row :: "('s \<Rightarrow> int) \<Rightarrow> string list \<Rightarrow> int \<Rightarrow> (string \<Rightarrow> string) \<Rightarrow> string \<times> 's \<Rightarrow> row" where
  "kri_history_row cnt orphans instant urn e =
     (let u = urn (fst e) in
      [(''id'', PInt (node_id u)), (''edge_id'', PInt (edge_id u ''KRI_AT'' u (itoa instant))), (''epoch'', PInt instant),
       (''kri'', PInt (cnt (snd e))), (''orphaned'', PBool (fst e \<in> set orphans))])"

definition write_kri_history ::
  "'w runner \<Rightarrow> (err \<Rightarrow> bool) \<Rightarrow> ('w \<Rightarrow> err option) \<Rightarrow> ('s \<Rightarrow> int) \<Rightarrow> 's sketches \<Rightarrow> string list \<Rightarrow> int \<Rightarrow> string
     \<Rightarrow> (string \<Rightarrow> string) \<Rightarrow> int \<Rightarrow> 'w \<Rightarrow> nat \<times> err option \<times> 'w" where
  "write_kri_history run transient ended cnt results orphans instant label urn batch w =
     write_batch run transient ended (kri_history_stmt label) (List.map (kri_history_row cnt orphans instant urn) results) batch w"

definition link_pkg_resolves :: string where
  "link_pkg_resolves = ''UNWIND $rows AS row MATCH (s:Package {id: row.src}), (d:Package {id: row.dst}) ''
     @ ''MERGE (s)-[r:PKG_RESOLVES {id: row.id}]->(d) SET r.epoch = row.epoch''"

definition snapshot_row :: "int \<Rightarrow> pkg_edge \<Rightarrow> row" where
  "snapshot_row epoch e =
     (let src = package_urn ''npm'' (pe_from e); dst = package_urn ''npm'' (pe_to e) in
      [(''src'', PInt (node_id src)), (''dst'', PInt (node_id dst)),
       (''id'', PInt (edge_id src ''PKG_RESOLVES'' dst (itoa epoch))), (''epoch'', PInt epoch)])"

definition write_snapshots ::
  "'w runner \<Rightarrow> (err \<Rightarrow> bool) \<Rightarrow> ('w \<Rightarrow> err option) \<Rightarrow> snapshot_map \<Rightarrow> int \<Rightarrow> 'w \<Rightarrow> nat \<times> err option \<times> 'w" where
  "write_snapshots run transient ended snaps batch w =
     write_batch run transient ended link_pkg_resolves
       (concat (List.map (\<lambda>(epoch, es). List.map (snapshot_row epoch) es) snaps)) batch w"

end
