(* ===== verification/Lockfile.thy ===== *)
theory Lockfile
  imports Checkpoint
begin

text \<open>
  Reading lockfiles: \<open>internal/lockfile\<close>. The three formats give pins, which \<open>normalise\<close> deduplicates and
  sorts. JSON decoding of package-lock.json is done before the model: a document is the decoded value, its
  maps in the order in which Go happens to range over them.
\<close>

subsection \<open>Pins\<close>

record pin =
  pin_name :: string
  pin_version :: string
  pin_direct :: bool
  pin_dev :: bool

record lockfile =
  lf_project :: string
  lf_format :: string
  lf_pins :: "pin list"

definition format_npm :: string where
  "format_npm = ''package-lock.json''"

definition format_pnpm :: string where
  "format_pnpm = ''pnpm-lock.yaml''"

definition format_yarn :: string where
  "format_yarn = ''yarn.lock''"

definition pin_key :: "pin \<Rightarrow> string" where
  "pin_key p = pin_name p @ ''@'' @ pin_version p"

text \<open>The pins so far, and for each key seen the index of its pin.\<close>

definition add_pin :: "(string, nat) gomap \<times> pin list \<Rightarrow> pin \<Rightarrow> (string, nat) gomap \<times> pin list" where
  "add_pin st p =
     (let (seen, out) = st in
      if pin_name p = [] \<or> pin_version p = [] then (seen, out)
      else case map_of seen (pin_key p) of
          Some i \<Rightarrow> (seen, out[i := (out ! i)\<lparr>pin_direct := pin_direct (out ! i) \<or> pin_direct p, pin_dev := pin_dev (out ! i) \<and> pin_dev p\<rparr>])
        | None \<Rightarrow> (put (pin_key p) (length out) seen, out @ [p]))"

definition pin_before :: "pin \<Rightarrow> pin \<Rightarrow> bool" where
  "pin_before p q = (if pin_name p \<noteq> pin_name q then pin_name p < pin_name q else pin_version p < pin_version q)"

definition normalise :: "lockfile \<Rightarrow> lockfile" where
  "normalise l = l\<lparr>lf_pins := sort_slice pin_before (snd (foldl add_pin ([], []) (lf_pins l)))\<rparr>"

subsection \<open>package-lock.json\<close>

text \<open>An entry of the flat map; a raw message is its text, empty when the field is absent.\<close>

record npm_package =
  np_name :: string
  np_version :: string
  np_dev :: bool
  np_link :: bool
  np_deps :: string
  np_dev_deps :: string

datatype npm_v1 = NpmV1 (v1_version: string) (v1_dev: bool) (v1_dependencies: "(string \<times> npm_v1) list")

record npm_doc =
  nd_name :: string
  nd_packages :: "(string, npm_package) gomap"
  nd_dependencies :: "(string \<times> npm_v1) list"

text \<open>\<open>decode\<close> is \<open>json.Unmarshal\<close> into a map from names to texts: its keys, or no answer when it fails.\<close>

fun direct_names :: "(string \<Rightarrow> string list option) \<Rightarrow> string list \<Rightarrow> string list" where
  "direct_names decode [] = []"
| "direct_names decode (raw # sections) =
     (if raw = [] then direct_names decode sections
      else case decode raw of
          None \<Rightarrow> direct_names decode sections
        | Some ns \<Rightarrow> ns @ direct_names decode sections)"

definition marker :: string where
  "marker = ''node_modules/''"

definition package_name_from_path :: "string \<Rightarrow> string" where
  "package_name_from_path path =
     (case last_index marker path of None \<Rightarrow> [] | Some i \<Rightarrow> drop (i + length marker) path)"

definition npm_pin :: "string list \<Rightarrow> string \<times> npm_package \<Rightarrow> pin option" where
  "npm_pin direct pe =
     (let (path, e) = pe in
      if path = [] \<or> np_link e then None
      else let name = package_name_from_path path in
        if name = [] \<or> np_version e = [] then None
        else Some \<lparr>pin_name = name, pin_version = np_version e,
          pin_direct = (name \<in> set direct \<and> \<not> contains_str (trim_prefix marker path) marker), pin_dev = np_dev e\<rparr>)"

fun collect_npm_v1 :: "bool \<Rightarrow> (string \<times> npm_v1) list \<Rightarrow> pin list" where
  "collect_npm_v1 root [] = []"
| "collect_npm_v1 root ((name, NpmV1 v dev deps) # rest) =
     (if v \<noteq> [] then [\<lparr>pin_name = name, pin_version = v, pin_direct = root, pin_dev = dev\<rparr>] else [])
     @ collect_npm_v1 False deps @ collect_npm_v1 root rest"

definition parse_npm :: "(string \<Rightarrow> npm_doc res) \<Rightarrow> (string \<Rightarrow> string list option) \<Rightarrow> string \<Rightarrow> lockfile res" where
  "parse_npm unmarshal decode data =
     (case unmarshal data of
        Inl e \<Rightarrow> Inl (Wrap ''parse package-lock.json'' e)
      | Inr doc \<Rightarrow>
          (let out = \<lparr>lf_project = nd_name doc, lf_format = format_npm, lf_pins = []\<rparr> in
           case map_of (nd_packages doc) [] of
             Some root \<Rightarrow>
               let out = (if lf_project out = [] then out\<lparr>lf_project := np_name root\<rparr> else out);
                   direct = direct_names decode [np_deps root, np_dev_deps root]
               in Inr (normalise (out\<lparr>lf_pins := List.map_filter (npm_pin direct) (nd_packages doc)\<rparr>))
           | None \<Rightarrow> Inr (normalise (out\<lparr>lf_pins := collect_npm_v1 True (nd_dependencies doc)\<rparr>))))"

subsection \<open>pnpm-lock.yaml\<close>

definition line_limit :: nat where
  "line_limit = 4 * 1024 * 1024"

definition scan_text :: "string \<Rightarrow> string list \<times> err option" where
  "scan_text s =
     (let raw = raw_lines s; short = takeWhile (\<lambda>l. length l < line_limit) raw
      in (List.map drop_cr short, if length short < length raw then Some err_too_long else None))"

definition leading_blanks :: "string \<Rightarrow> nat" where
  "leading_blanks line = length (takeWhile (\<lambda>c. c = CHR '' '' \<or> c = CHR 0x09) line)"

definition starts_with_digit :: "string \<Rightarrow> bool" where
  "starts_with_digit s \<longleftrightarrow> s \<noteq> [] \<and> CHR ''0'' \<le> hd s \<and> hd s \<le> CHR ''9''"

definition quote_chars :: string where
  "quote_chars = [CHR 0x27, CHR 0x22]"

definition pnpm_key :: "string \<Rightarrow> (string \<times> string) option" where
  "pnpm_key key0 =
     (let key = trim_suffix '':'' key0;
          key = trim_chars quote_chars (trim_space key);
          key = trim_prefix ''/'' key
      in if key = [] then None
         else let key = (case index_byte (CHR ''('') key of None \<Rightarrow> key | Some i \<Rightarrow> take i key);
                  split = (case last_index ''@'' key of
                      Some i \<Rightarrow> if i > 0 then Some (take i key, drop (i + 1) key) else None
                    | None \<Rightarrow> None);
                  split = (case split of
                      Some nv \<Rightarrow> Some nv
                    | None \<Rightarrow> (case last_index ''/'' key of
                          Some i \<Rightarrow> if i > 0 then Some (take i key, drop (i + 1) key) else None
                        | None \<Rightarrow> None))
           in case split of
                None \<Rightarrow> None
              | Some (name, version) \<Rightarrow>
                  if name = [] \<or> version = [] \<or> \<not> starts_with_digit version then None else Some (name, version))"

definition is_indented :: "string \<Rightarrow> bool" where
  "is_indented line \<longleftrightarrow> has_prefix '' '' line \<or> has_prefix [CHR 0x09] line"

definition plain_pin :: "string \<Rightarrow> string \<Rightarrow> pin" where
  "plain_pin name version = \<lparr>pin_name = name, pin_version = version, pin_direct = False, pin_dev = False\<rparr>"

text \<open>The state is whether the lines are in the section of packages, and the pins so far.\<close>

definition pnpm_line :: "bool \<times> pin list \<Rightarrow> string \<Rightarrow> bool \<times> pin list" where
  "pnpm_line st line =
     (let (in_packages, pins) = st in
      if trim_space line = [] then (in_packages, pins)
      else if \<not> is_indented line then (has_prefix ''packages:'' line, pins)
      else if \<not> in_packages then (in_packages, pins)
      else let trimmed = trim_space line in
        if leading_blanks line > 2 \<or> \<not> has_suffix '':'' trimmed then (in_packages, pins)
        else case pnpm_key trimmed of
            None \<Rightarrow> (in_packages, pins)
          | Some (name, version) \<Rightarrow> (in_packages, pins @ [plain_pin name version]))"

definition parse_pnpm :: "string \<Rightarrow> lockfile res" where
  "parse_pnpm data =
     (let (ls, e) = scan_text data in
      case e of
        Some err \<Rightarrow> Inl err
      | None \<Rightarrow> Inr (normalise \<lparr>lf_project = [], lf_format = format_pnpm, lf_pins = snd (foldl pnpm_line (False, []) ls)\<rparr>))"

subsection \<open>yarn.lock\<close>

definition split_descriptor :: "string \<Rightarrow> string \<times> string \<times> bool" where
  "split_descriptor s =
     (let (search, offset) = (if has_prefix ''@'' s then (drop 1 s, 1) else (s, 0)) in
      case index_byte (CHR ''@'') search of
        None \<Rightarrow> (s, [], False)
      | Some i \<Rightarrow> (take (i + offset) s, drop (i + offset + 1) s, True))"

definition yarn_entry_name :: "string \<Rightarrow> string" where
  "yarn_entry_name header0 =
     (let header = trim_suffix '':'' header0;
          header = (case index_byte (CHR '','') header of None \<Rightarrow> header | Some i \<Rightarrow> take i header);
          header = trim_chars quote_chars (trim_space header);
          (name, descriptor, ok) = split_descriptor header
      in if \<not> ok \<or> name = [] \<or> has_prefix ''__'' name then []
         else if has_prefix ''workspace:'' descriptor \<or> has_prefix ''link:'' descriptor
           \<or> has_prefix ''portal:'' descriptor \<or> has_prefix ''file:'' descriptor then []
         else if has_prefix ''npm:'' descriptor
         then let (aliased, _, found) = split_descriptor (trim_prefix ''npm:'' descriptor)
           in if found then aliased else name
         else name)"

definition yarn_version :: "string \<Rightarrow> string option" where
  "yarn_version line =
     (if \<not> has_prefix ''version'' line then None
      else let rest = drop 7 line;
               rest = trim_space (trim_prefix '':'' (trim_space rest));
               rest = trim_chars quote_chars rest
        in if rest = [] \<or> rest = ''0.0.0-use.local'' then None else Some rest)"

definition yarn_line :: "string \<times> pin list \<Rightarrow> string \<Rightarrow> string \<times> pin list" where
  "yarn_line st line =
     (let (pending, pins) = st; trimmed = trim_space line in
      if trimmed = [] \<or> has_prefix ''#'' trimmed then (pending, pins)
      else if \<not> is_indented line then (yarn_entry_name trimmed, pins)
      else if pending = [] then (pending, pins)
      else case yarn_version trimmed of
          None \<Rightarrow> (pending, pins)
        | Some v \<Rightarrow> ([], pins @ [plain_pin pending v]))"

definition parse_yarn :: "string \<Rightarrow> lockfile res" where
  "parse_yarn data =
     (let (ls, e) = scan_text data in
      case e of
        Some err \<Rightarrow> Inl err
      | None \<Rightarrow> Inr (normalise \<lparr>lf_project = [], lf_format = format_yarn, lf_pins = snd (foldl yarn_line ([], []) ls)\<rparr>))"

subsection \<open>Choosing the parser\<close>

text \<open>\<open>filepath.Base\<close>.\<close>

definition base_name :: "string \<Rightarrow> string" where
  "base_name path =
     (if path = [] then ''.''
      else let p = rev (dropWhile (\<lambda>c. c = CHR ''/'') (rev path))
        in if p = [] then ''/'' else rev (takeWhile (\<lambda>c. c \<noteq> CHR ''/'') (rev p)))"

definition parse_lockfile :: "(string \<Rightarrow> npm_doc res) \<Rightarrow> (string \<Rightarrow> string list option) \<Rightarrow> string \<Rightarrow> string \<Rightarrow> lockfile res" where
  "parse_lockfile unmarshal decode path data =
     (let base = base_name path in
      if base = format_npm \<or> has_suffix ''package-lock.json'' base then parse_npm unmarshal decode data
      else if base = format_pnpm \<or> has_suffix ''pnpm-lock.yaml'' base then parse_pnpm data
      else if base = format_yarn \<or> has_suffix ''yarn.lock'' base then parse_yarn data
      else Inl (Msg (''unrecognised lockfile '' @ base @ '': expected '' @ format_npm @ '', '' @ format_pnpm @ '' or '' @ format_yarn)))"

subsection \<open>What normalising keeps\<close>

definition same_pin :: "pin \<Rightarrow> pin \<Rightarrow> bool" where
  "same_pin p q \<longleftrightarrow> pin_name p = pin_name q \<and> pin_version p = pin_version q"

definition merged_pin :: "pin set \<Rightarrow> pin \<Rightarrow> pin" where
  "merged_pin G p = \<lparr>pin_name = pin_name p, pin_version = pin_version p,
     pin_direct = (\<exists>q \<in> G. same_pin q p \<and> pin_direct q), pin_dev = (\<forall>q \<in> G. same_pin q p \<longrightarrow> pin_dev q)\<rparr>"

definition usable_pin :: "pin \<Rightarrow> bool" where
  "usable_pin p \<longleftrightarrow> pin_name p \<noteq> [] \<and> pin_version p \<noteq> []"

text \<open>A version without the separator: then a key names one pin.\<close>

definition clean_version :: "pin \<Rightarrow> bool" where
  "clean_version p \<longleftrightarrow> CHR ''@'' \<notin> set (pin_version p)"

lemma pin_key_same: "clean_version p \<Longrightarrow> clean_version q \<Longrightarrow> pin_key p = pin_key q \<longleftrightarrow> same_pin p q"
proof
  assume c: "clean_version p" "clean_version q" and k: "pin_key p = pin_key q"
  have "last_index ''@'' (pin_key p) = Some (length (pin_name p))" "last_index ''@'' (pin_key q) = Some (length (pin_name q))"
    using c last_index_byte_append by (simp_all add: pin_key_def clean_version_def)
  with k have "length (pin_name p) = length (pin_name q)" by simp
  with k show "same_pin p q" by (simp add: pin_key_def same_pin_def)
qed (simp add: pin_key_def same_pin_def)

lemma merged_pin_fields [simp]:
  "pin_name (merged_pin G p) = pin_name p" "pin_version (merged_pin G p) = pin_version p"
  by (simp_all add: merged_pin_def)

lemma merged_pin_key [simp]: "pin_key (merged_pin G p) = pin_key p"
  by (simp add: pin_key_def)

lemma merged_pin_same: "same_pin p q \<Longrightarrow> merged_pin G p = merged_pin G q"
  by (auto simp: merged_pin_def same_pin_def)

lemma merged_pin_other: "\<not> same_pin p q \<Longrightarrow> merged_pin (insert p G) q = merged_pin G q"
  by (auto simp: merged_pin_def)

text \<open>The loop's state after the pins \<open>G\<close>.\<close>

definition pins_state :: "pin set \<Rightarrow> (string, nat) gomap \<times> pin list \<Rightarrow> bool" where
  "pins_state G st \<longleftrightarrow> (\<forall>k i. map_of (fst st) k = Some i \<longleftrightarrow> i < length (snd st) \<and> pin_key (snd st ! i) = k) \<and>
     set (snd st) = merged_pin G ` G"

lemma pins_state_index: "pins_state G st \<Longrightarrow> map_of (fst st) k = Some i \<longleftrightarrow> i < length (snd st) \<and> pin_key (snd st ! i) = k"
  by (simp add: pins_state_def)

lemma pins_state_set: "pins_state G st \<Longrightarrow> set (snd st) = merged_pin G ` G"
  by (simp add: pins_state_def)

lemma pins_state_distinct:
  assumes "pins_state G st" shows "distinct (List.map pin_key (snd st))"
proof -
  have "i = j" if "i < length (snd st)" "j < length (snd st)" "pin_key (snd st ! i) = pin_key (snd st ! j)" for i j
    using pins_state_index [OF assms, of "pin_key (snd st ! i)" i] pins_state_index [OF assms, of "pin_key (snd st ! i)" j] that by simp
  then show ?thesis by (auto simp: distinct_conv_nth)
qed

lemma pins_state_new:
  assumes "pins_state G st" "\<And>q. q \<in> G \<Longrightarrow> \<not> same_pin p q" "map_of (fst st) (pin_key p) = None"
  shows "pins_state (insert p G) (put (pin_key p) (length (snd st)) (fst st), snd st @ [p])"
proof -
  have "merged_pin (insert p G) q = merged_pin G q" if "q \<in> G" for q using assms(2) [OF that] by (rule merged_pin_other)
  moreover have "same_pin q p \<longleftrightarrow> q = p" if "q \<in> insert p G" for q
    using assms(2) [of q] that by (auto simp: same_pin_def)
  then have "merged_pin (insert p G) p = p" by (simp add: merged_pin_def)
  ultimately have "merged_pin (insert p G) ` insert p G = insert p (merged_pin G ` G)" by auto
  moreover have "map_of (put (pin_key p) (length (snd st)) (fst st)) k = Some i \<longleftrightarrow>
    i < length (snd st @ [p]) \<and> pin_key ((snd st @ [p]) ! i) = k" for k i
    using pins_state_index [OF assms(1), of k i] assms(3) pins_state_index [OF assms(1), of "pin_key p" i]
    by (auto simp: update_conv' nth_append less_Suc_eq)
  ultimately show ?thesis using pins_state_set [OF assms(1)] by (simp add: pins_state_def)
qed

lemma merged_pin_inj: "merged_pin G r = merged_pin G p \<longleftrightarrow> same_pin p r"
proof
  assume "merged_pin G r = merged_pin G p"
  then have "pin_name (merged_pin G r) = pin_name (merged_pin G p)" "pin_version (merged_pin G r) = pin_version (merged_pin G p)"
    by simp_all
  then show "same_pin p r" by (simp add: same_pin_def)
qed (rule merged_pin_same [symmetric])

lemma merged_pin_insert:
  "merged_pin (insert p G) p = (merged_pin G p)\<lparr>pin_direct := pin_direct (merged_pin G p) \<or> pin_direct p,
     pin_dev := pin_dev (merged_pin G p) \<and> pin_dev p\<rparr>"
  by (simp add: merged_pin_def same_pin_def disj_commute conj_commute)

lemma merged_pin_image:
  "merged_pin (insert p G) ` insert p G =
     insert (merged_pin (insert p G) p) (merged_pin G ` G - {merged_pin G p})"
proof -
  have "merged_pin (insert p G) ` {r \<in> G. \<not> same_pin p r} = merged_pin G ` {r \<in> G. \<not> same_pin p r}"
    by (rule image_cong) (simp_all add: merged_pin_other)
  moreover have "merged_pin (insert p G) ` {r \<in> G. same_pin p r} \<subseteq> {merged_pin (insert p G) p}"
    using merged_pin_same [of p _ "insert p G"] by auto
  moreover have "merged_pin G ` G - {merged_pin G p} = merged_pin G ` {r \<in> G. \<not> same_pin p r}"
    using merged_pin_inj [of G _ p] by auto
  moreover have "insert p G = insert p ({r \<in> G. \<not> same_pin p r} \<union> {r \<in> G. same_pin p r})" by auto
  then have "merged_pin (insert p G) ` insert p G = insert (merged_pin (insert p G) p)
    (merged_pin (insert p G) ` {r \<in> G. \<not> same_pin p r} \<union> merged_pin (insert p G) ` {r \<in> G. same_pin p r})"
    by (metis (no_types, lifting) image_insert image_Un)
  ultimately show ?thesis by auto
qed

lemma pins_state_old:
  assumes st: "pins_state G st" and i: "i < length (snd st)" "snd st ! i = merged_pin G p"
  shows "pins_state (insert p G) (fst st, (snd st)[i := (snd st ! i)\<lparr>pin_direct := pin_direct (snd st ! i) \<or> pin_direct p,
    pin_dev := pin_dev (snd st ! i) \<and> pin_dev p\<rparr>])"
proof -
  have "distinct (snd st)" using pins_state_distinct [OF st] distinct_map by blast
  then have "set ((snd st)[i := merged_pin (insert p G) p]) = merged_pin (insert p G) ` insert p G"
    unfolding merged_pin_image pins_state_set [OF st, symmetric] i(2) [symmetric] by (rule set_update_distinct [OF _ i(1)])
  moreover have "map_of (fst st) k = Some j \<longleftrightarrow>
    j < length ((snd st)[i := merged_pin (insert p G) p]) \<and> pin_key ((snd st)[i := merged_pin (insert p G) p] ! j) = k" for k j
    using pins_state_index [OF st, of k j] i by (cases "j = i") simp_all
  ultimately show ?thesis unfolding i(2) merged_pin_insert [symmetric] by (simp add: pins_state_def)
qed

lemma add_pin_state:
  assumes st: "pins_state G st" and clean: "\<And>q. q \<in> G \<Longrightarrow> clean_version q" "clean_version p"
  shows "pins_state (if usable_pin p then insert p G else G) (add_pin st p)"
proof (cases "usable_pin p")
  case False
  then show ?thesis using st by (cases st) (auto simp: add_pin_def usable_pin_def)
next
  case True
  show ?thesis
  proof (cases "map_of (fst st) (pin_key p)")
    case None
    have "\<not> same_pin p q" if "q \<in> G" for q
    proof
      assume "same_pin p q"
      then have "pin_key (merged_pin G q) = pin_key p" by (simp add: pin_key_def same_pin_def)
      moreover have "merged_pin G q \<in> set (snd st)" using pins_state_set [OF st] that by simp
      ultimately obtain i where "i < length (snd st)" "pin_key (snd st ! i) = pin_key p" by (metis in_set_conv_nth)
      with None pins_state_index [OF st, of "pin_key p" i] show False by simp
    qed
    from pins_state_new [OF st this None] show ?thesis
      using True None by (cases st) (simp add: add_pin_def usable_pin_def)
  next
    case (Some i)
    then have i: "i < length (snd st)" "pin_key (snd st ! i) = pin_key p" using pins_state_index [OF st] by auto
    then have "snd st ! i \<in> merged_pin G ` G" using pins_state_set [OF st] nth_mem by blast
    then obtain q where q: "q \<in> G" "snd st ! i = merged_pin G q" by auto
    then have "same_pin p q" using i(2) pin_key_same [OF clean(2) clean(1) [OF q(1)]] by simp
    then have "snd st ! i = merged_pin G p" unfolding q(2) by (simp add: merged_pin_inj)
    from pins_state_old [OF st i(1) this] show ?thesis
      using True Some by (cases st) (simp add: add_pin_def usable_pin_def)
  qed
qed

lemma add_pins_state:
  "pins_state G st \<Longrightarrow> (\<And>q. q \<in> G \<union> set ps \<Longrightarrow> clean_version q) \<Longrightarrow>
     pins_state (G \<union> {p \<in> set ps. usable_pin p}) (foldl add_pin st ps)"
proof (induction ps arbitrary: G st)
  case (Cons p ps)
  have "pins_state (if usable_pin p then insert p G else G) (add_pin st p)"
    by (rule add_pin_state [OF Cons.prems(1)]) (use Cons.prems(2) in auto)
  from Cons.IH [OF this] Cons.prems(2) have
    "pins_state ((if usable_pin p then insert p G else G) \<union> {p \<in> set ps. usable_pin p}) (foldl add_pin (add_pin st p) ps)"
    by (auto split: if_splits)
  moreover have "(if usable_pin p then insert p G else G) \<union> {p \<in> set ps. usable_pin p} = G \<union> {q \<in> set (p # ps). usable_pin q}" by auto
  ultimately show ?case by simp
qed simp

interpretation by_pin: slice_order pin_before "\<lambda>_. True"
  by unfold_locales (auto simp: pin_before_def split: if_splits)

definition good_pins :: "pin list \<Rightarrow> pin set" where
  "good_pins ps = {p \<in> set ps. usable_pin p}"

lemma normalise_pins:
  assumes "list_all clean_version (lf_pins l)"
  shows "set (lf_pins (normalise l)) = merged_pin (good_pins (lf_pins l)) ` good_pins (lf_pins l)"
    "sorted_wrt pin_before (lf_pins (normalise l))"
proof -
  have "pins_state {} ([], [])" by (simp add: pins_state_def)
  from add_pins_state [OF this, of "lf_pins l"] assms
  have st: "pins_state (good_pins (lf_pins l)) (foldl add_pin ([], []) (lf_pins l))" by (simp add: good_pins_def list_all_iff)
  show s: "set (lf_pins (normalise l)) = merged_pin (good_pins (lf_pins l)) ` good_pins (lf_pins l)"
    using pins_state_set [OF st] by (simp add: normalise_def)
  have "sorted_wrt (\<lambda>a b. \<not> pin_before b a) (lf_pins (normalise l))"
    using by_pin.sorted_sort_slice by (simp add: normalise_def)
  moreover have "distinct (List.map pin_key (lf_pins (normalise l)))"
    using pins_state_distinct [OF st] by (simp add: normalise_def distinct_map inj_on_def)
  then have "sorted_wrt (\<lambda>a b. pin_key a \<noteq> pin_key b) (lf_pins (normalise l))"
    by (auto simp: sorted_wrt_iff_nth_less distinct_conv_nth)
  ultimately have "sorted_wrt (\<lambda>a b. \<not> pin_before b a \<and> pin_key a \<noteq> pin_key b) (lf_pins (normalise l))"
    by (simp add: sorted_wrt_iff_nth_less)
  then show "sorted_wrt pin_before (lf_pins (normalise l))"
    by (rule sorted_wrt_mono_rel [rotated]) (auto simp: pin_before_def pin_key_def split: if_splits)
qed

text \<open>C22: a normalised lockfile has one pin for each name and version the parser found, sorted by both; it is
  direct when one of the pins merged into it was, and a dev pin only when all of them were.\<close>

theorem normalise_merges:
  assumes "list_all clean_version (lf_pins l)"
  shows "set (lf_pins (normalise l)) = merged_pin (good_pins (lf_pins l)) ` good_pins (lf_pins l) \<and>
    sorted_wrt pin_before (lf_pins (normalise l)) \<and> distinct (List.map pin_key (lf_pins (normalise l)))"
proof -
  have "sorted_wrt (\<lambda>p q. pin_key p \<noteq> pin_key q) (lf_pins (normalise l))"
  proof (rule sorted_wrt_mono_rel [OF _ normalise_pins(2) [OF assms]])
    fix p q assume pq: "p \<in> set (lf_pins (normalise l))" "q \<in> set (lf_pins (normalise l))" "pin_before p q"
    then have "clean_version p" "clean_version q"
      using assms normalise_pins(1) [OF assms] by (auto simp: list_all_iff good_pins_def clean_version_def)
    with pq(3) show "pin_key p \<noteq> pin_key q" by (auto simp: pin_key_same same_pin_def pin_before_def)
  qed
  then have "distinct (List.map pin_key (lf_pins (normalise l)))"
    by (simp add: distinct_conv_nth sorted_wrt_iff_nth_less) (metis linorder_neqE_nat)
  with normalise_pins [OF assms] show ?thesis by simp
qed

theorem normalise_merges_witness:
  "let l = \<lparr>lf_project = ''p'', lf_format = format_npm, lf_pins =
       [\<lparr>pin_name = ''b'', pin_version = ''1'', pin_direct = False, pin_dev = True\<rparr>,
        \<lparr>pin_name = ''a'', pin_version = ''2'', pin_direct = False, pin_dev = True\<rparr>,
        \<lparr>pin_name = ''b'', pin_version = ''1'', pin_direct = True, pin_dev = False\<rparr>]\<rparr>
   in set (lf_pins (normalise l)) = merged_pin (good_pins (lf_pins l)) ` good_pins (lf_pins l) \<and>
     sorted_wrt pin_before (lf_pins (normalise l)) \<and> distinct (List.map pin_key (lf_pins (normalise l)))"
  unfolding Let_def by (rule normalise_merges) (simp add: clean_version_def)

lemma sorted_pins_unique:
  assumes "sorted_wrt pin_before xs" "sorted_wrt pin_before ys" "set xs = set ys"
  shows "xs = ys"
proof (rule by_pin.sorted_unique)
  have distinct: "distinct zs" if "sorted_wrt pin_before zs" for zs
    using that by (induction zs) (auto simp: pin_before_def)
  show "mset xs = mset ys" using assms distinct set_eq_iff_mset_eq_distinct by blast
  have order: "sorted_wrt (\<lambda>a b. \<not> pin_before b a) zs" if "sorted_wrt pin_before zs" for zs
    using that by (rule sorted_wrt_mono_rel [rotated]) (auto simp: pin_before_def split: if_splits)
  show "sorted_wrt (\<lambda>a b. \<not> pin_before b a) xs" "sorted_wrt (\<lambda>a b. \<not> pin_before b a) ys" by (simp_all add: order assms)
  show "x = y \<or> pin_before x y \<or> pin_before y x" if "x \<in> set xs" "y \<in> set xs" for x y
  proof -
    obtain i j where "i < length xs" "j < length xs" "x = xs ! i" "y = xs ! j" using \<open>x \<in> set xs\<close> \<open>y \<in> set xs\<close> by (metis in_set_conv_nth)
    then show ?thesis using assms(1) by (metis linorder_neqE_nat sorted_wrt_iff_nth_less)
  qed
qed

lemma normalise_order:
  assumes "list_all clean_version (lf_pins l)" "set (lf_pins l) = set ps"
  shows "normalise (l\<lparr>lf_pins := ps\<rparr>) = normalise l"
proof -
  have c: "list_all clean_version (lf_pins (l\<lparr>lf_pins := ps\<rparr>))" using assms by (simp add: list_all_iff)
  have "good_pins ps = good_pins (lf_pins l)" using assms(2) by (simp add: good_pins_def)
  then have "lf_pins (normalise (l\<lparr>lf_pins := ps\<rparr>)) = lf_pins (normalise l)"
    using normalise_pins [OF c] normalise_pins [OF assms(1)] by (intro sorted_pins_unique) simp_all
  then show ?thesis by (simp add: normalise_def)
qed

lemma npm_pin_version: "npm_pin direct (path, e) = Some p \<Longrightarrow> pin_version p = np_version e"
  by (auto simp: npm_pin_def Let_def split: if_splits)

text \<open>What is read from a package-lock.json does not depend on the order in which Go ranges over its map.\<close>

theorem parse_npm_order_free:
  assumes "mset (nd_packages doc) = mset ps" "distinct (keys (nd_packages doc))"
    and "list_all (\<lambda>(path, e). CHR ''@'' \<notin> set (np_version e)) (nd_packages doc)"
  shows "parse_npm (\<lambda>_. Inr (doc\<lparr>nd_packages := ps\<rparr>)) decode data = parse_npm (\<lambda>_. Inr doc) decode data"
proof -
  have s: "set ps = set (nd_packages doc)" using assms(1) by (metis set_mset_mset)
  have d: "distinct (List.map fst ps)" "distinct (List.map fst (nd_packages doc))"
    using assms(1,2) by (metis keys_def mset_map mset_eq_imp_distinct_iff)+
  have m: "map_of ps [] = map_of (nd_packages doc) []"
    using map_of_eq_Some_iff [OF d(1)] map_of_eq_Some_iff [OF d(2)] s by (metis not_None_eq)
  have c: "list_all clean_version (List.map_filter (npm_pin direct) (nd_packages doc))" for direct
    using assms(3) by (force simp: list_all_iff set_map_filter clean_version_def dest!: npm_pin_version)
  have "normalise (l\<lparr>lf_pins := List.map_filter (npm_pin direct) ps\<rparr>) =
    normalise (l\<lparr>lf_pins := List.map_filter (npm_pin direct) (nd_packages doc)\<rparr>)" for l direct
    using normalise_order [of "l\<lparr>lf_pins := List.map_filter (npm_pin direct) (nd_packages doc)\<rparr>" "List.map_filter (npm_pin direct) ps"]
    by (simp add: c set_map_filter s)
  then show ?thesis by (simp add: parse_npm_def m Let_def split: option.split)
qed

definition sample_doc :: npm_doc where
  "sample_doc = \<lparr>nd_name = ''shop'', nd_packages =
     [([], \<lparr>np_name = ''shop'', np_version = [], np_dev = False, np_link = False, np_deps = ''{foo}'', np_dev_deps = []\<rparr>),
      (''node_modules/foo'', \<lparr>np_name = ''real-foo'', np_version = ''1.0.0'', np_dev = False, np_link = False, np_deps = [], np_dev_deps = []\<rparr>)],
     nd_dependencies = []\<rparr>"

theorem parse_npm_order_free_witness:
  "parse_npm (\<lambda>_. Inr (sample_doc\<lparr>nd_packages := rev (nd_packages sample_doc)\<rparr>)) (\<lambda>_. Some [''foo'']) ''text'' =
     parse_npm (\<lambda>_. Inr sample_doc) (\<lambda>_. Some [''foo'']) ''text''"
  by (rule parse_npm_order_free) (simp_all add: sample_doc_def keys_def)

text \<open>An aliased entry of package-lock.json, whose field \<open>name\<close> says which package is installed under the
  path, is read as a package of the alias, with the name that nobody may have published.\<close>

theorem npm_alias_not_followed:
  "parse_npm (\<lambda>_. Inr sample_doc) (\<lambda>_. Some [''foo'']) data =
     Inr \<lparr>lf_project = ''shop'', lf_format = ''package-lock.json'',
       lf_pins = [\<lparr>pin_name = ''foo'', pin_version = ''1.0.0'', pin_direct = True, pin_dev = False\<rparr>]\<rparr>"
  by (simp add: parse_npm_def sample_doc_def npm_pin_def package_name_from_path_def marker_def format_npm_def normalise_def
      add_pin_def pin_key_def trim_prefix_def has_prefix_def contains_str_def Let_def)

text \<open>A version 5 key of pnpm with a peer suffix is split at the \<open>@\<close> of the peer: the version read is the
  peer's, the name holds the package's own version.\<close>

theorem pnpm_v5_peer_misread:
  "pnpm_key ''/foo/1.0.0_react@17.0.2:'' = Some (''foo/1.0.0_react'', ''17.0.2'') \<and>
   pnpm_key ''/foo/1.0.0:'' = Some (''foo'', ''1.0.0'') \<and>
   pnpm_key ''/foo@1.0.0(react@17.0.2):'' = Some (''foo'', ''1.0.0'')"
  by code_simp

subsection \<open>Reading back a yarn.lock\<close>

text \<open>An entry as classic yarn writes it: the name, the range asked for and the version installed.\<close>

record yarn_entry =
  ye_name :: string
  ye_range :: string
  ye_version :: string

definition yarn_header :: "yarn_entry \<Rightarrow> string" where
  "yarn_header e = ye_name e @ ''@'' @ ye_range e @ '':''"

definition yarn_body :: "yarn_entry \<Rightarrow> string" where
  "yarn_body e = ''  version '' @ [CHR 0x22] @ ye_version e @ [CHR 0x22]"

definition yarn_lines :: "yarn_entry list \<Rightarrow> string list" where
  "yarn_lines es = concat (List.map (\<lambda>e. [yarn_header e, yarn_body e, []]) es)"

definition yarn_text :: "yarn_entry list \<Rightarrow> string" where
  "yarn_text es = concat (List.map (\<lambda>l. l @ [newline]) (yarn_lines es))"

definition yarn_char :: "char \<Rightarrow> bool" where
  "yarn_char c \<longleftrightarrow> plain_char c \<and> c \<notin> set ''@,:#'' \<and> c \<notin> set quote_chars"

definition yarn_entry_ok :: "yarn_entry \<Rightarrow> bool" where
  "yarn_entry_ok e \<longleftrightarrow>
     (let body = trim_prefix ''@'' (ye_name e) in
      body \<noteq> [] \<and> list_all yarn_char body \<and> \<not> has_prefix ''__'' (ye_name e)) \<and>
     list_all yarn_char (ye_range e) \<and>
     ye_version e \<noteq> [] \<and> list_all yarn_char (ye_version e) \<and> ye_version e \<noteq> ''0.0.0-use.local'' \<and>
     length (yarn_header e) < line_limit \<and> length (yarn_body e) < line_limit"

lemma yarn_char_not: "yarn_char c \<Longrightarrow> c \<noteq> CHR ''@'' \<and> c \<noteq> CHR '','' \<and> c \<noteq> CHR '':'' \<and> c \<noteq> CHR ''#'' \<and> c \<noteq> CHR 0x22 \<and> c \<noteq> CHR 0x27
  \<and> c \<noteq> newline \<and> c \<noteq> CHR 0x0D \<and> c \<noteq> CHR '' '' \<and> c \<noteq> CHR 0x09"
  by (auto simp: yarn_char_def quote_chars_def plain_char_def space_encodings_def)

lemma plain_marks: "plain_char (CHR ''@'')" "plain_char (CHR '':'')" "plain_char (CHR 0x22)" "plain_char (CHR ''v'')"
  by (simp_all add: plain_char_def space_encodings_def)

lemma trim_lead_blank: "trim_lead space_encodings (CHR '' '' # s) = trim_lead space_encodings s"
  by (subst trim_lead.simps) (simp add: lead_space_def space_encodings_def)

lemma trim_space_blank: "trim_space (CHR '' '' # s) = trim_space s"
  by (simp add: trim_space_def trim_lead_blank)

lemma dropWhile_hd: "s = [] \<or> \<not> P (hd s) \<Longrightarrow> dropWhile P s = s"
  by (cases s) auto

lemma trim_chars_free: "s = [] \<or> hd s \<notin> set cs \<and> last s \<notin> set cs \<Longrightarrow> trim_chars cs s = s"
  by (auto simp: trim_chars_def dropWhile_hd hd_rev)

lemma trim_chars_quoted:
  assumes "c \<in> set cs" "s \<noteq> []" "hd s \<notin> set cs" "last s \<notin> set cs"
  shows "trim_chars cs (c # s @ [c]) = s"
proof -
  have "dropWhile (\<lambda>c. c \<in> set cs) (s @ [c]) = s @ [c]" using assms by (cases s) auto
  moreover have "dropWhile (\<lambda>c. c \<in> set cs) (rev s) = rev s" using assms by (cases "rev s") (auto simp flip: hd_rev)
  ultimately show ?thesis using assms(1) by (simp add: trim_chars_def)
qed

text \<open>A name: a body, or a body after the mark of a scope.\<close>

lemma yarn_name_cases:
  assumes "yarn_entry_ok e"
  obtains body where "list_all yarn_char body" "body \<noteq> []" "ye_name e = body \<or> ye_name e = CHR ''@'' # body"
proof (rule that [of "trim_prefix ''@'' (ye_name e)"])
  show "ye_name e = trim_prefix ''@'' (ye_name e) \<or> ye_name e = CHR ''@'' # trim_prefix ''@'' (ye_name e)"
    by (cases "ye_name e") (simp_all add: trim_prefix_def)
qed (use assms in \<open>simp_all add: yarn_entry_ok_def Let_def\<close>)

lemma split_descriptor_name:
  assumes "list_all yarn_char body" "body \<noteq> []" "n = body \<or> n = CHR ''@'' # body"
  shows "split_descriptor (n @ ''@'' @ r) = (n, r, True)"
proof -
  have "CHR ''@'' \<notin> set body" using assms(1) yarn_char_not by (auto simp: list_all_iff)
  then have i: "index_byte (CHR ''@'') (body @ CHR ''@'' # r) = Some (length body)" by (rule index_byte_append)
  have "hd body \<noteq> CHR ''@''" using \<open>CHR ''@'' \<notin> set body\<close> assms(2) by (cases body) auto
  then show ?thesis using assms(2,3) i by (cases body) (auto simp: split_descriptor_def)
qed

lemma no_prefix_colon: "CHR '':'' \<notin> set r \<Longrightarrow> CHR '':'' \<in> set p \<Longrightarrow> \<not> has_prefix p r"
  by (auto simp: has_prefix_iff)

lemma trim_suffix_append: "trim_suffix p (s @ p) = s"
  by (simp add: trim_suffix_def has_suffix_iff)

lemma yarn_name_hd:
  assumes "list_all yarn_char body" "body \<noteq> []" "n = body \<or> n = CHR ''@'' # body"
  shows "n \<noteq> [] \<and> plain_char (hd n) \<and> hd n \<notin> {CHR ''#'', CHR '' '', CHR 0x09, CHR 0x22, CHR 0x27}"
  using assms(3)
proof
  assume n: "n = body"
  obtain c rest where c: "body = c # rest" using assms(2) by (metis list.exhaust)
  have yc: "yarn_char c" using assms(1) unfolding c by simp
  have pc: "plain_char c" using yc unfolding yarn_char_def by blast
  show ?thesis unfolding n c list.sel using yarn_char_not [OF yc] pc by blast
next
  assume n: "n = CHR ''@'' # body"
  show ?thesis unfolding n list.sel using plain_marks(1) by simp
qed

lemma yarn_header_text:
  assumes "yarn_entry_ok e"
  shows "trim_space (yarn_header e) = yarn_header e" "\<not> has_prefix ''#'' (yarn_header e)" "\<not> is_indented (yarn_header e)"
    "yarn_header e \<noteq> []"
proof -
  obtain body where b: "list_all yarn_char body" "body \<noteq> []" "ye_name e = body \<or> ye_name e = CHR ''@'' # body"
    by (rule yarn_name_cases [OF assms])
  obtain c rest where c: "ye_name e = c # rest" using yarn_name_hd [OF b] by (cases "ye_name e") simp_all
  have h: "plain_char c" "c \<noteq> CHR ''#''" "c \<noteq> CHR '' ''" "c \<noteq> CHR 0x09" using yarn_name_hd [OF b] c by simp_all
  show "trim_space (yarn_header e) = yarn_header e"
    by (rule trim_space_plain) (simp_all add: yarn_header_def c h(1) plain_marks)
  show "\<not> has_prefix ''#'' (yarn_header e)" "\<not> is_indented (yarn_header e)" "yarn_header e \<noteq> []"
    using h by (simp_all add: yarn_header_def is_indented_def c)
qed

lemma yarn_entry_name_header:
  assumes "yarn_entry_ok e"
  shows "yarn_entry_name (yarn_header e) = ye_name e"
proof -
  obtain body where b: "list_all yarn_char body" "body \<noteq> []" "ye_name e = body \<or> ye_name e = CHR ''@'' # body"
    by (rule yarn_name_cases [OF assms])
  have r: "list_all yarn_char (ye_range e)" using assms by (simp add: yarn_entry_ok_def)
  let ?h = "ye_name e @ ''@'' @ ye_range e"
  have no: "c \<notin> set (ye_name e)" "c \<notin> set (ye_range e)" if "c = CHR '','' \<or> c = CHR 0x22 \<or> c = CHR 0x27" for c
  proof -
    have "\<not> yarn_char c" using that yarn_char_not by blast
    then have "c \<notin> set body" "c \<notin> set (ye_range e)" using b(1) r by (auto simp: list_all_iff)
    then show "c \<notin> set (ye_name e)" "c \<notin> set (ye_range e)" using b(3) that by auto
  qed
  have t1: "trim_suffix '':'' (yarn_header e) = ?h" using trim_suffix_append [of "'':''" ?h] by (simp add: yarn_header_def)
  have t2: "index_byte (CHR '','') ?h = None" using no [of "CHR '',''"] by (simp add: index_byte_None_iff)
  have l: "last ?h = CHR ''@'' \<or> yarn_char (last ?h)" using r by (cases "ye_range e" rule: rev_cases) simp_all
  have hd: "hd ?h = hd (ye_name e)" using yarn_name_hd [OF b] by simp
  have t3: "trim_space ?h = ?h"
    by (rule trim_space_plain) (use l yarn_name_hd [OF b] plain_marks in \<open>auto simp: hd yarn_char_def simp del: hd_append last_append last_appendR last.simps\<close>)
  have q: "trim_chars quote_chars ?h = ?h"
  proof (rule trim_chars_free, rule disjI2, rule conjI)
    show "hd ?h \<notin> set quote_chars" using yarn_name_hd [OF b] by (simp add: hd quote_chars_def)
    show "last ?h \<notin> set quote_chars" using l
    proof
      assume "last ?h = CHR ''@''"
      then show ?thesis by (simp only:) (simp add: quote_chars_def)
    next
      assume "yarn_char (last ?h)"
      then show ?thesis unfolding yarn_char_def by blast
    qed
  qed
  have "CHR '':'' \<notin> set (ye_range e)" using r yarn_char_not by (auto simp: list_all_iff)
  then have "\<not> has_prefix ''workspace:'' (ye_range e)" "\<not> has_prefix ''link:'' (ye_range e)" "\<not> has_prefix ''portal:'' (ye_range e)"
    "\<not> has_prefix ''file:'' (ye_range e)" "\<not> has_prefix ''npm:'' (ye_range e)" by (simp_all add: no_prefix_colon)
  moreover have "ye_name e \<noteq> []" using yarn_name_hd [OF b] by simp
  moreover have "\<not> has_prefix ''__'' (ye_name e)" using assms by (simp add: yarn_entry_ok_def Let_def)
  ultimately show ?thesis
    unfolding yarn_entry_name_def Let_def t1 t2 t3 option.case q split_descriptor_name [OF b] by simp
qed

lemma yarn_version_body:
  assumes "yarn_entry_ok e"
  shows "trim_space (yarn_body e) = drop 2 (yarn_body e)" "yarn_version (drop 2 (yarn_body e)) = Some (ye_version e)"
    "is_indented (yarn_body e)" "drop 2 (yarn_body e) \<noteq> []" "\<not> has_prefix ''#'' (drop 2 (yarn_body e))"
proof -
  have v: "ye_version e \<noteq> []" "list_all yarn_char (ye_version e)" "ye_version e \<noteq> ''0.0.0-use.local''"
    using assms by (simp_all add: yarn_entry_ok_def)
  let ?q = "CHR 0x22 # ye_version e @ [CHR 0x22]"
  have body: "drop 2 (yarn_body e) = ''version '' @ ?q" by (simp add: yarn_body_def)
  have "trim_space (''version '' @ ?q) = ''version '' @ ?q" using plain_marks by (intro trim_space_plain) simp_all
  then show "trim_space (yarn_body e) = drop 2 (yarn_body e)" unfolding body by (simp add: yarn_body_def trim_space_blank)
  show "is_indented (yarn_body e)" "drop 2 (yarn_body e) \<noteq> []" "\<not> has_prefix ''#'' (drop 2 (yarn_body e))"
    by (simp_all add: yarn_body_def is_indented_def)
  have q: "trim_space ?q = ?q" using plain_marks by (intro trim_space_plain) simp_all
  have "hd (ye_version e) \<in> set (ye_version e)" "last (ye_version e) \<in> set (ye_version e)" using v(1) by simp_all
  then have "yarn_char (hd (ye_version e))" "yarn_char (last (ye_version e))" using v(2) by (auto simp: list_all_iff)
  then have "trim_chars quote_chars ?q = ye_version e"
    using v(1) by (intro trim_chars_quoted) (auto simp: quote_chars_def yarn_char_def)
  moreover have "trim_prefix '':'' ?q = ?q" by (simp add: trim_prefix_def)
  moreover have "trim_space (CHR '' '' # ?q) = ?q" using q by (simp add: trim_space_blank)
  ultimately show "yarn_version (drop 2 (yarn_body e)) = Some (ye_version e)"
    unfolding body using v(1,3) q by (simp add: yarn_version_def Let_def)
qed

lemma yarn_lines_read:
  "list_all yarn_entry_ok es \<Longrightarrow>
     foldl yarn_line ([], pins) (yarn_lines es) = ([], pins @ List.map (\<lambda>e. plain_pin (ye_name e) (ye_version e)) es)"
proof (induction es arbitrary: pins)
  case (Cons e es)
  then have e: "yarn_entry_ok e" by simp
  obtain body where "body \<noteq> []" "ye_name e = body \<or> ye_name e = CHR ''@'' # body" using yarn_name_cases [OF e] by blast
  then have "ye_name e \<noteq> []" by auto
  moreover have "yarn_line ([], pins) (yarn_header e) = (ye_name e, pins)"
    using yarn_header_text [OF e] yarn_entry_name_header [OF e] by (simp add: yarn_line_def Let_def)
  ultimately have "yarn_line (yarn_line (yarn_line ([], pins) (yarn_header e)) (yarn_body e)) [] =
    ([], pins @ [plain_pin (ye_name e) (ye_version e)])"
    using yarn_version_body [OF e] by (simp add: yarn_line_def Let_def)
  then show ?case using Cons by (simp add: yarn_lines_def)
qed (simp add: yarn_lines_def)

lemma yarn_lines_scan:
  assumes "list_all yarn_entry_ok es"
  shows "scan_text (yarn_text es) = (yarn_lines es, None)"
proof -
  have ok: "newline \<notin> set l \<and> drop_cr l = l \<and> length l < line_limit" if l: "l \<in> set (yarn_lines es)" for l
  proof -
    obtain e where e: "yarn_entry_ok e" "l = yarn_header e \<or> l = yarn_body e \<or> l = []"
      using l assms by (auto simp: yarn_lines_def list_all_iff)
    obtain body where b: "list_all yarn_char body" "ye_name e = body \<or> ye_name e = CHR ''@'' # body"
      using yarn_name_cases [OF e(1)] by blast
    have c: "newline \<notin> set s" if "list_all yarn_char s" for s using that yarn_char_not by (auto simp: list_all_iff)
    have "newline \<notin> set (ye_name e)" "newline \<notin> set (ye_range e)" "newline \<notin> set (ye_version e)"
      using b c e(1) by (auto simp: yarn_entry_ok_def)
    then have "newline \<notin> set l" using e(2) by (auto simp: yarn_header_def yarn_body_def)
    moreover have "drop_cr l = l" using e(2) by (auto simp: drop_cr_def yarn_header_def yarn_body_def)
    moreover have "length l < line_limit" using e by (auto simp: yarn_entry_ok_def line_limit_def)
    ultimately show ?thesis by simp
  qed
  have "raw_lines (yarn_text es) = yarn_lines es"
    using raw_lines_append [of "[]" "yarn_lines es"] ok by (auto simp: yarn_text_def raw_lines_def split_str_def)
  moreover have "\<forall>l \<in> set (yarn_lines es). length l < line_limit" using ok by blast
  then have "takeWhile (\<lambda>l. length l < line_limit) (yarn_lines es) = yarn_lines es" by (simp only: takeWhile_eq_all_conv)
  moreover have "List.map drop_cr (yarn_lines es) = yarn_lines es" using ok by (simp add: map_idI)
  ultimately show ?thesis
    using \<open>takeWhile (\<lambda>l. length l < line_limit) (yarn_lines es) = yarn_lines es\<close>
    unfolding scan_text_def Let_def by (simp only: less_irrefl if_False)
qed

lemma parse_yarn_text:
  assumes "list_all yarn_entry_ok es"
  shows "parse_yarn (yarn_text es) =
    Inr (normalise \<lparr>lf_project = [], lf_format = ''yarn.lock'', lf_pins = List.map (\<lambda>e. plain_pin (ye_name e) (ye_version e)) es\<rparr>)"
  using yarn_lines_scan [OF assms] yarn_lines_read [OF assms, of "[]"] by (simp add: parse_yarn_def format_yarn_def)



end
