(* ===== verification/Advisory.thy ===== *)
theory Advisory
  imports GraphDb Identity Semver
begin

text \<open>
  Advisories: \<open>internal/advisory\<close>. OSV records, after JSON decoding, become Advisory nodes and one \<open>AFFECTS\<close>
  edge for each published version a range covers. Reading texts as floats and times is a parameter, and so
  are the file, the network and the zip archive of the feed.
\<close>

subsection \<open>Records\<close>

record osv_severity =
  sev_type :: string
  sev_score :: string

record osv_event =
  ev_introduced :: string
  ev_fixed :: string
  ev_last_affected :: string

record osv_range =
  rg_type :: string
  rg_events :: "osv_event list"

record osv_affected =
  af_ecosystem :: string
  af_name :: string
  af_ranges :: "osv_range list"
  af_versions :: "string list"

record osv_record =
  osv_id :: string
  osv_summary :: string
  osv_published :: string
  osv_severities :: "osv_severity list"
  osv_affected_blocks :: "osv_affected list"
  osv_db_severity :: string

definition severity_of :: "osv_record \<Rightarrow> string" where
  "severity_of r =
     (if osv_db_severity r \<noteq> [] then osv_db_severity r
      else case osv_severities r of s # _ \<Rightarrow> sev_type s | [] \<Rightarrow> [])"

text \<open>\<open>cvssScore\<close>: the bits of the first score that is a plain number; \<open>parse_float\<close> is \<open>strconv.ParseFloat\<close>.\<close>

fun cvss_loop :: "(string \<Rightarrow> nat option) \<Rightarrow> osv_severity list \<Rightarrow> nat \<times> bool" where
  "cvss_loop parse_float [] = (0, False)"
| "cvss_loop parse_float (s # ss) =
     (case parse_float (sev_score s) of
        Some f \<Rightarrow> (f, True)
      | None \<Rightarrow> cvss_loop parse_float ss)"

definition cvss_score :: "(string \<Rightarrow> nat option) \<Rightarrow> osv_record \<Rightarrow> nat \<times> bool" where
  "cvss_score parse_float r = cvss_loop parse_float (osv_severities r)"

text \<open>\<open>publishedAt\<close>: \<open>parse_time\<close> is \<open>time.Parse\<close> with RFC 3339, as a Unix time.\<close>

definition published_instant :: "(string \<Rightarrow> int option) \<Rightarrow> string \<Rightarrow> int" where
  "published_instant parse_time s = (case parse_time s of None \<Rightarrow> 0 | Some t \<Rightarrow> t)"

subsection \<open>The feed\<close>

record feed_io =
  io_cache_age :: "int option"
  io_read_cache :: "string res"
  io_request :: "unit res"
  io_response :: "(int \<times> string \<times> string res) res"
  io_mkdir :: "err option"
  io_store :: "string \<Rightarrow> err option"

definition fetch_zip :: "string \<Rightarrow> int \<Rightarrow> feed_io \<Rightarrow> string res" where
  "fetch_zip cache_dir max_age io =
     (let path = cache_dir @ ''/osv-npm-all.zip'';
          cached = (case io_cache_age io of
              Some age \<Rightarrow> if max_age > 0 \<and> age < max_age then (case io_read_cache io of Inr body \<Rightarrow> Some body | Inl _ \<Rightarrow> None) else None
            | None \<Rightarrow> None)
      in case cached of
           Some body \<Rightarrow> Inr body
         | None \<Rightarrow>
             (case io_request io of
                Inl e \<Rightarrow> Inl (Wrap ''build request for OSV npm feed'' e)
              | Inr _ \<Rightarrow>
                  (case io_response io of
                     Inl e \<Rightarrow> Inl (Wrap ''fetch OSV npm feed'' e)
                   | Inr (code, status, body) \<Rightarrow>
                       if code \<noteq> 200 then Inl (Msg (''fetch OSV npm feed: '' @ status))
                       else (case body of
                           Inl e \<Rightarrow> Inl (Wrap ''read OSV npm feed'' e)
                         | Inr bytes \<Rightarrow>
                             (case io_mkdir io of
                                Some e \<Rightarrow> Inl (Wrap (''create cache dir '' @ cache_dir) e)
                              | None \<Rightarrow>
                                  (case io_store io bytes of
                                     Some e \<Rightarrow> Inl (Wrap (''cache OSV npm feed at '' @ path) e)
                                   | None \<Rightarrow> Inr bytes))))))"

text \<open>A file of the archive: whether it is a directory, its name, and what decoding it gives.\<close>

fun read_records :: "(bool \<times> string \<times> osv_record res) list \<Rightarrow> osv_record list res" where
  "read_records [] = Inr []"
| "read_records ((is_dir, name, content) # fs) =
     (if is_dir then read_records fs
      else case content of
          Inl e \<Rightarrow> Inl (Wrap (''parse '' @ name) e)
        | Inr rec \<Rightarrow>
            (case read_records fs of Inl e \<Rightarrow> Inl e | Inr rs \<Rightarrow> Inr (rec # rs)))"

definition fetch_feed :: "(string \<Rightarrow> (bool \<times> string \<times> osv_record res) list res) \<Rightarrow> string \<Rightarrow> int \<Rightarrow> feed_io \<Rightarrow> osv_record list res" where
  "fetch_feed unzip cache_dir max_age io =
     (case fetch_zip cache_dir max_age io of
        Inl e \<Rightarrow> Inl e
      | Inr body \<Rightarrow>
          (case unzip body of
             Inl e \<Rightarrow> Inl (Wrap ''open OSV feed zip'' e)
           | Inr fs \<Rightarrow> read_records fs))"

subsection \<open>Ranges\<close>

datatype event_kind = Introduced | Fixed | LastAffected

record boundary =
  bd_version :: version
  bd_kind :: event_kind

definition zero_version :: version where
  "zero_version = \<lparr>major = 0, minor = 0, patch = 0, pre = [], build = []\<rparr>"

definition parse_boundary :: "string \<Rightarrow> version option" where
  "parse_boundary s =
     (if s = ''0'' then Some zero_version
      else case parse s of Inl _ \<Rightarrow> None | Inr v \<Rightarrow> Some v)"

definition boundary_of :: "osv_event \<Rightarrow> boundary option" where
  "boundary_of e =
     (if ev_introduced e \<noteq> [] then
        (case parse_boundary (ev_introduced e) of None \<Rightarrow> None | Some v \<Rightarrow> Some \<lparr>bd_version = v, bd_kind = Introduced\<rparr>)
      else if ev_fixed e \<noteq> [] then
        (case parse (ev_fixed e) of Inl _ \<Rightarrow> None | Inr v \<Rightarrow> Some \<lparr>bd_version = v, bd_kind = Fixed\<rparr>)
      else if ev_last_affected e \<noteq> [] then
        (case parse (ev_last_affected e) of Inl _ \<Rightarrow> None | Inr v \<Rightarrow> Some \<lparr>bd_version = v, bd_kind = LastAffected\<rparr>)
      else None)"

fun affected_walk :: "version \<Rightarrow> boundary list \<Rightarrow> bool \<Rightarrow> bool" where
  "affected_walk v [] affected = affected"
| "affected_walk v (b # bs) affected =
     (if compare v (bd_version b) < 0 then affected
      else affected_walk v bs
        (case bd_kind b of
           Introduced \<Rightarrow> True
         | Fixed \<Rightarrow> False
         | LastAffected \<Rightarrow> if compare v (bd_version b) > 0 then False else affected))"

definition is_affected :: "version \<Rightarrow> boundary list \<Rightarrow> bool" where
  "is_affected v bounds = affected_walk v bounds False"

record adv_release =
  ar_version :: string
  ar_published :: int

definition sorted_bounds :: "osv_range \<Rightarrow> boundary list" where
  "sorted_bounds r =
     sort_slice (\<lambda>x y. compare (bd_version x) (bd_version y) < 0) (List.map_filter boundary_of (rg_events r))"

definition affected_versions :: "osv_range \<Rightarrow> adv_release list \<Rightarrow> adv_release list" where
  "affected_versions r releases =
     (if rg_type r = ''GIT'' then []
      else let bounds = sorted_bounds r in
        if bounds = [] then []
        else List.filter (\<lambda>rel. case parse (ar_version rel) of Inl _ \<Rightarrow> False | Inr v \<Rightarrow> is_affected v bounds) releases)"

definition range_bounds :: "osv_range \<Rightarrow> string \<times> string" where
  "range_bounds r =
     foldl (\<lambda>(intro, fix) e.
        (if ev_introduced e \<noteq> [] \<and> intro = [] then ev_introduced e else intro,
         if ev_fixed e \<noteq> [] then ev_fixed e else fix)) ([], []) (rg_events r)"

record adv_match =
  mt_release :: adv_release
  mt_introduced :: string
  mt_fixed :: string

definition note_match :: "string \<Rightarrow> string \<Rightarrow> (string, adv_match) gomap \<Rightarrow> adv_release \<Rightarrow> (string, adv_match) gomap" where
  "note_match intro fix seen rel =
     (if has_key seen (ar_version rel) then seen
      else put (ar_version rel) \<lparr>mt_release = rel, mt_introduced = intro, mt_fixed = fix\<rparr> seen)"

definition match_range :: "adv_release list \<Rightarrow> (string, adv_match) gomap \<Rightarrow> osv_range \<Rightarrow> (string, adv_match) gomap" where
  "match_range releases seen rng =
     (let (intro, fix) = range_bounds rng in foldl (note_match intro fix) seen (affected_versions rng releases))"

definition match_affected :: "osv_affected \<Rightarrow> adv_release list \<Rightarrow> adv_match list" where
  "match_affected aff releases =
     (let seen = foldl (match_range releases) [] (af_ranges aff);
          seen = (if af_ranges aff = []
            then foldl (\<lambda>seen want. foldl (note_match [] []) seen (List.filter (\<lambda>rel. ar_version rel = want) releases)) seen (af_versions aff)
            else seen)
      in List.map snd seen)"

subsection \<open>Ingesting\<close>

record adv_stats =
  as_advisories :: nat
  as_affected :: nat
  as_no_timeline :: nat
  as_edges :: nat

definition adv_batch_default :: "int \<Rightarrow> int" where
  "adv_batch_default batch = (if batch \<le> 0 then default_batch else batch)"

definition upsert_advisory :: string where
  "upsert_advisory = ''UNWIND $rows AS row MERGE (a {id: row.id}) ''
     @ ''SET a:Advisory, a.osv_id = row.osv_id, a.summary = row.summary, ''
     @ ''a.severity = row.severity, a.cvss = row.cvss, a.published_at = row.published_at''"

definition link_affects :: string where
  "link_affects = ''UNWIND $rows AS row MATCH (a:Advisory {id: row.src}), (v:Version {id: row.dst}) ''
     @ ''MERGE (a)-[r:AFFECTS {id: row.id}]->(v) SET r.introduced = row.introduced, r.fixed = row.fixed''"

definition adv_timeline_stmt :: "int \<Rightarrow> string" where
  "adv_timeline_stmt i = ''MATCH (p:Package {id: '' @ itoa i @ ''})-[:HAS_VERSION]->(v:Version) ''
     @ ''RETURN v.version AS version, v.published_at AS published''"

definition adv_release_of :: "grecord \<Rightarrow> adv_release option" where
  "adv_release_of rec =
     (case column rec ''version'' of
        PStr v \<Rightarrow> Some \<lparr>ar_version = v, ar_published = as_int (column rec ''published'')\<rparr>
      | _ \<Rightarrow> None)"

definition adv_graph_timeline :: "query_fun \<Rightarrow> string \<Rightarrow> adv_release list res" where
  "adv_graph_timeline query name =
     (case query (adv_timeline_stmt (node_id (package_urn ''npm'' name))) of
        Inl e \<Rightarrow> Inl (Wrap (''timeline of '' @ name) e)
      | Inr recs \<Rightarrow> Inr (List.map_filter adv_release_of recs))"

definition advisory_row :: "(string \<Rightarrow> nat option) \<Rightarrow> (string \<Rightarrow> int option) \<Rightarrow> osv_record \<Rightarrow> row" where
  "advisory_row parse_float parse_time r =
     [(''id'', PInt (node_id (advisory_urn (osv_id r)))), (''osv_id'', PStr (osv_id r)), (''summary'', PStr (osv_summary r)),
      (''severity'', PStr (severity_of r)), (''cvss'', PFloat (fst (cvss_score parse_float r))),
      (''published_at'', PInt (published_instant parse_time (osv_published r)))]"

definition affects_id :: "string \<Rightarrow> string \<Rightarrow> adv_match \<Rightarrow> int" where
  "affects_id i name mt = edge_id (advisory_urn i) ''AFFECTS'' (version_urn ''npm'' name (ar_version (mt_release mt))) []"

definition affects_row :: "string \<Rightarrow> string \<Rightarrow> adv_match \<Rightarrow> row" where
  "affects_row i name mt =
     [(''id'', PInt (affects_id i name mt)), (''src'', PInt (node_id (advisory_urn i))),
      (''dst'', PInt (node_id (version_urn ''npm'' name (ar_version (mt_release mt))))),
      (''introduced'', PStr (mt_introduced mt)), (''fixed'', PStr (mt_fixed mt))]"

text \<open>The state of the loop over the affected blocks: timelines read, edge ids seen, rows, counters.\<close>

record adv_state =
  st_timelines :: "(string, adv_release list) gomap"
  st_seen :: "int list"
  st_rows :: "row list"
  st_stats :: adv_stats

definition add_match :: "string \<Rightarrow> string \<Rightarrow> adv_state \<Rightarrow> adv_match \<Rightarrow> adv_state" where
  "add_match i name st mt =
     (let eid = affects_id i name mt in
      if eid \<in> set (st_seen st) then st
      else st\<lparr>st_seen := st_seen st @ [eid], st_rows := st_rows st @ [affects_row i name mt]\<rparr>)"

definition timeline_cached :: "(string \<Rightarrow> adv_release list res) \<Rightarrow> string \<Rightarrow> adv_state \<Rightarrow> (adv_release list \<times> adv_state) res" where
  "timeline_cached src name st =
     (case map_of (st_timelines st) name of
        Some rel \<Rightarrow> Inr (rel, st)
      | None \<Rightarrow>
          (case src name of
             Inl e \<Rightarrow> Inl e
           | Inr rel \<Rightarrow> Inr (rel, st\<lparr>st_timelines := put name rel (st_timelines st)\<rparr>)))"

text \<open>A failed read returns the counters so far with the error.\<close>

definition block_step :: "(string \<Rightarrow> adv_release list res) \<Rightarrow> string \<Rightarrow> osv_affected \<Rightarrow> adv_state \<Rightarrow> err option \<times> adv_state" where
  "block_step src i aff st =
     (if af_ecosystem aff \<noteq> ''npm'' \<or> af_name aff = [] then (None, st)
      else let st = st\<lparr>st_stats := (st_stats st)\<lparr>as_affected := as_affected (st_stats st) + 1\<rparr>\<rparr> in
        case timeline_cached src (af_name aff) st of
          Inl e \<Rightarrow> (Some (Wrap (''timeline of '' @ af_name aff) e), st)
        | Inr (releases, st) \<Rightarrow>
            if releases = [] then (None, st\<lparr>st_stats := (st_stats st)\<lparr>as_no_timeline := as_no_timeline (st_stats st) + 1\<rparr>\<rparr>)
            else (None, foldl (add_match i (af_name aff)) st (match_affected aff releases)))"

fun blocks_loop :: "(string \<Rightarrow> adv_release list res) \<Rightarrow> (string \<times> osv_affected) list \<Rightarrow> adv_state \<Rightarrow> err option \<times> adv_state" where
  "blocks_loop src [] st = (None, st)"
| "blocks_loop src ((i, aff) # bs) st =
     (case block_step src i aff st of
        (Some e, st) \<Rightarrow> (Some e, st)
      | (None, st) \<Rightarrow> blocks_loop src bs st)"

definition blocks_of :: "osv_record list \<Rightarrow> (string \<times> osv_affected) list" where
  "blocks_of records = concat (List.map (\<lambda>r. List.map (Pair (osv_id r)) (osv_affected_blocks r)) records)"

definition advisory_run ::
  "(string \<Rightarrow> nat option) \<Rightarrow> (string \<Rightarrow> int option) \<Rightarrow> (string \<Rightarrow> adv_release list res) \<Rightarrow> 'w runner \<Rightarrow> (err \<Rightarrow> bool) \<Rightarrow> ('w \<Rightarrow> err option)
     \<Rightarrow> int \<Rightarrow> osv_record list \<Rightarrow> 'w \<Rightarrow> err option \<times> adv_stats \<times> 'w" where
  "advisory_run parse_float parse_time src run transient ended batch records w =
     (let stats = \<lparr>as_advisories = 0, as_affected = 0, as_no_timeline = 0, as_edges = 0\<rparr>;
          b = adv_batch_default batch;
          node_rows = List.map (advisory_row parse_float parse_time) (List.filter (\<lambda>r. osv_id r \<noteq> []) records)
      in case write_batch run transient ended upsert_advisory node_rows b w of
           (_, Some e, w) \<Rightarrow> (Some (Wrap ''write advisories'' e), stats, w)
         | (written, None, w) \<Rightarrow>
             (case blocks_loop src (blocks_of records)
                 \<lparr>st_timelines = [], st_seen = [], st_rows = [], st_stats = stats\<lparr>as_advisories := written\<rparr>\<rparr> of
                (Some e, st) \<Rightarrow> (Some e, st_stats st, w)
              | (None, st) \<Rightarrow>
                  (case write_batch run transient ended link_affects (st_rows st) b w of
                     (_, Some e, w) \<Rightarrow> (Some (Wrap ''write affects'' e), st_stats st, w)
                   | (n, None, w) \<Rightarrow> (None, (st_stats st)\<lparr>as_edges := n\<rparr>, w))))"

subsection \<open>What a range covers\<close>

definition keeps_affected :: "version \<Rightarrow> boundary \<Rightarrow> bool" where
  "keeps_affected v c \<longleftrightarrow> (bd_kind c = Fixed \<longrightarrow> compare v (bd_version c) < 0) \<and> (bd_kind c = LastAffected \<longrightarrow> compare v (bd_version c) \<le> 0)"

definition opened_at :: "version \<Rightarrow> boundary list \<Rightarrow> bool" where
  "opened_at v bs \<longleftrightarrow> (\<exists>ys b zs. bs = ys @ b # zs \<and> bd_kind b = Introduced \<and> compare v (bd_version b) \<ge> 0 \<and> list_all (keeps_affected v) zs)"

lemma opened_at_Cons:
  "opened_at v (b # bs) \<longleftrightarrow>
     bd_kind b = Introduced \<and> compare v (bd_version b) \<ge> 0 \<and> list_all (keeps_affected v) bs \<or> opened_at v bs"
proof
  assume "opened_at v (b # bs)"
  then obtain ys c zs where *: "b # bs = ys @ c # zs" "bd_kind c = Introduced" "compare v (bd_version c) \<ge> 0" "list_all (keeps_affected v) zs"
    by (auto simp: opened_at_def)
  then show "bd_kind b = Introduced \<and> compare v (bd_version b) \<ge> 0 \<and> list_all (keeps_affected v) bs \<or> opened_at v bs"
    by (cases ys) (auto simp: opened_at_def)
next
  assume *: "bd_kind b = Introduced \<and> compare v (bd_version b) \<ge> 0 \<and> list_all (keeps_affected v) bs \<or> opened_at v bs"
  then show "opened_at v (b # bs)"
  proof
    assume "opened_at v bs"
    then obtain ys c zs where "bs = ys @ c # zs" "bd_kind c = Introduced" "compare v (bd_version c) \<ge> 0" "list_all (keeps_affected v) zs"
      by (auto simp: opened_at_def)
    then show ?thesis unfolding opened_at_def by (intro exI [of _ "b # ys"]) auto
  qed (auto simp: opened_at_def intro: exI [of _ "[]"])
qed

lemma opened_at_Nil: "\<not> opened_at v []"
  by (simp add: opened_at_def)

lemma above_all:
  assumes "canonical v" "list_all (\<lambda>c. canonical (bd_version c)) (b # bs)" "compare v (bd_version b) < 0"
    "sorted_wrt (\<lambda>x y. \<not> compare (bd_version y) (bd_version x) < 0) (b # bs)" "c \<in> set bs"
  shows "compare v (bd_version c) < 0"
proof -
  have c: "canonical (bd_version b)" "canonical (bd_version c)" using assms(2,5) by (auto simp: list_all_iff)
  have "\<not> compare (bd_version c) (bd_version b) < 0" using assms(4,5) by simp
  then have "version_key (bd_version b) \<le> version_key (bd_version c)" "version_key v < version_key (bd_version b)"
    using assms(1,3) c by (simp_all add: compare_simps not_less)
  then show ?thesis using assms(1) c by (simp add: compare_simps)
qed

lemma affected_walk_sorted:
  "canonical v \<Longrightarrow> list_all (\<lambda>c. canonical (bd_version c)) bs \<Longrightarrow>
   sorted_wrt (\<lambda>x y. \<not> compare (bd_version y) (bd_version x) < 0) bs \<Longrightarrow>
   affected_walk v bs a \<longleftrightarrow> opened_at v bs \<or> a \<and> list_all (keeps_affected v) bs"
proof (induction v bs a rule: affected_walk.induct)
  case (1 v a)
  then show ?case by (simp add: opened_at_Nil)
next
  case (2 v b bs a)
  show ?case
  proof (cases "compare v (bd_version b) < 0")
    case True
    have above: "compare v (bd_version c) < 0" if "c \<in> set (b # bs)" for c
      using above_all [OF 2(2,3) True 2(4)] that True by auto
    then have "\<not> opened_at v (b # bs)" by (auto simp: opened_at_def) (metis in_set_conv_decomp not_less set_ConsD)
    moreover have "list_all (keeps_affected v) (b # bs)" using above by (auto simp: list_all_iff keeps_affected_def dest: less_imp_le)
    ultimately show ?thesis using True by simp
  next
    case False
    with 2 show ?thesis
      by (cases "bd_kind b") (auto simp: opened_at_Cons keeps_affected_def [of v b])
  qed
qed

interpretation by_boundary: slice_order "\<lambda>x y. compare (bd_version x) (bd_version y) < 0" "\<lambda>b. canonical (bd_version b)"
  using by_version.asym by_version.neg_trans by unfold_locales blast+

text \<open>The events of a range that parse, in any order; \<open>before\<close> says which of two is older.\<close>

definition bounds_of :: "osv_range \<Rightarrow> boundary list" where
  "bounds_of r = List.map_filter boundary_of (rg_events r)"

definition covers_version :: "boundary set \<Rightarrow> version \<Rightarrow> bool" where
  "covers_version B v \<longleftrightarrow> (\<exists>i \<in> B. bd_kind i = Introduced \<and> compare v (bd_version i) \<ge> 0 \<and>
     \<not> (\<exists>f \<in> B. bd_kind f = Fixed \<and> compare (bd_version i) (bd_version f) < 0 \<and> compare v (bd_version f) \<ge> 0) \<and>
     \<not> (\<exists>l \<in> B. bd_kind l = LastAffected \<and> compare (bd_version i) (bd_version l) < 0 \<and> compare v (bd_version l) > 0))"

lemma opened_at_covers:
  assumes "canonical v" "list_all (\<lambda>c. canonical (bd_version c)) bs"
    and "sorted_wrt (\<lambda>x y. compare (bd_version x) (bd_version y) < 0) bs"
  shows "opened_at v bs \<longleftrightarrow> covers_version (set bs) v"
proof -
  have can: "canonical (bd_version c)" if "c \<in> set bs" for c using assms(2) that by (simp add: list_all_iff)
  have split: "zs' = {c \<in> set bs. compare (bd_version b) (bd_version c) < 0}"
    if "bs = ys @ b # zs" "zs' = set zs" for ys b zs zs'
  proof -
    have "compare (bd_version b) (bd_version c) < 0" if "c \<in> set zs" for c
      using assms(3) that \<open>bs = ys @ b # zs\<close> by (simp add: sorted_wrt_append)
    moreover have "\<not> compare (bd_version b) (bd_version c) < 0" if "c \<in> set ys \<or> c = b" for c
    proof -
      have cb: "canonical (bd_version b)" "canonical (bd_version c)" using can that \<open>bs = ys @ b # zs\<close> by auto
      have "c = b \<or> compare (bd_version c) (bd_version b) < 0" using assms(3) that \<open>bs = ys @ b # zs\<close> by (auto simp: sorted_wrt_append)
      then show ?thesis using cb by (auto simp: compare_simps)
    qed
    ultimately show ?thesis using that by auto
  qed
  have keeps: "list_all (keeps_affected v) zs \<longleftrightarrow>
      \<not> (\<exists>f \<in> set bs. bd_kind f = Fixed \<and> compare (bd_version b) (bd_version f) < 0 \<and> compare v (bd_version f) \<ge> 0) \<and>
      \<not> (\<exists>l \<in> set bs. bd_kind l = LastAffected \<and> compare (bd_version b) (bd_version l) < 0 \<and> compare v (bd_version l) > 0)"
    if "bs = ys @ b # zs" for ys b zs
    unfolding list_all_iff split [OF that refl] keeps_affected_def by (auto simp: not_less not_le)
  show ?thesis
  proof
    assume "opened_at v bs"
    then obtain ys b zs where b: "bs = ys @ b # zs" "bd_kind b = Introduced" "compare v (bd_version b) \<ge> 0" "list_all (keeps_affected v) zs"
      by (auto simp: opened_at_def)
    then have "b \<in> set bs" by simp
    then show "covers_version (set bs) v" unfolding covers_version_def using b keeps [OF b(1)] by blast
  next
    assume "covers_version (set bs) v"
    then obtain b where b: "b \<in> set bs" "bd_kind b = Introduced" "compare v (bd_version b) \<ge> 0"
      "\<not> (\<exists>f \<in> set bs. bd_kind f = Fixed \<and> compare (bd_version b) (bd_version f) < 0 \<and> compare v (bd_version f) \<ge> 0)"
      "\<not> (\<exists>l \<in> set bs. bd_kind l = LastAffected \<and> compare (bd_version b) (bd_version l) < 0 \<and> compare v (bd_version l) > 0)"
      unfolding covers_version_def by blast
    obtain ys zs where s: "bs = ys @ b # zs" using b(1) by (metis in_set_conv_decomp)
    show "opened_at v bs" unfolding opened_at_def using s b keeps [OF s] by blast
  qed
qed

text \<open>C24: a published version is matched by a range exactly when some introduced event is at or below it and no
  later fixed event is at or below it and no later last-affected event is below it, whatever the order of the
  events in the record, as long as no two of them name the same version.\<close>

theorem affected_by_events:
  assumes "rg_type r \<noteq> ''GIT''" "parse (ar_version rel) = Inr v" "canonical v"
    and "list_all (\<lambda>c. canonical (bd_version c)) (bounds_of r)"
    and "distinct (List.map (version_key \<circ> bd_version) (bounds_of r))" "rel \<in> set releases"
  shows "rel \<in> set (affected_versions r releases) \<longleftrightarrow> covers_version (set (bounds_of r)) v"
proof -
  have s: "sorted_bounds r = sort_slice (\<lambda>x y. compare (bd_version x) (bd_version y) < 0) (bounds_of r)"
    by (simp add: sorted_bounds_def bounds_of_def)
  have can: "list_all (\<lambda>c. canonical (bd_version c)) (sorted_bounds r)" using assms(4) by (simp add: s list_all_iff)
  have weak: "sorted_wrt (\<lambda>x y. \<not> compare (bd_version y) (bd_version x) < 0) (sorted_bounds r)"
    unfolding s by (rule by_boundary.sorted_sort_slice) (use assms(4) in \<open>simp add: list_all_iff\<close>)
  have "distinct (List.map (version_key \<circ> bd_version) (sorted_bounds r))"
    using assms(5) by (metis s mset_map mset_sort_slice mset_eq_imp_distinct_iff)
  then have "sorted_wrt (\<lambda>x y. version_key (bd_version x) \<noteq> version_key (bd_version y)) (sorted_bounds r)"
    by (auto simp: sorted_wrt_iff_nth_less distinct_conv_nth)
  with weak have "sorted_wrt (\<lambda>x y. \<not> compare (bd_version y) (bd_version x) < 0 \<and> version_key (bd_version x) \<noteq> version_key (bd_version y)) (sorted_bounds r)"
    by (simp add: sorted_wrt_iff_nth_less)
  then have strict: "sorted_wrt (\<lambda>x y. compare (bd_version x) (bd_version y) < 0) (sorted_bounds r)"
    by (rule sorted_wrt_mono_rel [rotated]) (use can in \<open>auto simp: list_all_iff compare_simps\<close>)
  have "is_affected v (sorted_bounds r) \<longleftrightarrow> covers_version (set (sorted_bounds r)) v"
    unfolding is_affected_def affected_walk_sorted [OF assms(3) can weak] opened_at_covers [OF assms(3) can strict] by simp
  also have "set (sorted_bounds r) = set (bounds_of r)" by (simp add: s)
  finally have main: "is_affected v (sorted_bounds r) \<longleftrightarrow> covers_version (set (bounds_of r)) v" .
  show ?thesis
  proof (cases "sorted_bounds r = []")
    case True
    then have "bounds_of r = []" by (simp add: s)
    then show ?thesis using True by (simp add: affected_versions_def covers_version_def)
  next
    case False
    then show ?thesis using assms(1,2,6) main by (simp add: affected_versions_def)
  qed
qed

definition sample_range :: osv_range where
  "sample_range = \<lparr>rg_type = ''SEMVER'', rg_events =
     [\<lparr>ev_introduced = [], ev_fixed = ''1.2.0'', ev_last_affected = []\<rparr>, \<lparr>ev_introduced = ''1.0.0'', ev_fixed = [], ev_last_affected = []\<rparr>]\<rparr>"

lemma sample_parses:
  "parse ''1.2.0'' = Inr (rver 1 2 0)" "parse ''1.1.0'' = Inr (rver 1 1 0)" "parse ''1.0.0'' = Inr (rver 1 0 0)"
  "parse ''0.0.1'' = Inr (rver 0 0 1)" "parse ''1.2.3'' = Inr (rver 1 2 3)" "parse ''2.0.0'' = Inr (rver 2 0 0)"
  "parse ''0.0.0-alpha'' = Inr \<lparr>major = 0, minor = 0, patch = 0, pre = [''alpha''], build = []\<rparr>"
  by (simp_all add: parse_eval)

lemma sample_bounds: "bounds_of sample_range =
  [\<lparr>bd_version = rver 1 2 0, bd_kind = Fixed\<rparr>, \<lparr>bd_version = rver 1 0 0, bd_kind = Introduced\<rparr>]"
  by (simp add: bounds_of_def sample_range_def boundary_of_def parse_boundary_def sample_parses)

theorem affected_by_events_witness:
  "\<lparr>ar_version = ''1.1.0'', ar_published = 5\<rparr> \<in> set (affected_versions sample_range [\<lparr>ar_version = ''1.1.0'', ar_published = 5\<rparr>])
   \<longleftrightarrow> covers_version (set (bounds_of sample_range)) (rver 1 1 0)"
proof (rule affected_by_events)
  show "rg_type sample_range \<noteq> ''GIT''" by (simp add: sample_range_def)
  show "parse (ar_version \<lparr>ar_version = ''1.1.0'', ar_published = 5\<rparr>) = Inr (rver 1 1 0)"
    by (simp add: sample_parses)
qed (simp_all add: sample_bounds canonical_def version_key_def)

text \<open>The sentinel for the first version is read as 0.0.0, above its prereleases: a prerelease of 0.0.0 is not
  covered by a range that affects every version.\<close>

theorem from_the_beginning_misses_prerelease:
  "affected_versions \<lparr>rg_type = ''SEMVER'', rg_events = [\<lparr>ev_introduced = ''0'', ev_fixed = [], ev_last_affected = []\<rparr>]\<rparr>
     [\<lparr>ar_version = ''0.0.0-alpha'', ar_published = 1\<rparr>, \<lparr>ar_version = ''0.0.1'', ar_published = 2\<rparr>] =
   [\<lparr>ar_version = ''0.0.1'', ar_published = 2\<rparr>]"
  by (simp add: affected_versions_def sorted_bounds_def boundary_of_def parse_boundary_def zero_version_def sample_parses
      is_affected_def compare_def cmp_uint_def compare_pre_def)

text \<open>When introduced and last affected name the same version, the order of the two events in the record decides:
  listed the other way round, the range covers every later version too.\<close>

theorem event_order_decides:
  "affected_versions \<lparr>rg_type = ''SEMVER'', rg_events =
     [\<lparr>ev_introduced = ''1.2.3'', ev_fixed = [], ev_last_affected = []\<rparr>, \<lparr>ev_introduced = [], ev_fixed = [], ev_last_affected = ''1.2.3''\<rparr>]\<rparr>
     [\<lparr>ar_version = ''1.2.3'', ar_published = 1\<rparr>, \<lparr>ar_version = ''2.0.0'', ar_published = 2\<rparr>] = [\<lparr>ar_version = ''1.2.3'', ar_published = 1\<rparr>] \<and>
   affected_versions \<lparr>rg_type = ''SEMVER'', rg_events =
     [\<lparr>ev_introduced = [], ev_fixed = [], ev_last_affected = ''1.2.3''\<rparr>, \<lparr>ev_introduced = ''1.2.3'', ev_fixed = [], ev_last_affected = []\<rparr>]\<rparr>
     [\<lparr>ar_version = ''1.2.3'', ar_published = 1\<rparr>, \<lparr>ar_version = ''2.0.0'', ar_published = 2\<rparr>] =
     [\<lparr>ar_version = ''1.2.3'', ar_published = 1\<rparr>, \<lparr>ar_version = ''2.0.0'', ar_published = 2\<rparr>]"
  by (simp add: affected_versions_def sorted_bounds_def boundary_of_def parse_boundary_def zero_version_def sample_parses
      is_affected_def compare_def cmp_uint_def compare_pre_def)

subsection \<open>What a run writes\<close>

text \<open>The matches the records call for: advisory, package and match.\<close>

definition block_matches :: "(string \<Rightarrow> adv_release list res) \<Rightarrow> string \<Rightarrow> osv_affected \<Rightarrow> (string \<times> string \<times> adv_match) set" where
  "block_matches src i aff =
     {(i, af_name aff, mt) | mt. af_ecosystem aff = ''npm'' \<and> af_name aff \<noteq> [] \<and>
        (\<exists>rel. src (af_name aff) = Inr rel \<and> mt \<in> set (match_affected aff rel))}"

definition wanted_matches :: "(string \<Rightarrow> adv_release list res) \<Rightarrow> (string \<times> osv_affected) list \<Rightarrow> (string \<times> string \<times> adv_match) set" where
  "wanted_matches src bs = (\<Union>b \<in> set bs. block_matches src (fst b) (snd b))"

definition match_id :: "string \<times> string \<times> adv_match \<Rightarrow> int" where
  "match_id m = affects_id (fst m) (fst (snd m)) (snd (snd m))"

definition match_row :: "string \<times> string \<times> adv_match \<Rightarrow> row" where
  "match_row m = affects_row (fst m) (fst (snd m)) (snd (snd m))"

definition row_id :: "row \<Rightarrow> prim" where
  "row_id r = getd PNull r ''id''"

definition adv_ok :: "(string \<Rightarrow> adv_release list res) \<Rightarrow> (string \<times> string \<times> adv_match) set \<Rightarrow> adv_state \<Rightarrow> bool" where
  "adv_ok src M st \<longleftrightarrow> (\<forall>n rel. map_of (st_timelines st) n = Some rel \<longrightarrow> src n = Inr rel) \<and>
     distinct (st_seen st) \<and> List.map row_id (st_rows st) = List.map PInt (st_seen st) \<and>
     set (st_seen st) = match_id ` M \<and> set (st_rows st) \<subseteq> match_row ` M"

lemma add_match_ok: "adv_ok src M st \<Longrightarrow> adv_ok src (insert (i, n, mt) M) (add_match i n st mt)"
  by (auto simp: adv_ok_def add_match_def Let_def match_id_def match_row_def row_id_def affects_row_def getd_def)

lemma add_matches_ok:
  "adv_ok src M st \<Longrightarrow> adv_ok src (M \<union> (\<lambda>mt. (i, n, mt)) ` set mts) (foldl (add_match i n) st mts)"
proof (induction mts arbitrary: M st)
  case (Cons mt mts)
  from Cons.IH [OF add_match_ok [OF Cons.prems]] show ?case by simp
qed simp

lemma match_affected_none: "match_affected aff [] = []"
proof -
  have "match_range [] seen rng = seen" for seen rng
    by (simp add: match_range_def affected_versions_def Let_def split: prod.split)
  then have "foldl (match_range []) seen rngs = seen" for seen rngs by (induction rngs) simp_all
  moreover have "foldl (\<lambda>seen want. seen) seen ws = seen" for seen :: "(string, adv_match) gomap" and ws :: "string list"
    by (induction ws) simp_all
  ultimately show ?thesis by (simp add: match_affected_def)
qed

lemma timeline_cached_ok:
  assumes "adv_ok src M st" "timeline_cached src n st = Inr (rel, st')"
  shows "adv_ok src M st' \<and> src n = Inr rel"
  using assms by (auto simp: timeline_cached_def adv_ok_def update_conv' split: option.splits sum.splits if_splits)

lemma block_step_ok:
  assumes "adv_ok src M st" "block_step src i aff st = (None, st')"
  shows "adv_ok src (M \<union> block_matches src i aff) st'"
proof (cases "af_ecosystem aff \<noteq> ''npm'' \<or> af_name aff = []")
  case True
  then have "block_matches src i aff = {}" by (auto simp: block_matches_def)
  then show ?thesis using True assms by (simp add: block_step_def)
next
  case False
  let ?st = "st\<lparr>st_stats := (st_stats st)\<lparr>as_affected := as_affected (st_stats st) + 1\<rparr>\<rparr>"
  have st: "adv_ok src M ?st" using assms(1) by (simp add: adv_ok_def)
  obtain rel mid where mid: "timeline_cached src (af_name aff) ?st = Inr (rel, mid)"
    using assms(2) False by (auto simp: block_step_def Let_def split: sum.splits)
  from timeline_cached_ok [OF st mid] have ok: "adv_ok src M mid" and rel: "src (af_name aff) = Inr rel" by simp_all
  have m: "block_matches src i aff = (\<lambda>mt. (i, af_name aff, mt)) ` set (match_affected aff rel)"
    using False rel by (auto simp: block_matches_def)
  show ?thesis
  proof (cases "rel = []")
    case True
    then have "block_matches src i aff = {}" by (simp add: m match_affected_none)
    moreover have "adv_ok src M st'" using assms(2) False mid True ok by (auto simp: block_step_def Let_def adv_ok_def)
    ultimately show ?thesis by simp
  next
    case rel_ne: False
    then have "st' = foldl (add_match i (af_name aff)) mid (match_affected aff rel)"
      using assms(2) False mid by (simp add: block_step_def Let_def)
    then show ?thesis unfolding m using add_matches_ok [OF ok] by simp
  qed
qed

lemma blocks_loop_ok:
  "adv_ok src M st \<Longrightarrow> blocks_loop src bs st = (None, st') \<Longrightarrow> adv_ok src (M \<union> wanted_matches src bs) st'"
proof (induction src bs st arbitrary: M rule: blocks_loop.induct)
  case (1 src st)
  then show ?case by (simp add: wanted_matches_def)
next
  case (2 src i aff bs st)
  obtain mid where mid: "block_step src i aff st = (None, mid)" "blocks_loop src bs mid = (None, st')"
    using "2.prems"(2) by (auto split: prod.splits option.splits)
  from "2.IH" [OF mid(1) [symmetric] refl block_step_ok [OF "2.prems"(1) mid(1)] mid(2)]
  show ?case by (simp add: wanted_matches_def Un_assoc)
qed

lemma advisory_run_writes:
  assumes "merge_store run rows_in"
    "advisory_run parse_float parse_time src run transient ended batch records w = (None, stats, w')"
  obtains rows where "rows_in w' = rows_in w \<union> {upsert_advisory} \<times> set (List.map (advisory_row parse_float parse_time) (List.filter (\<lambda>r. osv_id r \<noteq> []) records))
      \<union> {link_affects} \<times> set rows"
    "distinct (List.map row_id rows)" "set (List.map row_id rows) = (PInt \<circ> match_id) ` wanted_matches src (blocks_of records)"
    "set rows \<subseteq> match_row ` wanted_matches src (blocks_of records)" "as_edges stats = length rows"
proof -
  let ?nodes = "List.map (advisory_row parse_float parse_time) (List.filter (\<lambda>r. osv_id r \<noteq> []) records)"
  obtain n w1 where w1: "write_batch run transient ended upsert_advisory ?nodes (adv_batch_default batch) w = (n, None, w1)"
    using assms(2) by (auto simp: advisory_run_def Let_def split: prod.splits option.splits)
  let ?st0 = "\<lparr>st_timelines = [], st_seen = [], st_rows = [],
    st_stats = \<lparr>as_advisories = n, as_affected = 0, as_no_timeline = 0, as_edges = 0\<rparr>\<rparr>"
  obtain st where st: "blocks_loop src (blocks_of records) ?st0 = (None, st)"
    using assms(2) w1 by (auto simp: advisory_run_def Let_def split: prod.splits option.splits)
  obtain m w2 where w2: "write_batch run transient ended link_affects (st_rows st) (adv_batch_default batch) w1 = (m, None, w2)"
    using assms(2) w1 st by (auto simp: advisory_run_def Let_def split: prod.splits option.splits)
  have fin: "w' = w2" "stats = (st_stats st)\<lparr>as_edges := m\<rparr>" using assms(2) w1 st w2 by (auto simp: advisory_run_def Let_def)
  have "adv_ok src {} ?st0" by (simp add: adv_ok_def)
  from blocks_loop_ok [OF this st] have ok: "adv_ok src (wanted_matches src (blocks_of records)) st" by simp
  have "rows_in w2 = rows_in w \<union> {upsert_advisory} \<times> set ?nodes \<union> {link_affects} \<times> set (st_rows st)"
    using merge_store.write_batch_rows [OF assms(1) w1] merge_store.write_batch_rows [OF assms(1) w2] by simp
  moreover have "m = length (st_rows st)" using merge_store.write_batch_rows [OF assms(1) w2] by simp
  moreover have "distinct (List.map row_id (st_rows st))" using ok by (simp add: adv_ok_def distinct_map inj_on_def)
  moreover have "set (List.map row_id (st_rows st)) = (PInt \<circ> match_id) ` wanted_matches src (blocks_of records)"
    using ok by (simp only: adv_ok_def set_map image_comp [symmetric])
  moreover have "set (st_rows st) \<subseteq> match_row ` wanted_matches src (blocks_of records)" using ok by (simp add: adv_ok_def)
  ultimately show thesis using that fin by simp
qed


definition sample_record :: osv_record where
  "sample_record = \<lparr>osv_id = ''GHSA-1'', osv_summary = ''s'', osv_published = [], osv_severities = [],
     osv_affected_blocks = [\<lparr>af_ecosystem = ''npm'', af_name = ''a'', af_ranges = [], af_versions = [''1.0.0'']\<rparr>], osv_db_severity = ''HIGH''\<rparr>"


end
