(* ===== verification/Incident.thy ===== *)
theory Incident
  imports Risk Lockfile
begin

text \<open>
  Incidents: \<open>internal/incident\<close>. The four questions asked about a compromised version: which recorded projects
  reach it, which release introduced it, who resolved it while it was live, and what else its accounts hold. What
  they read comes through the interfaces of the code, records of functions here, each with the graph's implementation.
\<close>

definition string_column :: "grecord list \<Rightarrow> string \<Rightarrow> string list" where
  "string_column recs c = List.map_filter (\<lambda>rec. case column rec c of PStr s \<Rightarrow> Some s | _ \<Rightarrow> None) recs"

subsection \<open>Introduction\<close>

record inc_release =
  ir_version :: string
  ir_published :: int

record inc_dependency =
  id_name :: string
  id_range :: string

record dependency_change =
  dc_name :: string
  dc_from :: string
  dc_to :: string

record dependency_diff =
  dd_added :: "inc_dependency list"
  dd_removed :: "inc_dependency list"
  dd_changed :: "dependency_change list"

record introduction =
  in_package :: string
  in_first_affected :: string
  in_published_at :: int
  in_previous :: string
  in_diff :: dependency_diff

record bisect_source =
  bs_timeline :: "string \<Rightarrow> inc_release list res"
  bs_affected :: "string \<Rightarrow> string \<Rightarrow> string list res"
  bs_dependencies :: "string \<Rightarrow> string \<Rightarrow> inc_dependency list res"

definition no_diff :: dependency_diff where
  "no_diff = \<lparr>dd_added = [], dd_removed = [], dd_changed = []\<rparr>"

definition ranges_by_name :: "inc_dependency list \<Rightarrow> (string, string) gomap" where
  "ranges_by_name ds = foldl (\<lambda>m d. put (id_name d) (id_range d) m) [] ds"

definition note_after :: "(string, string) gomap \<Rightarrow> dependency_diff \<Rightarrow> inc_dependency \<Rightarrow> dependency_diff" where
  "note_after before_range diff d =
     (case map_of before_range (id_name d) of
        None \<Rightarrow> diff\<lparr>dd_added := dd_added diff @ [d]\<rparr>
      | Some r \<Rightarrow>
          if r \<noteq> id_range d then diff\<lparr>dd_changed := dd_changed diff @ [\<lparr>dc_name = id_name d, dc_from = r, dc_to = id_range d\<rparr>]\<rparr>
          else diff)"

definition note_before :: "(string, string) gomap \<Rightarrow> dependency_diff \<Rightarrow> inc_dependency \<Rightarrow> dependency_diff" where
  "note_before after_range diff d =
     (if has_key after_range (id_name d) then diff else diff\<lparr>dd_removed := dd_removed diff @ [d]\<rparr>)"

definition diff_of :: "inc_dependency list \<Rightarrow> inc_dependency list \<Rightarrow> dependency_diff" where
  "diff_of older newer =
     foldl (note_before (ranges_by_name newer)) (foldl (note_after (ranges_by_name older)) no_diff newer) older"

definition diff_dependencies :: "bisect_source \<Rightarrow> string \<Rightarrow> string \<Rightarrow> string \<Rightarrow> dependency_diff res" where
  "diff_dependencies src name from_v to_v =
     (case bs_dependencies src name from_v of
        Inl e \<Rightarrow> Inl (Wrap (''dependencies of '' @ name @ ''@'' @ from_v) e)
      | Inr older \<Rightarrow>
          (case bs_dependencies src name to_v of
             Inl e \<Rightarrow> Inl (Wrap (''dependencies of '' @ name @ ''@'' @ to_v) e)
           | Inr newer \<Rightarrow> Inr (diff_of older newer)))"

text \<open>The walk: the release before the current one, when there is one.\<close>

fun first_affected :: "string list \<Rightarrow> inc_release option \<Rightarrow> inc_release list \<Rightarrow> (inc_release \<times> inc_release option) option" where
  "first_affected affected prev [] = None"
| "first_affected affected prev (r # rs) =
     (if ir_version r \<in> set affected then Some (r, prev) else first_affected affected (Some r) rs)"

definition by_publish :: "inc_release list \<Rightarrow> inc_release list" where
  "by_publish timeline = sort_slice (\<lambda>x y. ir_published x < ir_published y) timeline"

definition bisect :: "bisect_source \<Rightarrow> string \<Rightarrow> string \<Rightarrow> introduction res" where
  "bisect src advisory name =
     (case bs_timeline src name of
        Inl e \<Rightarrow> Inl (Wrap (''timeline of '' @ name) e)
      | Inr timeline \<Rightarrow>
          (case bs_affected src advisory name of
             Inl e \<Rightarrow> Inl (Wrap (''affected versions of '' @ name) e)
           | Inr affected \<Rightarrow>
               (case first_affected affected None (by_publish timeline) of
                  None \<Rightarrow> Inl (Msg (name @ '': advisory '' @ advisory @ '' affects no version in this package's timeline''))
                | Some (r, prev) \<Rightarrow>
                    let intro = \<lparr>in_package = name, in_first_affected = ir_version r, in_published_at = ir_published r,
                      in_previous = [], in_diff = no_diff\<rparr> in
                    (case prev of
                       None \<Rightarrow> Inr intro
                     | Some p \<Rightarrow>
                         (case diff_dependencies src name (ir_version p) (ir_version r) of
                            Inl e \<Rightarrow> Inl e
                          | Inr d \<Rightarrow> Inr (intro\<lparr>in_previous := ir_version p, in_diff := d\<rparr>))))))"

text \<open>The graph's reads. A package name goes into the statement as it is.\<close>

definition inc_timeline_stmt :: "int \<Rightarrow> string" where
  "inc_timeline_stmt i = ''MATCH (p:Package {id: '' @ itoa i @ ''})-[:HAS_VERSION]->(v:Version) ''
     @ ''RETURN v.version AS version, v.published_at AS published''"

definition inc_graph_timeline :: "query_fun \<Rightarrow> string \<Rightarrow> string \<Rightarrow> inc_release list res" where
  "inc_graph_timeline query eco name =
     (case query (inc_timeline_stmt (node_id (package_urn eco name))) of
        Inl e \<Rightarrow> Inl e
      | Inr recs \<Rightarrow> Inr (List.map_filter (\<lambda>rec. case column rec ''version'' of
            PStr v \<Rightarrow> Some \<lparr>ir_version = v, ir_published = as_int (column rec ''published'')\<rparr> | _ \<Rightarrow> None) recs))"

definition affected_stmt :: "int \<Rightarrow> string \<Rightarrow> string" where
  "affected_stmt i name = ''MATCH (a:Advisory {id: '' @ itoa i @ ''})-[:AFFECTS]->(v:Version) WHERE v.name = ''
     @ [CHR 0x27] @ name @ [CHR 0x27] @ '' RETURN v.version AS version''"

definition inc_graph_affected :: "query_fun \<Rightarrow> string \<Rightarrow> string \<Rightarrow> string list res" where
  "inc_graph_affected query advisory name =
     (case query (affected_stmt (node_id (advisory_urn advisory)) name) of
        Inl e \<Rightarrow> Inl e
      | Inr recs \<Rightarrow> Inr (collect (string_column recs ''version'')))"

definition inc_dependencies_stmt :: "int \<Rightarrow> string" where
  "inc_dependencies_stmt i = ''MATCH (v:Version {id: '' @ itoa i @ ''})-[r:DEPENDS_ON]->(p:Package) RETURN p.name AS name, r.range AS range''"

definition inc_graph_dependencies :: "query_fun \<Rightarrow> string \<Rightarrow> string \<Rightarrow> string \<Rightarrow> inc_dependency list res" where
  "inc_graph_dependencies query eco name ver =
     (case query (inc_dependencies_stmt (node_id (version_urn eco name ver))) of
        Inl e \<Rightarrow> Inl e
      | Inr recs \<Rightarrow> Inr (List.map_filter (\<lambda>rec. case column rec ''name'' of
            PStr n \<Rightarrow> Some \<lparr>id_name = n, id_range = as_str (column rec ''range'')\<rparr> | _ \<Rightarrow> None) recs))"

definition graph_bisect_source :: "query_fun \<Rightarrow> string \<Rightarrow> bisect_source" where
  "graph_bisect_source query eco =
     \<lparr>bs_timeline = inc_graph_timeline query eco, bs_affected = inc_graph_affected query, bs_dependencies = inc_graph_dependencies query eco\<rparr>"

subsection \<open>Resolved while it was live\<close>

record resolution_window =
  rw_dependent :: string
  rw_dependent_version :: string
  rw_from :: int
  rw_to :: int

record locked_at =
  la_project :: string
  la_at :: int

record live_source =
  ls_resolvers :: "string \<Rightarrow> string \<Rightarrow> resolution_window list res"
  ls_locking :: "string \<Rightarrow> string \<Rightarrow> locked_at list res"

record exposure =
  x_project :: string
  x_locked_at :: int
  x_dependent :: string
  x_from :: int
  x_to :: int

definition window_exposures :: "resolution_window \<Rightarrow> locked_at list \<Rightarrow> exposure list" where
  "window_exposures w ls =
     List.map_filter (\<lambda>l. if la_at l < rw_from w \<or> la_at l \<ge> rw_to w then None
       else Some \<lparr>x_project = la_project l, x_locked_at = la_at l, x_dependent = rw_dependent w @ ''@'' @ rw_dependent_version w,
         x_from = rw_from w, x_to = rw_to w\<rparr>) ls"

fun live_loop :: "live_source \<Rightarrow> resolution_window list \<Rightarrow> exposure list \<Rightarrow> exposure list res" where
  "live_loop src [] out = Inr out"
| "live_loop src (w # ws) out =
     (case ls_locking src (rw_dependent w) (rw_dependent_version w) of
        Inl e \<Rightarrow> Inl (Wrap (''projects locking '' @ rw_dependent w @ ''@'' @ rw_dependent_version w) e)
      | Inr ls \<Rightarrow> live_loop src ws (out @ window_exposures w ls))"

definition resolved_while_live :: "live_source \<Rightarrow> string \<Rightarrow> string \<Rightarrow> exposure list res" where
  "resolved_while_live src name ver =
     (case ls_resolvers src name ver of
        Inl e \<Rightarrow> Inl (Wrap (''resolvers into '' @ name @ ''@'' @ ver) e)
      | Inr ws \<Rightarrow> live_loop src ws [])"

definition resolvers_stmt :: "int \<Rightarrow> string" where
  "resolvers_stmt i = ''MATCH (d:Version)-[r:RESOLVES_TO]->(v:Version {id: '' @ itoa i
     @ ''}) RETURN d.name AS name, d.version AS version, r.valid_from AS valid_from, r.valid_to AS valid_to''"

definition graph_resolvers :: "query_fun \<Rightarrow> string \<Rightarrow> string \<Rightarrow> string \<Rightarrow> resolution_window list res" where
  "graph_resolvers query eco name ver =
     (case query (resolvers_stmt (node_id (version_urn eco name ver))) of
        Inl e \<Rightarrow> Inl e
      | Inr recs \<Rightarrow> Inr (List.map_filter (\<lambda>rec. case (column rec ''name'', column rec ''version'') of
            (PStr n, PStr v) \<Rightarrow> Some \<lparr>rw_dependent = n, rw_dependent_version = v,
              rw_from = as_int (column rec ''valid_from''), rw_to = as_int (column rec ''valid_to'')\<rparr>
          | _ \<Rightarrow> None) recs))"

definition locking_stmt :: "int \<Rightarrow> string" where
  "locking_stmt i = ''MATCH (p:Project)-[r:LOCKS]->(v:Version {id: '' @ itoa i @ ''}) RETURN p.name AS name, r.locked_at AS locked_at''"

definition graph_locking :: "query_fun \<Rightarrow> string \<Rightarrow> string \<Rightarrow> string \<Rightarrow> locked_at list res" where
  "graph_locking query eco name ver =
     (case query (locking_stmt (node_id (version_urn eco name ver))) of
        Inl e \<Rightarrow> Inl e
      | Inr recs \<Rightarrow> Inr (List.map_filter (\<lambda>rec. case column rec ''name'' of
            PStr n \<Rightarrow> Some \<lparr>la_project = n, la_at = as_int (column rec ''locked_at'')\<rparr> | _ \<Rightarrow> None) recs))"

subsection \<open>Shared accounts\<close>

record maintainer_source =
  ms_maintainers_of :: "string \<Rightarrow> int \<Rightarrow> string list res"
  ms_packages_of :: "string \<Rightarrow> int \<Rightarrow> string list res"

record shared_maintainer =
  sm_maintainer :: string
  sm_package :: string

fun shared_loop :: "maintainer_source \<Rightarrow> string \<Rightarrow> int \<Rightarrow> string list \<Rightarrow> shared_maintainer list \<Rightarrow> shared_maintainer list res" where
  "shared_loop src name t [] out = Inr out"
| "shared_loop src name t (h # hs) out =
     (case ms_packages_of src h t of
        Inl e \<Rightarrow> Inl (Wrap (''packages held by '' @ h) e)
      | Inr held \<Rightarrow> shared_loop src name t hs
          (out @ List.map (\<lambda>p. \<lparr>sm_maintainer = h, sm_package = p\<rparr>) (List.filter (\<lambda>p. p \<noteq> name) held)))"

definition shared_maintainers :: "maintainer_source \<Rightarrow> string \<Rightarrow> int \<Rightarrow> shared_maintainer list res" where
  "shared_maintainers src name t =
     (case ms_maintainers_of src name t of
        Inl e \<Rightarrow> Inl (Wrap (''maintainers of '' @ name) e)
      | Inr hs \<Rightarrow> shared_loop src name t hs [])"

definition maintainers_of_stmt :: "int \<Rightarrow> int \<Rightarrow> string" where
  "maintainers_of_stmt i t = ''MATCH (p:Package {id: '' @ itoa i @ ''})<-[r:MAINTAINS]-(m:Maintainer) WHERE r.valid_from <= ''
     @ itoa t @ '' AND r.valid_to > '' @ itoa t @ '' RETURN m.handle AS handle''"

definition packages_of_stmt :: "int \<Rightarrow> int \<Rightarrow> string" where
  "packages_of_stmt i t = ''MATCH (m:Maintainer {id: '' @ itoa i @ ''})-[r:MAINTAINS]->(p:Package) WHERE r.valid_from <= ''
     @ itoa t @ '' AND r.valid_to > '' @ itoa t @ '' RETURN p.name AS name''"

definition graph_maintainer_source :: "query_fun \<Rightarrow> string \<Rightarrow> maintainer_source" where
  "graph_maintainer_source query eco =
     \<lparr>ms_maintainers_of = \<lambda>name t. (case query (maintainers_of_stmt (node_id (package_urn eco name)) t) of
          Inl e \<Rightarrow> Inl e | Inr recs \<Rightarrow> Inr (string_column recs ''handle'')),
      ms_packages_of = \<lambda>h t. (case query (packages_of_stmt (node_id (maintainer_urn eco h)) t) of
          Inl e \<Rightarrow> Inl e | Inr recs \<Rightarrow> Inr (string_column recs ''name''))\<rparr>"

subsection \<open>Transitive exposure\<close>

record recorded_project =
  rp_name :: string
  rp_locked_at :: int

record exposure_source =
  es_projects :: "recorded_project list res"
  es_pins :: "string \<Rightarrow> pin list res"

text \<open>The search bound the question asks for, and the coexistence set of an audit, empty when no pin was known.\<close>

definition exposure_options :: "int \<Rightarrow> options" where
  "exposure_options t = \<lparr>owithin = at_instant t, max_depth = 12\<rparr>"

definition audit_reaches :: "audit_result \<Rightarrow> string \<Rightarrow> bool" where
  "audit_reaches a target = (case a_reach a of None \<Rightarrow> False | Some r \<Rightarrow> has_key (coexistence r) target)"

definition pin_pair :: "pin \<Rightarrow> string \<times> string" where
  "pin_pair p = (pin_name p, pin_version p)"

fun exposed_loop :: "exposure_source \<Rightarrow> query_fun \<Rightarrow> (real \<Rightarrow> string) \<Rightarrow> weights \<Rightarrow> int \<Rightarrow> string \<Rightarrow> recorded_project list
    \<Rightarrow> recorded_project list \<Rightarrow> recorded_project list res" where
  "exposed_loop src query years w now target [] out = Inr out"
| "exposed_loop src query years w now target (p # ps) out =
     (case es_pins src (rp_name p) of
        Inl e \<Rightarrow> Inl (Wrap (''pins of '' @ rp_name p) e)
      | Inr pins \<Rightarrow>
          if pins = [] then exposed_loop src query years w now target ps out
          else (case audit query years w now (rp_name p) [] (List.map pin_pair pins) (exposure_options (rp_locked_at p)) of
              Inl e \<Rightarrow> Inl (Wrap (''audit '' @ rp_name p) e)
            | Inr a \<Rightarrow> exposed_loop src query years w now target ps (if audit_reaches a target then out @ [p] else out)))"

definition transitively_exposed :: "exposure_source \<Rightarrow> query_fun \<Rightarrow> (real \<Rightarrow> string) \<Rightarrow> weights \<Rightarrow> int \<Rightarrow> string \<Rightarrow> string
    \<Rightarrow> recorded_project list res" where
  "transitively_exposed src query years w now name ver =
     (case es_projects src of
        Inl e \<Rightarrow> Inl (Wrap ''recorded projects'' e)
      | Inr ps \<Rightarrow> exposed_loop src query years w now (version_urn ''npm'' name ver) ps [])"

definition graph_exposure_source :: "query_fun \<Rightarrow> exposure_source" where
  "graph_exposure_source query =
     \<lparr>es_projects = (case query ''MATCH (p:Project) RETURN p.name AS name, p.locked_at AS locked_at'' of
          Inl e \<Rightarrow> Inl e
        | Inr recs \<Rightarrow> Inr (List.map_filter (\<lambda>rec. case column rec ''name'' of
            PStr n \<Rightarrow> Some \<lparr>rp_name = n, rp_locked_at = as_int (column rec ''locked_at'')\<rparr> | _ \<Rightarrow> None) recs)),
      es_pins = \<lambda>project. (case query (''MATCH (p:Project {id: '' @ itoa (node_id (project_urn project))
            @ ''})-[r:LOCKS]->(v:Version) RETURN v.name AS name, v.version AS version, r.direct AS direct, r.dev AS dev'') of
          Inl e \<Rightarrow> Inl e
        | Inr recs \<Rightarrow> Inr (List.map_filter (\<lambda>rec. case (column rec ''name'', column rec ''version'') of
            (PStr n, PStr v) \<Rightarrow> Some \<lparr>pin_name = n, pin_version = v, pin_direct = as_bool (column rec ''direct''), pin_dev = as_bool (column rec ''dev'')\<rparr>
          | _ \<Rightarrow> None) recs))\<rparr>"

subsection \<open>Discovery\<close>

record advisory_info =
  ai_id :: string
  ai_summary :: string
  ai_severity :: string

definition advisories_stmt :: "int \<Rightarrow> string" where
  "advisories_stmt i = ''MATCH (a:Advisory)-[:AFFECTS]->(v:Version {id: '' @ itoa i
     @ ''}) RETURN a.osv_id AS id, a.summary AS summary, a.severity AS severity''"

definition advisories_affecting :: "query_fun \<Rightarrow> string \<Rightarrow> string \<Rightarrow> string \<Rightarrow> advisory_info list res" where
  "advisories_affecting query eco name ver =
     (case query (advisories_stmt (node_id (version_urn eco name ver))) of
        Inl e \<Rightarrow> Inl e
      | Inr recs \<Rightarrow> Inr (List.map_filter (\<lambda>rec. case column rec ''id'' of
            PStr i \<Rightarrow> Some \<lparr>ai_id = i, ai_summary = as_str (column rec ''summary''), ai_severity = as_str (column rec ''severity'')\<rparr>
          | _ \<Rightarrow> None) recs))"

text \<open>A ratio is the bits of a \<open>float64\<close>.\<close>

record typosquat_neighbor =
  tn_name :: string
  tn_direction :: string
  tn_distance :: int
  tn_ratio :: nat

definition as_float :: "prim \<Rightarrow> nat" where
  "as_float v = (case v of PFloat f \<Rightarrow> f | _ \<Rightarrow> 0)"

definition typosquat_rows :: "grecord list \<Rightarrow> string \<Rightarrow> typosquat_neighbor list" where
  "typosquat_rows recs direction =
     List.map_filter (\<lambda>rec. case column rec ''name'' of
         PStr n \<Rightarrow> Some \<lparr>tn_name = n, tn_direction = direction, tn_distance = as_int (column rec ''distance''), tn_ratio = as_float (column rec ''ratio'')\<rparr>
       | _ \<Rightarrow> None) recs"

definition typosquats_near :: "query_fun \<Rightarrow> string \<Rightarrow> string \<Rightarrow> typosquat_neighbor list res" where
  "typosquats_near query eco name =
     (let i = itoa (node_id (package_urn eco name)) in
      case query (''MATCH (s:Package {id: '' @ i @ ''})-[r:TYPOSQUAT_OF]->(d:Package) RETURN d.name AS name, r.distance AS distance, r.popularity_ratio AS ratio'') of
        Inl e \<Rightarrow> Inl e
      | Inr outgoing \<Rightarrow>
          (case query (''MATCH (s:Package)-[r:TYPOSQUAT_OF]->(d:Package {id: '' @ i @ ''}) RETURN s.name AS name, r.distance AS distance, r.popularity_ratio AS ratio'') of
             Inl e \<Rightarrow> Inl e
           | Inr incoming \<Rightarrow> Inr (typosquat_rows outgoing ''impersonates'' @ typosquat_rows incoming ''impersonated by'')))"

subsection \<open>What the bisection finds\<close>

lemma first_affected_split:
  "first_affected affected prev rs = Some (r, p) \<Longrightarrow>
     \<exists>ys zs. rs = ys @ r # zs \<and> ir_version r \<in> set affected \<and> list_all (\<lambda>y. ir_version y \<notin> set affected) ys \<and>
       p = (if ys = [] then prev else Some (last ys))"
proof (induction affected prev rs rule: first_affected.induct)
  case (2 affected prev x rs)
  show ?case
  proof (cases "ir_version x \<in> set affected")
    case True
    then show ?thesis using 2(2) by (intro exI [of _ "[]"] exI [of _ rs]) auto
  next
    case False
    then obtain ys zs where "rs = ys @ r # zs" "ir_version r \<in> set affected" "list_all (\<lambda>y. ir_version y \<notin> set affected) ys"
      "p = (if ys = [] then Some x else Some (last ys))" using 2 by auto
    then show ?thesis using False by (intro exI [of _ "x # ys"] exI [of _ zs]) auto
  qed
qed simp

lemma first_affected_None: "first_affected affected prev rs = None \<longleftrightarrow> list_all (\<lambda>r. ir_version r \<notin> set affected) rs"
  by (induction affected prev rs rule: first_affected.induct) auto

lemma by_publish_sorted: "sorted_wrt (\<lambda>x y. ir_published x \<le> ir_published y) (by_publish rs)"
  using slice_order.sorted_sort_slice [OF slice_order_key [of ir_published], of rs]
  by (simp add: by_publish_def not_less)

lemma bisect_split:
  assumes "bisect src advisory name = Inr i"
  obtains tl af ys r zs where "bs_timeline src name = Inr tl" "bs_affected src advisory name = Inr af"
    "by_publish tl = ys @ r # zs" "ir_version r \<in> set af" "list_all (\<lambda>y. ir_version y \<notin> set af) ys"
    "in_package i = name" "in_first_affected i = ir_version r" "in_published_at i = ir_published r"
    "if ys = [] then in_previous i = [] \<and> in_diff i = no_diff
     else in_previous i = ir_version (last ys) \<and> diff_dependencies src name (ir_version (last ys)) (ir_version r) = Inr (in_diff i)"
proof -
  obtain tl af r p where tl: "bs_timeline src name = Inr tl" "bs_affected src advisory name = Inr af"
    "first_affected af None (by_publish tl) = Some (r, p)"
    using assms by (auto simp: bisect_def split: sum.splits option.splits)
  obtain ys zs where s: "by_publish tl = ys @ r # zs" "ir_version r \<in> set af" "list_all (\<lambda>y. ir_version y \<notin> set af) ys"
    "p = (if ys = [] then None else Some (last ys))" using first_affected_split [OF tl(3)] by auto
  show thesis
  proof (rule that [OF tl(1,2) s(1-3)])
    show "in_package i = name" "in_first_affected i = ir_version r" "in_published_at i = ir_published r"
      using assms tl by (auto simp: bisect_def Let_def split: option.splits sum.splits)
    show "if ys = [] then in_previous i = [] \<and> in_diff i = no_diff
     else in_previous i = ir_version (last ys) \<and> diff_dependencies src name (ir_version (last ys)) (ir_version r) = Inr (in_diff i)"
      using assms tl s(4) by (cases "ys = []") (auto simp: bisect_def Let_def split: sum.splits)
  qed
qed

text \<open>C26: a bisection names the affected release of the timeline that was published first, the release published
  just before it, none of those before being affected, and the difference of the dependencies of the two.\<close>

theorem bisect_finds_introduction:
  assumes "bisect src advisory name = Inr i"
  shows "\<exists>tl af ys r zs. bs_timeline src name = Inr tl \<and> bs_affected src advisory name = Inr af \<and>
    mset (ys @ r # zs) = mset tl \<and> ir_version r \<in> set af \<and> list_all (\<lambda>y. ir_version y \<notin> set af \<and> ir_published y \<le> ir_published r) ys \<and>
    list_all (\<lambda>z. ir_published r \<le> ir_published z) zs \<and>
    in_first_affected i = ir_version r \<and> in_published_at i = ir_published r \<and>
    (if ys = [] then in_previous i = [] \<and> in_diff i = no_diff
     else in_previous i = ir_version (last ys) \<and> diff_dependencies src name (ir_version (last ys)) (ir_version r) = Inr (in_diff i))"
proof -
  obtain tl af ys r zs where *: "bs_timeline src name = Inr tl" "bs_affected src advisory name = Inr af"
    "by_publish tl = ys @ r # zs" "ir_version r \<in> set af" "list_all (\<lambda>y. ir_version y \<notin> set af) ys"
    "in_package i = name" "in_first_affected i = ir_version r" "in_published_at i = ir_published r"
    "if ys = [] then in_previous i = [] \<and> in_diff i = no_diff
     else in_previous i = ir_version (last ys) \<and> diff_dependencies src name (ir_version (last ys)) (ir_version r) = Inr (in_diff i)"
    by (rule bisect_split [OF assms])
  have "mset (ys @ r # zs) = mset tl" unfolding *(3) [symmetric] by (simp add: by_publish_def)
  moreover have "sorted_wrt (\<lambda>x y. ir_published x \<le> ir_published y) (ys @ r # zs)" using by_publish_sorted [of tl] *(3) by simp
  then have "list_all (\<lambda>y. ir_published y \<le> ir_published r) ys" "list_all (\<lambda>z. ir_published r \<le> ir_published z) zs"
    by (auto simp: sorted_wrt_append list_all_iff)
  ultimately show ?thesis using * by (intro exI [of _ tl] exI [of _ af] exI [of _ ys] exI [of _ r] exI [of _ zs]) (simp add: list_all_iff)
qed

definition sample_bisect :: bisect_source where
  "sample_bisect =
     \<lparr>bs_timeline = \<lambda>_. Inr [\<lparr>ir_version = ''1.1.0'', ir_published = 20\<rparr>, \<lparr>ir_version = ''1.0.0'', ir_published = 10\<rparr>, \<lparr>ir_version = ''1.2.0'', ir_published = 30\<rparr>],
      bs_affected = \<lambda>_ _. Inr [''1.2.0'', ''1.1.0''],
      bs_dependencies = \<lambda>_ v. Inr (if v = ''1.0.0'' then [\<lparr>id_name = ''a'', id_range = ''^1''\<rparr>] else [\<lparr>id_name = ''b'', id_range = ''*''\<rparr>])\<rparr>"

definition sample_introduction :: introduction where
  "sample_introduction = \<lparr>in_package = ''p'', in_first_affected = ''1.1.0'', in_published_at = 20, in_previous = ''1.0.0'',
     in_diff = \<lparr>dd_added = [\<lparr>id_name = ''b'', id_range = ''*''\<rparr>], dd_removed = [\<lparr>id_name = ''a'', id_range = ''^1''\<rparr>], dd_changed = []\<rparr>\<rparr>"

lemma sample_bisected: "bisect sample_bisect ''G'' ''p'' = Inr sample_introduction"
  by (simp add: bisect_def sample_bisect_def sample_introduction_def by_publish_def diff_dependencies_def diff_of_def ranges_by_name_def
      note_after_def note_before_def no_diff_def has_key_def)

theorem bisect_finds_introduction_witness:
  "\<exists>ys r zs. mset (ys @ r # zs) = mset [\<lparr>ir_version = ''1.1.0'', ir_published = 20\<rparr>, \<lparr>ir_version = ''1.0.0'', ir_published = 10\<rparr>, \<lparr>ir_version = ''1.2.0'', ir_published = 30\<rparr>]
     \<and> ir_version r = ''1.1.0'' \<and> list_all (\<lambda>y. ir_published y \<le> ir_published r) ys"
  using bisect_finds_introduction [OF sample_bisected] by (auto simp: sample_bisect_def sample_introduction_def list_all_iff)

subsection \<open>What a difference says\<close>

text \<open>Applying a difference to a map of declarations.\<close>

definition apply_diff :: "dependency_diff \<Rightarrow> (string \<Rightarrow> string option) \<Rightarrow> string \<Rightarrow> string option" where
  "apply_diff d m n =
     (if n \<in> id_name ` set (dd_removed d) then None
      else case map_of (List.map (\<lambda>c. (dc_name c, dc_to c)) (dd_changed d)) n of
          Some r \<Rightarrow> Some r
        | None \<Rightarrow> (case map_of (List.map (\<lambda>a. (id_name a, id_range a)) (dd_added d)) n of Some r \<Rightarrow> Some r | None \<Rightarrow> m n))"

definition declared_ranges :: "inc_dependency list \<Rightarrow> string \<Rightarrow> string option" where
  "declared_ranges ds = map_of (List.map (\<lambda>d. (id_name d, id_range d)) ds)"

lemma ranges_by_name_snoc: "ranges_by_name (ds @ [d]) = put (id_name d) (id_range d) (ranges_by_name ds)"
  by (simp add: ranges_by_name_def)

lemma ranges_by_name_of:
  "distinct (List.map id_name ds) \<Longrightarrow> map_of (ranges_by_name ds) n = declared_ranges ds n"
proof (induction ds rule: rev_induct)
  case Nil
  then show ?case by (simp add: ranges_by_name_def declared_ranges_def)
next
  case (snoc d ds)
  have "map_of (List.map (\<lambda>d. (id_name d, id_range d)) ds) (id_name d) = None"
    using snoc.prems by (auto simp: map_of_eq_None_iff)
  then show ?case using snoc by (auto simp: ranges_by_name_snoc update_conv' declared_ranges_def map_add_def split: option.split)
qed

lemma note_after_fold:
  "dd_added (foldl (note_after m) diff ds) = dd_added diff @ List.filter (\<lambda>d. map_of m (id_name d) = None) ds"
  "dd_removed (foldl (note_after m) diff ds) = dd_removed diff"
  "dd_changed (foldl (note_after m) diff ds) = dd_changed diff @
     List.map_filter (\<lambda>d. case map_of m (id_name d) of Some r \<Rightarrow> if r \<noteq> id_range d then Some \<lparr>dc_name = id_name d, dc_from = r, dc_to = id_range d\<rparr> else None | None \<Rightarrow> None) ds"
  by (induction ds arbitrary: diff) (auto simp: note_after_def split: option.split)

lemma note_before_fold:
  "dd_added (foldl (note_before m) diff ds) = dd_added diff"
  "dd_removed (foldl (note_before m) diff ds) = dd_removed diff @ List.filter (\<lambda>d. \<not> has_key m (id_name d)) ds"
  "dd_changed (foldl (note_before m) diff ds) = dd_changed diff"
  by (induction ds arbitrary: diff) (auto simp: note_before_def)

lemma dependency_eta: "\<lparr>id_name = id_name d, id_range = id_range d\<rparr> = d"
  by (cases d) simp

lemma map_of_declared: "distinct (List.map id_name ds) \<Longrightarrow> declared_ranges ds n = Some r \<longleftrightarrow> \<lparr>id_name = n, id_range = r\<rparr> \<in> set ds"
proof -
  assume d: "distinct (List.map id_name ds)"
  then have "declared_ranges ds n = Some r \<longleftrightarrow> (n, r) \<in> set (List.map (\<lambda>d. (id_name d, id_range d)) ds)"
    unfolding declared_ranges_def by (intro map_of_eq_Some_iff) (simp add: o_def)
  also have "\<dots> \<longleftrightarrow> \<lparr>id_name = n, id_range = r\<rparr> \<in> set ds" by (force simp: dependency_eta)
  finally show ?thesis .
qed

lemma declared_None: "declared_ranges ds n = None \<longleftrightarrow> n \<notin> id_name ` set ds"
  by (simp add: declared_ranges_def map_of_eq_None_iff image_image)

lemma declared_Cons: "declared_ranges (d # ds) n = (if id_name d = n then Some (id_range d) else declared_ranges ds n)"
  by (simp add: declared_ranges_def)

lemma changed_lookup:
  "distinct (List.map id_name ds) \<Longrightarrow>
     map_of (List.map (\<lambda>c. (dc_name c, dc_to c)) (List.map_filter (\<lambda>d. case m (id_name d) of
       Some r \<Rightarrow> if r \<noteq> id_range d then Some \<lparr>dc_name = id_name d, dc_from = r, dc_to = id_range d\<rparr> else None | None \<Rightarrow> None) ds)) n =
     (case declared_ranges ds n of
        None \<Rightarrow> None
      | Some r \<Rightarrow> (case m n of None \<Rightarrow> None | Some r0 \<Rightarrow> if r0 \<noteq> r then Some r else None))"
proof (induction ds)
  case (Cons d ds)
  then have "declared_ranges ds (id_name d) = None" by (simp add: declared_None)
  with Cons show ?case by (auto simp: declared_Cons split: option.split)
qed (simp add: declared_ranges_def)

lemma added_lookup:
  "map_of (List.map (\<lambda>a. (id_name a, id_range a)) (List.filter (\<lambda>d. m (id_name d) = None) ds)) n =
     (if m n = None then declared_ranges ds n else None)"
  by (induction ds) (auto simp: declared_ranges_def)

text \<open>Applied to the older declarations, the difference of two releases gives the newer ones: nothing is
  reported that did not change and nothing that did is left out.\<close>

theorem diff_applies:
  assumes "distinct (List.map id_name older)" "distinct (List.map id_name newer)"
  shows "apply_diff (diff_of older newer) (declared_ranges older) = declared_ranges newer"
proof
  fix n
  have m: "map_of (ranges_by_name older) = declared_ranges older" "map_of (ranges_by_name newer) = declared_ranges newer"
    using ranges_by_name_of assms by blast+
  have removed: "n \<in> id_name ` set (dd_removed (diff_of older newer)) \<longleftrightarrow> declared_ranges older n \<noteq> None \<and> declared_ranges newer n = None"
    using declared_None [of older n] by (auto simp: diff_of_def note_before_fold note_after_fold no_diff_def has_key_def m)
  have changed: "map_of (List.map (\<lambda>c. (dc_name c, dc_to c)) (dd_changed (diff_of older newer))) n =
     (case declared_ranges newer n of
        None \<Rightarrow> None
      | Some r \<Rightarrow> (case declared_ranges older n of None \<Rightarrow> None | Some r0 \<Rightarrow> if r0 \<noteq> r then Some r else None))"
    unfolding diff_of_def note_before_fold note_after_fold no_diff_def m using changed_lookup [OF assms(2)] by simp
  have added: "map_of (List.map (\<lambda>a. (id_name a, id_range a)) (dd_added (diff_of older newer))) n =
     (if declared_ranges older n = None then declared_ranges newer n else None)"
    unfolding diff_of_def note_before_fold note_after_fold no_diff_def m using added_lookup [of "declared_ranges older" newer n] by simp
  show "apply_diff (diff_of older newer) (declared_ranges older) n = declared_ranges newer n"
    unfolding apply_diff_def removed changed added by (auto split: option.split)
qed

theorem diff_applies_witness:
  "apply_diff (diff_of [\<lparr>id_name = ''a'', id_range = ''^1''\<rparr>, \<lparr>id_name = ''b'', id_range = ''^2''\<rparr>] [\<lparr>id_name = ''b'', id_range = ''^3''\<rparr>, \<lparr>id_name = ''c'', id_range = ''*''\<rparr>])
     (declared_ranges [\<lparr>id_name = ''a'', id_range = ''^1''\<rparr>, \<lparr>id_name = ''b'', id_range = ''^2''\<rparr>]) =
   declared_ranges [\<lparr>id_name = ''b'', id_range = ''^3''\<rparr>, \<lparr>id_name = ''c'', id_range = ''*''\<rparr>]"
  by (rule diff_applies) simp_all

subsection \<open>Who is exposed\<close>

definition live_at :: "live_source \<Rightarrow> resolution_window \<Rightarrow> exposure set" where
  "live_at src w = {x. \<exists>l ls. ls_locking src (rw_dependent w) (rw_dependent_version w) = Inr ls \<and> l \<in> set ls \<and>
     rw_from w \<le> la_at l \<and> la_at l < rw_to w \<and>
     x = \<lparr>x_project = la_project l, x_locked_at = la_at l, x_dependent = rw_dependent w @ ''@'' @ rw_dependent_version w, x_from = rw_from w, x_to = rw_to w\<rparr>}"

lemma window_exposures_live:
  assumes "ls_locking src (rw_dependent w) (rw_dependent_version w) = Inr ls"
  shows "set (window_exposures w ls) = live_at src w"
  unfolding live_at_def assms by (auto simp: window_exposures_def set_map_filter not_less not_le split: if_splits)

lemma live_loop_exposures:
  "live_loop src ws out = Inr xs \<Longrightarrow> set xs = set out \<union> (\<Union>w \<in> set ws. live_at src w)"
proof (induction src ws out rule: live_loop.induct)
  case (2 src w ws out)
  then obtain ls where ls: "ls_locking src (rw_dependent w) (rw_dependent_version w) = Inr ls"
    "live_loop src ws (out @ window_exposures w ls) = Inr xs" by (auto split: sum.splits)
  show ?case unfolding "2.IH" [OF ls] set_append window_exposures_live [OF ls(1)] by (simp add: Un_assoc)
qed simp

text \<open>A project is reported exactly with the dependents it locked while their resolution to the compromised
  version was open, the start of the window included and its end not.\<close>

theorem resolved_while_live_exact:
  assumes "resolved_while_live src name ver = Inr xs" "ls_resolvers src name ver = Inr ws"
  shows "set xs = {x. \<exists>w l ls. w \<in> set ws \<and> ls_locking src (rw_dependent w) (rw_dependent_version w) = Inr ls \<and> l \<in> set ls \<and>
       rw_from w \<le> la_at l \<and> la_at l < rw_to w \<and>
       x = \<lparr>x_project = la_project l, x_locked_at = la_at l, x_dependent = rw_dependent w @ ''@'' @ rw_dependent_version w, x_from = rw_from w, x_to = rw_to w\<rparr>}"
proof -
  have "set xs = (\<Union>w \<in> set ws. live_at src w)"
    using live_loop_exposures [of src ws "[]" xs] assms by (simp add: resolved_while_live_def)
  then show ?thesis by (simp only: live_at_def UNION_eq mem_Collect_eq Bex_def) blast
qed

definition sample_live :: live_source where
  "sample_live =
     \<lparr>ls_resolvers = \<lambda>n v. Inr (if n = ''bad'' then [\<lparr>rw_dependent = ''lib'', rw_dependent_version = ''2'', rw_from = 5, rw_to = 9\<rparr>] else []),
      ls_locking = \<lambda>n v. Inr (if n = ''lib'' then [\<lparr>la_project = ''app'', la_at = 5\<rparr>, \<lparr>la_project = ''late'', la_at = 9\<rparr>]
        else if n = ''top'' then [\<lparr>la_project = ''direct'', la_at = 7\<rparr>] else [])\<rparr>"

theorem resolved_while_live_exact_witness:
  "\<exists>xs. resolved_while_live sample_live ''bad'' ''1'' = Inr xs \<and>
     (\<lparr>x_project = ''app'', x_locked_at = 5, x_dependent = ''lib@2'', x_from = 5, x_to = 9\<rparr> \<in> set xs)"
proof -
  obtain xs where xs: "resolved_while_live sample_live ''bad'' ''1'' = Inr xs"
    by (simp add: resolved_while_live_def sample_live_def)
  have "ls_resolvers sample_live ''bad'' ''1'' = Inr [\<lparr>rw_dependent = ''lib'', rw_dependent_version = ''2'', rw_from = 5, rw_to = 9\<rparr>]"
    by (simp add: sample_live_def)
  from resolved_while_live_exact [OF xs this] xs show ?thesis by (auto simp: sample_live_def)
qed

text \<open>A project that locked the compromised version itself, of a package no recorded release depends on, is
  not reported: its own lock is never read.\<close>

theorem direct_lock_not_reported:
  "ls_locking sample_live ''top'' ''1'' = Inr [\<lparr>la_project = ''direct'', la_at = 7\<rparr>] \<and> resolved_while_live sample_live ''top'' ''1'' = Inr []"
  by (simp add: resolved_while_live_def sample_live_def)

lemma exposed_loop_set:
  "exposed_loop src query years w now target ps out = Inr res \<Longrightarrow>
     set res = set out \<union> {p \<in> set ps. \<exists>pins a. es_pins src (rp_name p) = Inr pins \<and> pins \<noteq> [] \<and>
       audit query years w now (rp_name p) [] (List.map pin_pair pins) (exposure_options (rp_locked_at p)) = Inr a \<and> audit_reaches a target}"
proof (induction src query years w now target ps out rule: exposed_loop.induct)
  case (2 src query years w now target p ps out)
  from "2.prems" obtain pins where pins: "es_pins src (rp_name p) = Inr pins" by (auto split: sum.splits)
  show ?case
  proof (cases "pins = []")
    case True
    with pins "2.prems" "2.IH"(1) [OF pins True] show ?thesis by auto
  next
    case False
    then obtain a where a: "audit query years w now (rp_name p) [] (List.map pin_pair pins) (exposure_options (rp_locked_at p)) = Inr a"
      "exposed_loop src query years w now target ps (if audit_reaches a target then out @ [p] else out) = Inr res"
      using pins "2.prems" by (auto split: sum.splits)
    from "2.IH"(2) [OF pins False a] have "set res = set (if audit_reaches a target then out @ [p] else out) \<union> {p \<in> set ps. \<exists>pins a. es_pins src (rp_name p) = Inr pins \<and> pins \<noteq> [] \<and>
       audit query years w now (rp_name p) [] (List.map pin_pair pins) (exposure_options (rp_locked_at p)) = Inr a \<and> audit_reaches a target}" .
    with pins False a(1) show ?thesis by (cases "audit_reaches a target") auto
  qed
qed simp

lemma coexist_within: "coexist blocked E srcs w t n v \<Longrightarrow> t \<in> instants w"
  by (induction rule: coexist.induct) auto

lemma exposure_defaults: "with_defaults (exposure_options t) = \<lparr>owithin = at_instant t, max_depth = 12\<rparr>"
  by (simp add: with_defaults_def exposure_options_def at_instant_def)

lemma coexist_no_sources [simp]: "\<not> coexist B G [] W t n v"
  by (induction n arbitrary: v) (auto elim: coexist_zeroE coexist_SucE)

text \<open>What the coexistence answer of an audit reaches, and the holders it lists.\<close>

lemma audit_reached_iff:
  assumes "edge_source (graph_out query ''RESOLVES_TO'' ''outgoing'') G" "audit query years w now project format pins opts = Inr a"
  shows "audit_reaches a target \<longleftrightarrow> (\<exists>srcs t n. known_versions query pins = Inr srcs
    \<and> n \<le> nat (max_depth (with_defaults opts)) \<and> coexist {} G srcs (owithin (with_defaults opts)) t n target)"
proof -
  obtain srcs where srcs: "known_versions query pins = Inr srcs" using assms(2) by (auto simp: audit_def Let_def split: sum.splits)
  show ?thesis
  proof (cases "srcs = []")
    case True
    then show ?thesis using coexist_no_sources srcs assms(2) by (auto simp: audit_def Let_def audit_reaches_def)
  next
    case False
    then obtain r seen where r: "reach (graph_out query ''RESOLVES_TO'' ''outgoing'') srcs opts = Inr (r, seen)"
      "a_reach a = Some r" using assms(2) srcs by (auto simp: audit_def Let_def split: sum.splits prod.splits)
    note R = edge_source.reach_correct [OF assms(1) r(1)]
    have "audit_reaches a target \<longleftrightarrow> reach_span (coexistence r) target \<noteq> {}"
      using reach_ok_keys [OF R(1), of target] by (simp add: audit_reaches_def r(2) has_key_iff)
    also have "\<dots> \<longleftrightarrow> (\<exists>t n. n \<le> nat (max_depth (with_defaults opts)) \<and> coexist {} G srcs (owithin (with_defaults opts)) t n target)"
      using R(2) [of _ target] by blast
    finally show ?thesis using srcs by auto
  qed
qed

lemma audit_reaches_iff:
  assumes "edge_source (graph_out query ''RESOLVES_TO'' ''outgoing'') G"
    "audit query years w now project format pins (exposure_options t) = Inr a"
  shows "audit_reaches a target \<longleftrightarrow> (\<exists>srcs n. known_versions query pins = Inr srcs \<and> n \<le> 12 \<and> coexist {} G srcs (at_instant t) t n target)"
proof -
  have "t' = t" if "coexist {} G srcs (at_instant t) t' n target" for srcs n t'
    using coexist_within [OF that] by (simp add: at_instant_def instants_def)
  then have at: "coexist {} G srcs (at_instant t) t n target" if "coexist {} G srcs (at_instant t) t' n target" for srcs n t'
    using that by metis
  show ?thesis unfolding audit_reached_iff [OF assms] exposure_defaults by (auto dest: at)
qed

lemma audit_holders_iff:
  assumes "edge_source (graph_out query ''RESOLVES_TO'' ''outgoing'') G" "maintainers query hops"
    "audit query years w now project format pins opts = Inr a"
  shows "h \<in> k_handle ` set (a_keyholders a) \<longleftrightarrow> (\<exists>p hop t v srcs n. p \<noteq> [] \<and> npm_package_urn p \<and> hop \<in> set (hops p)
    \<and> eto (key_edge hop) = h \<and> t \<in> instants (evalid (key_edge hop)) \<and> package_urn_of v = p
    \<and> known_versions query pins = Inr srcs \<and> n \<le> nat (max_depth (with_defaults opts))
    \<and> coexist {} G srcs (owithin (with_defaults opts)) t n v)"
proof -
  obtain srcs where srcs: "known_versions query pins = Inr srcs" using assms(3) by (auto simp: audit_def Let_def split: sum.splits)
  show ?thesis
  proof (cases "srcs = []")
    case True
    then show ?thesis using coexist_no_sources srcs assms(3) by (auto simp: audit_def Let_def)
  next
    case False
    then obtain r seen ks ros where r: "reach (graph_out query ''RESOLVES_TO'' ''outgoing'') srcs opts = Inr (r, seen)"
      "keyholders query r = Inr (ks, ros)" "set (a_keyholders a) = set ks"
      using assms(3) srcs by (auto simp: audit_def Let_def ranked_def split: sum.splits prod.splits)
    have K: "(\<exists>k p t. k \<in> set ks \<and> k_handle k = h \<and> t \<in> span (getd [] (k_through k) p)) \<longleftrightarrow>
        (\<exists>p t. \<exists>k \<in> set ks. k_handle k = h \<and> t \<in> span (getd [] (k_through k) p))" by blast
    show ?thesis
      unfolding r(3) keyholders_shape(4) [OF r(2), of h] K conjunct1 [OF keyholders_hold_keys [OF assms(2,1) r(1,2)]] srcs sum.inject
      by blast
  qed
qed

text \<open>C27: the projects reported as exposed are the recorded ones with pins from whose known versions a walk of at
  most twelve resolutions, all of them open at the instant of the lockfile, leads to the compromised version.\<close>

theorem exposed_projects_exact:
  assumes "edge_source (graph_out query ''RESOLVES_TO'' ''outgoing'') G"
    "transitively_exposed src query years w now name ver = Inr res" "es_projects src = Inr ps"
  shows "set res = {p \<in> set ps. \<exists>pins srcs n. es_pins src (rp_name p) = Inr pins \<and> pins \<noteq> [] \<and>
    known_versions query (List.map pin_pair pins) = Inr srcs \<and> n \<le> 12 \<and>
    coexist {} G srcs (at_instant (rp_locked_at p)) (rp_locked_at p) n (version_urn ''npm'' name ver)}"
proof -
  have loop: "exposed_loop src query years w now (version_urn ''npm'' name ver) ps [] = Inr res"
    using assms(2,3) by (simp add: transitively_exposed_def)
  have returns: "\<exists>a. audit query years w now (rp_name p) [] (List.map pin_pair pins) (exposure_options (rp_locked_at p)) = Inr a"
    if "p \<in> set qs" "es_pins src (rp_name p) = Inr pins" "pins \<noteq> []" "exposed_loop src query years w now target qs out = Inr res"
    for p pins qs out target
    using that by (induction qs arbitrary: out) (auto split: sum.splits if_splits)
  show ?thesis
    unfolding exposed_loop_set [OF loop]
    using audit_reaches_iff [OF assms(1)] returns [OF _ _ _ loop] by fastforce
qed


text \<open>A project whose lockfile pins a, read at an instant at which a resolves to b: both are in the table of hops.\<close>

abbreviation hop_db :: query_fun where
  "hop_db \<equiv> table_query npm_urn two_hops"

definition sample_exposure :: exposure_source where
  "sample_exposure =
     \<lparr>es_projects = Inr [\<lparr>rp_name = ''app'', rp_locked_at = 6\<rparr>, \<lparr>rp_name = ''early'', rp_locked_at = 4\<rparr>],
      es_pins = \<lambda>_. Inr [\<lparr>pin_name = ''a'', pin_version = ''1.0.0'', pin_direct = True, pin_dev = False\<rparr>]\<rparr>"

lemma known_one_pin:
  assumes "query (known_stmt [''pkg:npm/a@1.0.0'']) = Inr [hop_record (urn_props ''pkg:npm/a@1.0.0'', b, r)]"
  shows "known_versions query [(''a'', ''1.0.0'')] = Inr [\<lparr>eurn = ''pkg:npm/a@1.0.0'', espan = always\<rparr>]"
proof -
  have wanted: "wanted_urns [(''a'', ''1.0.0'')] = [''pkg:npm/a@1.0.0'']"
    using npm_urn_a by (simp add: wanted_urns_def version_urn_def)
  show ?thesis
    using assms
    by (simp add: known_versions_def wanted known_loop.simps [of _ "[_]"] source_chunk_def Let_def note_version_def
        hop_record_def string_prop_def int_prop_def getd_def as_str_def as_int_def del: known_loop.simps)
       (simp add: known_loop.simps)
qed

lemma hop_db_known:
  "known_versions hop_db [(''a'', ''1.0.0'')] = Inr [\<lparr>eurn = ''pkg:npm/a@1.0.0'', espan = always\<rparr>]"
proof (rule known_one_pin)
  have "List.filter npm_urn (split_str (known_stmt [''pkg:npm/a@1.0.0'']) [CHR 0x27]) = [''pkg:npm/a@1.0.0'']"
    unfolding known_stmt_def by (rule statement_values [OF _ _ npm_urn_chars _ _ _ npm_urn_no]) (use npm_urn_a in auto)
  moreover have "take result_limit [x] = [x]" for x :: grecord by (simp add: result_limit_def)
  ultimately show "hop_db (known_stmt [''pkg:npm/a@1.0.0'']) =
      Inr [hop_record (urn_props ''pkg:npm/a@1.0.0'', urn_props ''pkg:npm/@s/b@2.0.0'', window_props 5 9)]"
    by (simp add: table_query_def hops_of_a)
qed

lemma hop_db_edge:
  "\<lparr>efrom = ''pkg:npm/a@1.0.0'', eto = ''pkg:npm/@s/b@2.0.0'', evalid = iv 5 9\<rparr> \<in> mspaths.reachable_edges (table_hops two_hops)"
proof -
  let ?h = "(urn_props ''pkg:npm/a@1.0.0'', urn_props ''pkg:npm/@s/b@2.0.0'', window_props 5 9)"
  have h: "?h \<in> set (table_hops two_hops ''pkg:npm/a@1.0.0'')" unfolding hops_of_a by (rule list.set_intros(1))
  have e: "hop_edge ?h = \<lparr>efrom = ''pkg:npm/a@1.0.0'', eto = ''pkg:npm/@s/b@2.0.0'', evalid = iv 5 9\<rparr>"
    by (simp add: hop_edge_def string_prop_def getd_def as_str_def interval_of_def int_prop_def as_int_def)
  show ?thesis unfolding table.reachable_edges_def e [symmetric]
    by (rule CollectI, rule exI, rule exI, intro conjI) (rule refl, rule h, rule npm_urn_a)
qed

lemma exposed_loop_returns:
  assumes "answering query" and pins: "\<And>p. \<exists>x. es_pins src p = Inr x"
  shows "\<exists>res. exposed_loop src query years w now target ps out = Inr res"
proof (induction ps arbitrary: out)
  case (Cons p ps)
  obtain pins where "es_pins src (rp_name p) = Inr pins" using pins by blast
  moreover obtain a where "audit query years w now (rp_name p) [] (List.map pin_pair pins) (exposure_options (rp_locked_at p)) = Inr a"
    using audit_total [OF assms(1)] by blast
  ultimately show ?case using Cons.IH by (cases "pins = []") simp_all
qed simp

theorem exposed_projects_exact_witness:
  "\<exists>res. transitively_exposed sample_exposure hop_db (\<lambda>_. []) default_weights 0 ''@s/b'' ''2.0.0'' = Inr res
     \<and> \<lparr>rp_name = ''app'', rp_locked_at = 6\<rparr> \<in> set res \<and> set res \<subseteq> {\<lparr>rp_name = ''app'', rp_locked_at = 6\<rparr>, \<lparr>rp_name = ''early'', rp_locked_at = 4\<rparr>}"
proof -
  let ?G = "mspaths.reachable_edges (table_hops two_hops)"
  have pins: "\<And>p. es_pins sample_exposure p = Inr [\<lparr>pin_name = ''a'', pin_version = ''1.0.0'', pin_direct = True, pin_dev = False\<rparr>]"
    and ps: "es_projects sample_exposure = Inr [\<lparr>rp_name = ''app'', rp_locked_at = 6\<rparr>, \<lparr>rp_name = ''early'', rp_locked_at = 4\<rparr>]"
    by (simp_all add: sample_exposure_def)
  have "\<exists>res. transitively_exposed sample_exposure hop_db (\<lambda>_. []) default_weights 0 ''@s/b'' ''2.0.0'' = Inr res"
  proof -
    have "\<exists>x. es_pins sample_exposure p = Inr x" for p unfolding pins by blast
    from exposed_loop_returns [OF answering_table this]
    show ?thesis
      unfolding transitively_exposed_def ps sum.case by blast
  qed
  then obtain res where res: "transitively_exposed sample_exposure hop_db (\<lambda>_. []) default_weights 0 ''@s/b'' ''2.0.0'' = Inr res" ..
  let ?s = "\<lparr>eurn = ''pkg:npm/a@1.0.0'', espan = always\<rparr>"
  have t: "6 \<in> instants always" "6 \<in> instants (at_instant 6)" "6 \<in> instants (iv 5 9)"
    by (simp_all add: always_def at_instant_def open_interval_def instants_def)
  have "coexist {} ?G [?s] (at_instant 6) 6 0 ''pkg:npm/a@1.0.0''"
    using coexist.source [of ?s "[?s]" "{}" 6 "at_instant 6" ?G] t by simp
  then have "coexist {} ?G [?s] (at_instant 6) 6 (Suc 0) ''pkg:npm/@s/b@2.0.0''"
    using coexist.step [OF _ hop_db_edge, of "{}" "[?s]" "at_instant 6" 6 0] t by simp
  then have walk: "\<exists>n \<le> 12. coexist {} ?G [\<lparr>eurn = ''pkg:npm/a@1.0.0'', espan = always\<rparr>] (at_instant 6) 6 n (version_urn ''npm'' ''@s/b'' ''2.0.0'')"
    by (intro exI [of _ "Suc 0"]) (simp add: version_urn_def)
  show ?thesis
  proof (intro exI [of _ res] conjI)
    note exact = exposed_projects_exact [OF table.edge_source_axioms res ps]
    show "set res \<subseteq> {\<lparr>rp_name = ''app'', rp_locked_at = 6\<rparr>, \<lparr>rp_name = ''early'', rp_locked_at = 4\<rparr>}"
      unfolding exact by auto
    have known: "known_versions hop_db (List.map pin_pair [\<lparr>pin_name = ''a'', pin_version = ''1.0.0'', pin_direct = True, pin_dev = False\<rparr>])
      = Inr [\<lparr>eurn = ''pkg:npm/a@1.0.0'', espan = always\<rparr>]"
      using hop_db_known by (simp add: pin_pair_def)
    show "\<lparr>rp_name = ''app'', rp_locked_at = 6\<rparr> \<in> set res"
      unfolding exact pins using walk known by simp
  qed (rule res)
qed

end
