(* ===== verification/Who.thy ===== *)
theory Who
  imports Risk GoQuote
begin

text \<open>
  What one account reaches: \<open>internal/query/who.go\<close>. From the packages an account can publish to, with the spans it
  held them over, the search runs backwards along the resolutions to the packages that depend on them. The two readers
  are stated against what the path procedure answers; the search is that of \<open>Reach\<close> in the other direction.
\<close>

record held =
  hd_package :: string
  hd_spans :: iset
  hd_versions :: nat

text \<open>The result of the search is absent when nothing was searched.\<close>

record who_result =
  wh_handle :: string
  wh_holds :: "held list"
  wh_reach :: "reach_result option"
  wh_dependents :: "string list"
  wh_union_dependents :: nat

definition npm_handle :: "string \<Rightarrow> bool" where
  "npm_handle s \<longleftrightarrow> s \<noteq> [] \<and> list_all scope_char s"

subsection \<open>What the account holds\<close>

definition holdings_stmt :: "string \<Rightarrow> string" where
  "holdings_stmt urn = mspaths_stmt ''Maintainer'' ''MAINTAINS'' ''outgoing'' result_limit [urn]"

definition note_holding :: "(string, iset) gomap \<Rightarrow> grecord \<Rightarrow> (string, iset) gomap" where
  "note_holding spans rec =
     (case map_of rec ''path'' of
        Some (Path [m, p] [r]) \<Rightarrow>
          (let pkg = string_prop p ''urn'' in
           if pkg = [] then spans else put pkg (fst (insert_iv (getd [] spans pkg) (interval_of r))) spans)
      | _ \<Rightarrow> spans)"

definition holdings :: "query_fun \<Rightarrow> string \<Rightarrow> held list res" where
  "holdings query handle =
     (case query (holdings_stmt (maintainer_urn ''npm'' handle)) of
        Inl e \<Rightarrow> Inl (Wrap (''read what '' @ handle @ '' maintains'') e)
      | Inr recs \<Rightarrow> Inr (sort_slice (\<lambda>x y. hd_package x < hd_package y)
          (List.map (\<lambda>(pkg, s). \<lparr>hd_package = pkg, hd_spans = s, hd_versions = 0\<rparr>) (foldl note_holding [] recs))))"

subsection \<open>Their versions\<close>

type_synonym package_versions = "(string, version_attrs list) gomap"

definition package_versions_stmt :: "string list \<Rightarrow> string" where
  "package_versions_stmt packages = mspaths_stmt ''Package'' ''HAS_VERSION'' ''outgoing'' result_limit packages"

definition note_package_version :: "package_versions \<Rightarrow> grecord \<Rightarrow> package_versions" where
  "note_package_version m rec =
     (case map_of rec ''path'' of
        Some (Path [p, v] rels) \<Rightarrow>
          (let pkg = string_prop p ''urn''; attrs = version_attrs_of v in
           if pkg = [] \<or> va_urn attrs = [] then m else put pkg (getd [] m pkg @ [attrs]) m)
      | _ \<Rightarrow> m)"

definition join_versions :: "package_versions \<Rightarrow> package_versions \<Rightarrow> package_versions" where
  "join_versions left right = foldl (\<lambda>m (pkg, vs). put pkg (getd [] m pkg @ vs) m) left right"

function read_versions :: "query_fun \<Rightarrow> string list \<Rightarrow> package_versions res" where
  "read_versions query packages =
     (case query (package_versions_stmt packages) of
        Inl e \<Rightarrow> Inl (Wrap (''read versions of '' @ utoa (length packages) @ '' packages'') e)
      | Inr recs \<Rightarrow>
          if length recs \<ge> result_limit \<and> length packages > 1 then
            (let half = length packages div 2 in
             case read_versions query (take half packages) of
               Inl e \<Rightarrow> Inl e
             | Inr left \<Rightarrow>
                 (case read_versions query (drop half packages) of
                    Inl e \<Rightarrow> Inl e
                  | Inr right \<Rightarrow> Inr (join_versions left right)))
          else Inr (foldl note_package_version [] recs))"
  by pat_completeness auto
termination
  by (relation "measure (\<lambda>(_, ps). length ps)") auto

declare read_versions.simps [simp del]

text \<open>The entries one version gives: one for each spell it existed in within the window asked about.\<close>

definition existed :: "version_attrs \<Rightarrow> interval" where
  "existed v = (if va_published_at v \<le> 0 then always else \<lparr>ifrom = va_published_at v, ito = open_interval\<rparr>)"

definition live_entries :: "interval \<Rightarrow> iset \<Rightarrow> version_attrs \<Rightarrow> entry list" where
  "live_entries within_iv spells v =
     List.map_filter (\<lambda>spell. let live = intersect (intersect (existed v) spell) within_iv in
       if iv_empty live then None else Some \<lparr>eurn = va_urn v, espan = live\<rparr>) spells"

definition seed_package :: "(string, iset) gomap \<Rightarrow> interval \<Rightarrow> entry list \<times> (string, nat) gomap \<Rightarrow> string \<times> version_attrs list
    \<Rightarrow> entry list \<times> (string, nat) gomap" where
  "seed_package spans within_iv st pv =
     (fst st @ concat (List.map (live_entries within_iv (getd [] spans (fst pv))) (snd pv)),
      put (fst pv) (getd 0 (snd st) (fst pv) + length (snd pv)) (snd st))"

function seed_loop :: "query_fun \<Rightarrow> (string, iset) gomap \<Rightarrow> interval \<Rightarrow> string list \<Rightarrow> entry list \<times> (string, nat) gomap
    \<Rightarrow> (entry list \<times> (string, nat) gomap) res" where
  "seed_loop query spans within_iv valid st =
     (if valid = [] then Inr st
      else case read_versions query (take source_chunk valid) of
          Inl e \<Rightarrow> Inl e
        | Inr got \<Rightarrow> seed_loop query spans within_iv (drop source_chunk valid) (foldl (seed_package spans within_iv) st got))"
  by pat_completeness auto
termination
  by (relation "measure (\<lambda>(_, _, _, vs, _). length vs)") (auto simp: source_chunk_def)

declare seed_loop.simps [simp del]

definition entry_before :: "entry \<Rightarrow> entry \<Rightarrow> bool" where
  "entry_before x y = (if eurn x \<noteq> eurn y then eurn x < eurn y else ifrom (espan x) < ifrom (espan y))"

definition versions_held :: "query_fun \<Rightarrow> string list \<Rightarrow> (string, iset) gomap \<Rightarrow> interval \<Rightarrow> (entry list \<times> (string, nat) gomap) res" where
  "versions_held query packages spans within_iv =
     (case seed_loop query spans within_iv (List.filter npm_package_urn packages) ([], []) of
        Inl e \<Rightarrow> Inl e
      | Inr (srcs, counts) \<Rightarrow> Inr (sort_slice entry_before srcs, counts))"

subsection \<open>Who\<close>

definition other_packages :: "string list \<Rightarrow> string list \<Rightarrow> string list" where
  "other_packages own urns = List.filter (\<lambda>p. p \<notin> set own) (packages_of urns)"

definition who_is :: "query_fun \<Rightarrow> string \<Rightarrow> options \<Rightarrow> who_result res" where
  "who_is query handle opts =
     (if \<not> npm_handle handle then Inl (Msg (''not an npm handle: '' @ go_quote handle))
      else case holdings query handle of
          Inl e \<Rightarrow> Inl e
        | Inr held \<Rightarrow>
            (let out = \<lparr>wh_handle = handle, wh_holds = held, wh_reach = None, wh_dependents = [], wh_union_dependents = 0\<rparr>;
                 packages = List.map hd_package held;
                 spans = foldl (\<lambda>m h. put (hd_package h) (hd_spans h) m) [] held in
             if held = [] then Inr out
             else case versions_held query packages spans (owithin opts) of
                 Inl e \<Rightarrow> Inl e
               | Inr (srcs, counts) \<Rightarrow>
                   (let out1 = out\<lparr>wh_holds := List.map (\<lambda>h. h\<lparr>hd_versions := getd 0 counts (hd_package h)\<rparr>) held\<rparr> in
                    if srcs = [] then Inr out1
                    else case reach (graph_out query ''RESOLVES_TO'' ''incoming'') srcs opts of
                        Inl e \<Rightarrow> Inl e
                      | Inr (r, seen) \<Rightarrow>
                          Inr (out1\<lparr>wh_reach := Some r,
                            wh_dependents := sort_strings (other_packages packages (keys (coexistence r))),
                            wh_union_dependents := length (other_packages packages (union_set r))\<rparr>))))"


subsection \<open>What the readers return\<close>

text \<open>A single-hop reader: a statement for several sources, whose answer is complete when it is not cut off.\<close>

locale hop_reader =
  fixes query :: query_fun and stmt :: "string list \<Rightarrow> string" and P :: "string \<Rightarrow> bool" and hops :: "string \<Rightarrow> hop list"
  assumes answer: "vs \<noteq> [] \<Longrightarrow> list_all P vs \<Longrightarrow> query (stmt vs) = Inr recs \<Longrightarrow> length recs < result_limit \<or> length vs = 1 \<Longrightarrow>
      \<exists>hs. recs = List.map hop_record hs \<and> set hs = (\<Union>v \<in> set vs. set (hops v))"
    and leaves: "(a, b, r) \<in> set (hops v) \<Longrightarrow> string_prop a ''urn'' = v"

locale version_reader = hop_reader query package_versions_stmt npm_package_urn hops for query hops

definition hop_to :: "hop \<Rightarrow> props" where
  "hop_to h = fst (snd h)"

definition holding_spans :: "hop list \<Rightarrow> (string, iset) gomap" where
  "holding_spans hs = foldl note_holding [] (List.map hop_record hs)"

lemma note_holding_hop:
  "note_holding m (hop_record h) =
     (let pkg = string_prop (hop_to h) ''urn'' in
      if pkg = [] then m else put pkg (fst (insert_iv (getd [] m pkg) (interval_of (snd (snd h))))) m)"
  by (cases h) (auto simp: note_holding_def hop_record_def hop_to_def Let_def)

definition good_holdings :: "(string, iset) gomap \<Rightarrow> bool" where
  "good_holdings m \<longleftrightarrow> (\<forall>q. wf_set (getd [] m q)) \<and> distinct (keys m) \<and> [] \<notin> set (keys m)"

lemma holding_fold:
  "good_holdings m \<Longrightarrow>
     good_holdings (foldl note_holding m (List.map hop_record hs))
     \<and> set (keys (foldl note_holding m (List.map hop_record hs))) =
         set (keys m) \<union> {q. q \<noteq> [] \<and> (\<exists>h \<in> set hs. string_prop (hop_to h) ''urn'' = q)}
     \<and> (\<forall>q. span (getd [] (foldl note_holding m (List.map hop_record hs)) q) = span (getd [] m q) \<union>
          {t. q \<noteq> [] \<and> (\<exists>h \<in> set hs. string_prop (hop_to h) ''urn'' = q \<and> t \<in> instants (interval_of (snd (snd h))))})"
proof (induction hs arbitrary: m)
  case (Cons h hs)
  let ?m = "note_holding m (hop_record h)"
  have m: "good_holdings ?m"
    using Cons.prems wf_insert_iv by (auto simp: good_holdings_def note_holding_hop Let_def distinct_keys_put)
  have k: "set (keys ?m) = set (keys m) \<union> {q. q \<noteq> [] \<and> string_prop (hop_to h) ''urn'' = q}"
    by (auto simp: note_holding_hop Let_def)
  have wf: "wf_set (getd [] m q)" for q using Cons.prems by (simp add: good_holdings_def)
  have s: "span (getd [] ?m q) = span (getd [] m q) \<union>
      {t. q \<noteq> [] \<and> string_prop (hop_to h) ''urn'' = q \<and> t \<in> instants (interval_of (snd (snd h)))}" for q
    using span_insert_iv [OF wf, of q "interval_of (snd (snd h))"] by (auto simp: note_holding_hop Let_def)
  show ?case using Cons.IH [OF m] k s by (intro conjI allI) auto
qed simp

lemma note_package_version_hop:
  "note_package_version m (hop_record h) =
     (let pkg = string_prop (fst h) ''urn''; attrs = version_attrs_of (hop_to h) in
      if pkg = [] \<or> va_urn attrs = [] then m else put pkg (getd [] m pkg @ [attrs]) m)"
  by (cases h) (auto simp: note_package_version_def hop_record_def hop_to_def Let_def)

lemma package_version_fold:
  "distinct (keys m) \<Longrightarrow>
     distinct (keys (foldl note_package_version m (List.map hop_record hs)))
     \<and> (\<forall>q. set (getd [] (foldl note_package_version m (List.map hop_record hs)) q) = set (getd [] m q) \<union>
          {a. q \<noteq> [] \<and> va_urn a \<noteq> [] \<and> (\<exists>h \<in> set hs. string_prop (fst h) ''urn'' = q \<and> a = version_attrs_of (hop_to h))})"
proof (induction hs arbitrary: m)
  case (Cons h hs)
  let ?m = "note_package_version m (hop_record h)"
  have m: "distinct (keys ?m)" using Cons.prems by (simp add: note_package_version_hop Let_def distinct_keys_put)
  have s: "set (getd [] ?m q) = set (getd [] m q) \<union> {a. q \<noteq> [] \<and> va_urn a \<noteq> [] \<and>
      string_prop (fst h) ''urn'' = q \<and> a = version_attrs_of (hop_to h)}" for q
    by (auto simp: note_package_version_hop Let_def)
  show ?case using Cons.IH [OF m] s by (intro conjI allI) auto
qed simp

lemma join_versions_set:
  "distinct (keys left) \<Longrightarrow> distinct (keys right) \<Longrightarrow>
     distinct (keys (join_versions left right))
     \<and> (\<forall>q. set (getd [] (join_versions left right) q) = set (getd [] left q) \<union> set (getd [] right q))"
  unfolding join_versions_def
proof (induction right arbitrary: left)
  case (Cons pv right)
  obtain p vs where pv: "pv = (p, vs)" by (cases pv)
  let ?l = "put p (getd [] left p @ vs) left"
  have l: "distinct (keys ?l)" "distinct (keys right)" "p \<notin> set (keys right)"
    using Cons.prems distinct_keys_put [of left] by (simp, simp add: keys_def pv, simp add: keys_def pv)
  have "getd [] right p = []" using getd_notin [OF l(3)] .
  moreover have "getd [] (pv # right) q = (if q = p then vs else getd [] right q)" for q by (simp add: pv getd_def)
  ultimately show ?case using Cons.IH [OF l(1,2)] by (auto simp: pv)
qed simp

context version_reader
begin

lemma read_versions_set:
  "packages \<noteq> [] \<Longrightarrow> list_all npm_package_urn packages \<Longrightarrow> read_versions query packages = Inr got \<Longrightarrow>
     distinct (keys got) \<and> (\<forall>q. set (getd [] got q) =
       {a. q \<in> set packages \<and> va_urn a \<noteq> [] \<and> (\<exists>h \<in> set (hops q). a = version_attrs_of (hop_to h))})"
proof (induction "length packages" arbitrary: packages got rule: less_induct)
  case less
  obtain recs where recs: "query (package_versions_stmt packages) = Inr recs"
    using less.prems by (auto simp: read_versions.simps [of _ packages] split: sum.splits)
  show ?case
  proof (cases "length recs \<ge> result_limit \<and> length packages > 1")
    case True
    let ?l = "take (length packages div 2) packages" and ?r = "drop (length packages div 2) packages"
    obtain left right where lr: "read_versions query ?l = Inr left" "read_versions query ?r = Inr right" "got = join_versions left right"
      using less.prems(3) recs True by (auto simp: read_versions.simps [of _ packages] Let_def split: sum.splits)
    have all: "list_all npm_package_urn ?l" "list_all npm_package_urn ?r"
      using less.prems(2) by (auto simp: list_all_iff dest: in_set_takeD in_set_dropD)
    have len: "length ?l < length packages" "length ?r < length packages" "?l \<noteq> []" "?r \<noteq> []" using True by auto
    have "set packages = set ?l \<union> set ?r" by (metis append_take_drop_id set_append)
    moreover note less.hyps [OF len(1,3) all(1) lr(1)] less.hyps [OF len(2,4) all(2) lr(2)]
    ultimately show ?thesis using join_versions_set [of left right] unfolding lr(3) by auto
  next
    case False
    moreover have "length packages \<noteq> 0" using less.prems(1) by simp
    ultimately have "length recs < result_limit \<or> length packages = 1" by linarith
    then obtain hs where hs: "recs = List.map hop_record hs" "set hs = (\<Union>u \<in> set packages. set (hops u))"
      using answer [OF less.prems(1,2) recs] by blast
    have got: "got = foldl note_package_version [] (List.map hop_record hs)"
      using less.prems(3) recs False hs(1) by (auto simp: read_versions.simps [of _ packages] split: if_splits)
    have from_q: "string_prop (fst h) ''urn'' = q" if "h \<in> set (hops q)" for h q
      using leaves [of "fst h" "fst (snd h)" "snd (snd h)" q] that by simp
    have "[] \<notin> set packages" using less.prems(2) by (auto simp: list_all_iff npm_package_urn_def has_prefix_iff)
    then show ?thesis
      using package_version_fold [of "[]" hs, folded got] from_q hs(2) by auto
  qed
qed

end


subsection \<open>The sources of the search\<close>

definition seeded :: "entry list \<Rightarrow> string \<Rightarrow> int \<Rightarrow> bool" where
  "seeded es u t \<longleftrightarrow> (\<exists>e \<in> set es. eurn e = u \<and> t \<in> instants (espan e))"

lemma seeded_simps [simp]:
  "\<not> seeded [] u t" "seeded (xs @ ys) u t \<longleftrightarrow> seeded xs u t \<or> seeded ys u t"
  "seeded (concat ess) u t \<longleftrightarrow> (\<exists>es \<in> set ess. seeded es u t)"
  by (auto simp: seeded_def)

lemma seeded_live_entries:
  "seeded (live_entries W spells v) u t \<longleftrightarrow> u = va_urn v \<and> t \<in> instants (existed v) \<and> t \<in> span spells \<and> t \<in> instants W"
proof -
  have "seeded (live_entries W spells v) u t \<longleftrightarrow> (\<exists>s \<in> set spells. \<not> iv_empty (intersect (intersect (existed v) s) W) \<and> u = va_urn v
      \<and> t \<in> instants (intersect (intersect (existed v) s) W))"
    unfolding seeded_def live_entries_def set_map_filter Let_def by (auto split: if_splits)
  also have "\<dots> \<longleftrightarrow> u = va_urn v \<and> t \<in> instants (existed v) \<and> t \<in> span spells \<and> t \<in> instants W"
    by (simp add: span_def flip: instants_empty_iff) blast
  finally show ?thesis .
qed

lemma seed_packages:
  "seeded (fst (foldl (seed_package spans W) st got)) u t \<longleftrightarrow> seeded (fst st) u t \<or>
     (\<exists>(q, vs) \<in> set got. \<exists>a \<in> set vs. va_urn a = u \<and> t \<in> instants (existed a) \<and> t \<in> span (getd [] spans q) \<and> t \<in> instants W)"
  by (induction got arbitrary: st) (auto simp: seed_package_def seeded_live_entries)

lemma va_urn_of: "va_urn (version_attrs_of ps) = string_prop ps ''urn''"
  by (simp add: version_attrs_of_def)

definition version_at :: "(string \<Rightarrow> hop list) \<Rightarrow> string \<Rightarrow> string \<Rightarrow> int \<Rightarrow> bool" where
  "version_at hops q u t \<longleftrightarrow> npm_package_urn q \<and> u \<noteq> [] \<and>
     (\<exists>h \<in> set (hops q). string_prop (hop_to h) ''urn'' = u \<and> t \<in> instants (existed (version_attrs_of (hop_to h))))"

context version_reader
begin

lemma seed_loop_seeds:
  "list_all npm_package_urn valid \<Longrightarrow> seed_loop query spans W valid st = Inr st' \<Longrightarrow>
     seeded (fst st') u t \<longleftrightarrow> seeded (fst st) u t \<or>
       (\<exists>q \<in> set valid. version_at hops q u t \<and> t \<in> span (getd [] spans q) \<and> t \<in> instants W)"
proof (induction "length valid" arbitrary: valid st rule: less_induct)
  case less
  show ?case
  proof (cases "valid = []")
    case True
    then show ?thesis using less.prems by (simp add: seed_loop.simps [of _ _ _ "[]"])
  next
    case False
    let ?c = "take source_chunk valid" and ?d = "drop source_chunk valid"
    obtain got where got: "read_versions query ?c = Inr got"
      "seed_loop query spans W ?d (foldl (seed_package spans W) st got) = Inr st'"
      using less.prems False by (auto simp: seed_loop.simps [of _ _ _ valid] split: sum.splits)
    have all: "list_all npm_package_urn ?c" "list_all npm_package_urn ?d"
      using less.prems(1) by (auto simp: list_all_iff dest: in_set_takeD in_set_dropD)
    have len: "length ?d < length valid" "?c \<noteq> []" using False by (auto simp: source_chunk_def)
    note R = read_versions_set [OF len(2) all(1) got(1)]
    have pairs: "(\<exists>(q, vs) \<in> set got. \<exists>a \<in> set vs. va_urn a = u \<and> t \<in> instants (existed a) \<and> t \<in> span (getd [] spans q) \<and> t \<in> instants W)
      \<longleftrightarrow> (\<exists>q. \<exists>a \<in> set (getd [] got q). va_urn a = u \<and> t \<in> instants (existed a) \<and> t \<in> span (getd [] spans q) \<and> t \<in> instants W)"
    proof
      assume "\<exists>q. \<exists>a \<in> set (getd [] got q). va_urn a = u \<and> t \<in> instants (existed a) \<and> t \<in> span (getd [] spans q) \<and> t \<in> instants W"
      then obtain q a where q: "a \<in> set (getd [] got q)" "va_urn a = u \<and> t \<in> instants (existed a) \<and> t \<in> span (getd [] spans q) \<and> t \<in> instants W" by blast
      then have "q \<in> set (keys got)" using getd_notin [of q got "[]"] by fastforce
      then have "(q, getd [] got q) \<in> set got" using alist_mem [of got q "getd [] got q" "[]"] R by simp
      with q show "\<exists>(q, vs) \<in> set got. \<exists>a \<in> set vs. va_urn a = u \<and> t \<in> instants (existed a) \<and> t \<in> span (getd [] spans q) \<and> t \<in> instants W" by blast
    next
      assume "\<exists>(q, vs) \<in> set got. \<exists>a \<in> set vs. va_urn a = u \<and> t \<in> instants (existed a) \<and> t \<in> span (getd [] spans q) \<and> t \<in> instants W"
      then show "\<exists>q. \<exists>a \<in> set (getd [] got q). va_urn a = u \<and> t \<in> instants (existed a) \<and> t \<in> span (getd [] spans q) \<and> t \<in> instants W"
        using alist_mem [of got _ _ "[]"] R by fastforce
    qed
    have "(\<exists>q. \<exists>a \<in> set (getd [] got q). va_urn a = u \<and> t \<in> instants (existed a) \<and> t \<in> span (getd [] spans q) \<and> t \<in> instants W)
      \<longleftrightarrow> (\<exists>q \<in> set ?c. version_at hops q u t \<and> t \<in> span (getd [] spans q) \<and> t \<in> instants W)"
    proof -
      have got_q: "a \<in> set (getd [] got q) \<longleftrightarrow> q \<in> set ?c \<and> va_urn a \<noteq> [] \<and> (\<exists>h \<in> set (hops q). a = version_attrs_of (hop_to h))" for a q
        using R by blast
      have "npm_package_urn q" if "q \<in> set ?c" for q using all(1) that by (simp add: list_all_iff)
      then show ?thesis unfolding version_at_def Bex_def got_q va_urn_of [symmetric] by blast
    qed
    moreover have "(\<exists>q \<in> set valid. Q q) \<longleftrightarrow> (\<exists>q \<in> set ?c. Q q) \<or> (\<exists>q \<in> set ?d. Q q)" for Q
      by (metis append_take_drop_id set_append Un_iff)
    ultimately show ?thesis
      unfolding less.hyps [OF len(1) all(2) got(2)] seed_packages pairs by blast
  qed
qed

end

text \<open>A walk of resolutions, all open at one instant, backwards from a version.\<close>

definition walk_at :: "edge set \<Rightarrow> int \<Rightarrow> nat \<Rightarrow> string \<Rightarrow> string \<Rightarrow> bool" where
  "walk_at G t n u v \<longleftrightarrow> coexist {} G [\<lparr>eurn = u, espan = at_instant t\<rparr>] (at_instant t) t n v"

lemma coexist_from:
  "coexist {} G srcs W t n v \<longleftrightarrow> t \<in> instants W \<and> (\<exists>u. seeded srcs u t \<and> walk_at G t n u v)"
proof (induction n arbitrary: v)
  case 0
  have "coexist {} G srcs W t 0 v \<longleftrightarrow> (\<exists>s \<in> set srcs. eurn s = v \<and> t \<in> instants (espan s)) \<and> t \<in> instants W" for srcs W
    by (auto elim: coexist_zeroE intro: coexist.source)
  then show ?case by (auto simp: walk_at_def seeded_def)
next
  case (Suc n)
  have "coexist {} G srcs W t (Suc n) v \<longleftrightarrow> (\<exists>e \<in> G. coexist {} G srcs W t n (efrom e) \<and> t \<in> instants (evalid e) \<and> eto e = v)" for srcs W
    by (auto elim: coexist_SucE intro: coexist.step)
  then show ?case using Suc.IH unfolding walk_at_def by blast
qed


subsection \<open>Who depends on an account\<close>

lemma getd_foldl_put_other:
  "k \<notin> f ` set xs \<Longrightarrow> getd d (foldl (\<lambda>m x. put (f x) (g x) m) m xs) k = getd d m k"
  by (induction xs arbitrary: m) simp_all

lemma getd_foldl_put:
  "distinct (List.map f xs) \<Longrightarrow> x \<in> set xs \<Longrightarrow> getd d (foldl (\<lambda>m x. put (f x) (g x) m) m xs) (f x) = g x"
proof (induction xs arbitrary: m)
  case (Cons y ys)
  show ?case
  proof (cases "x \<in> set ys")
    case False
    then have "x = y" "f y \<notin> f ` set ys" using Cons.prems by auto
    then show ?thesis using getd_foldl_put_other [of "f y" f ys d g] by simp
  qed (use Cons in simp)
qed simp

lemma holdings_read:
  assumes "holdings query handle = Inr hs"
    and "\<And>recs. query (holdings_stmt (maintainer_urn ''npm'' handle)) = Inr recs \<Longrightarrow>
      \<exists>hs. recs = List.map hop_record hs \<and> set hs = set rights"
  shows "distinct (List.map hd_package hs)" and "sorted_wrt (<) (List.map hd_package hs)"
    and "hd_package ` set hs = {string_prop (hop_to h) ''urn'' | h. h \<in> set rights} - {[]}"
    and "span (getd [] (foldl (\<lambda>m h. put (hd_package h) (hd_spans h) m) [] hs) q) =
      {t. q \<noteq> [] \<and> (\<exists>h \<in> set rights. string_prop (hop_to h) ''urn'' = q \<and> t \<in> instants (interval_of (snd (snd h))))}"
proof -
  obtain recs where recs: "query (holdings_stmt (maintainer_urn ''npm'' handle)) = Inr recs"
    using assms(1) by (auto simp: holdings_def split: sum.splits)
  then obtain ks where ks: "recs = List.map hop_record ks" "set ks = set rights" using assms(2) by blast
  define m where "m = foldl note_holding [] (List.map hop_record ks)"
  have "good_holdings []" by (simp add: good_holdings_def)
  note H = holding_fold [OF this, of ks, folded m_def, unfolded ks(2)]
  have d: "distinct (keys m)" using H by (simp add: good_holdings_def)
  define us where "us = List.map (\<lambda>(pkg, s). \<lparr>hd_package = pkg, hd_spans = s, hd_versions = 0\<rparr>) m"
  have hs: "hs = sort_slice (\<lambda>x y. hd_package x < hd_package y) us"
    using assms(1) by (simp add: holdings_def recs ks(1) m_def us_def)
  have names: "List.map hd_package us = keys m" by (simp add: us_def keys_def comp_def case_prod_unfold)
  have "mset (List.map hd_package hs) = mset (keys m)" unfolding hs names [symmetric] by simp
  then show dis: "distinct (List.map hd_package hs)" using d by (metis mset_eq_imp_distinct_iff)
  have "sorted_wrt (\<lambda>x y. hd_package x \<le> hd_package y) hs"
    using slice_order.sorted_sort_slice [OF slice_order_key [of hd_package], of us] by (simp add: hs not_less)
  then have "sorted (List.map hd_package hs)" by (simp add: sorted_wrt_map)
  with dis show "sorted_wrt (<) (List.map hd_package hs)" by (simp add: strict_sorted_iff)
  have set_hs: "set hs = set us" by (simp add: hs)
  show "hd_package ` set hs = {string_prop (hop_to h) ''urn'' | h. h \<in> set rights} - {[]}"
  proof -
    have "hd_package ` set hs = set (keys m)" unfolding set_hs using names by (metis list.set_map)
    then show ?thesis using H by auto
  qed
  have "getd [] (foldl (\<lambda>m h. put (hd_package h) (hd_spans h) m) [] hs) q = getd [] m q"
  proof (cases "q \<in> set (keys m)")
    case True
    then have "(q, getd [] m q) \<in> set m" using alist_mem [OF d, of q "getd [] m q" "[]"] by simp
    then have "\<lparr>hd_package = q, hd_spans = getd [] m q, hd_versions = 0\<rparr> \<in> set hs" unfolding set_hs us_def by force
    from getd_foldl_put [OF dis this, of "[]" hd_spans "[]"] show ?thesis by simp
  next
    case False
    then have "q \<notin> hd_package ` set hs" unfolding set_hs using names by (metis list.set_map)
    from getd_foldl_put_other [OF this, of "[]" hd_spans "[]"] show ?thesis using getd_notin [OF False, of "[]"] by simp
  qed
  then show "span (getd [] (foldl (\<lambda>m h. put (hd_package h) (hd_spans h) m) [] hs) q) =
      {t. q \<noteq> [] \<and> (\<exists>h \<in> set rights. string_prop (hop_to h) ''urn'' = q \<and> t \<in> instants (interval_of (snd (snd h))))}"
    using H by simp
qed


lemma set_other_packages: "set (other_packages own urns) = {p. p \<noteq> [] \<and> p \<notin> set own \<and> (\<exists>v \<in> set urns. package_urn_of v = p)}"
  by (auto simp: other_packages_def set_packages_of)

lemma distinct_other_packages: "distinct (other_packages own urns)"
  by (simp add: other_packages_def)

text \<open>C28: the dependents listed are exactly the packages of other hands some version of which, at one instant within the
  window asked about, led by resolutions open then to a version that existed then of a package the account could publish
  to then. They are listed once each, in order of name, and are never more than the union graph would name.\<close>

theorem who_reaches_dependents:
  assumes "\<And>recs. query (holdings_stmt (maintainer_urn ''npm'' handle)) = Inr recs \<Longrightarrow>
      \<exists>hs. recs = List.map hop_record hs \<and> set hs = set rights"
    and "version_reader query vhops" "edge_source (graph_out query ''RESOLVES_TO'' ''incoming'') G"
    and "who_is query handle opts = Inr w"
  defines "own \<equiv> {string_prop (hop_to h) ''urn'' | h. h \<in> set rights} - {[]}" and "D \<equiv> nat (max_depth (with_defaults opts))"
  shows "set (wh_dependents w) = {p. p \<noteq> [] \<and> p \<notin> own \<and> (\<exists>t n u v. \<exists>h \<in> set rights. n \<le> D \<and> t \<in> instants (owithin opts)
        \<and> t \<in> instants (interval_of (snd (snd h))) \<and> version_at vhops (string_prop (hop_to h) ''urn'') u t
        \<and> walk_at G t n u v \<and> package_urn_of v = p)}
    \<and> hd_package ` set (wh_holds w) = own
    \<and> sorted_wrt (<) (wh_dependents w) \<and> length (wh_dependents w) \<le> wh_union_dependents w"
proof -
  obtain hs where hs: "holdings query handle = Inr hs" using assms(4) by (auto simp: who_is_def split: if_splits sum.splits)
  note H = holdings_read [OF hs assms(1)]
  let ?packages = "List.map hd_package hs" and ?spans = "foldl (\<lambda>m h. put (hd_package h) (hd_spans h) m) [] hs"
  have own: "set ?packages = own" using H(3) by (simp add: own_def)
  have rights: "t \<in> span (getd [] ?spans q) \<longleftrightarrow> q \<noteq> [] \<and> (\<exists>h \<in> set rights. string_prop (hop_to h) ''urn'' = q \<and> t \<in> instants (interval_of (snd (snd h))))" for t q
    using H(4) by simp
  let ?live = "\<lambda>u t. \<exists>h \<in> set rights. t \<in> instants (owithin opts) \<and> t \<in> instants (interval_of (snd (snd h))) \<and> version_at vhops (string_prop (hop_to h) ''urn'') u t"
  show ?thesis
  proof (cases "hs = []")
    case True
    then have "own = {}" using own by simp
    then have "\<not> version_at vhops (string_prop (hop_to h) ''urn'') u t" if "h \<in> set rights" for h u t
    proof -
      have "string_prop (hop_to h) ''urn'' = []" using \<open>own = {}\<close> that unfolding own_def by blast
      then show ?thesis by (simp add: version_at_def npm_package_urn_def has_prefix_iff)
    qed
    moreover have "wh_dependents w = []" "wh_holds w = []" using assms(4) hs True by (auto simp: who_is_def split: if_splits)
    ultimately show ?thesis using \<open>own = {}\<close> by simp
  next
    case False
    obtain srcs0 counts where srcs0: "seed_loop query ?spans (owithin opts) (List.filter npm_package_urn ?packages) ([], []) = Inr (srcs0, counts)"
      using assms(4) hs False by (auto simp: who_is_def versions_held_def Let_def split: if_splits sum.splits)
    let ?srcs = "sort_slice entry_before srcs0"
    have "seeded srcs0 u t \<longleftrightarrow> (\<exists>q \<in> set (List.filter npm_package_urn ?packages). version_at vhops q u t \<and> t \<in> span (getd [] ?spans q) \<and> t \<in> instants (owithin opts))" for u t
      using version_reader.seed_loop_seeds [OF assms(2) _ srcs0, of u t] by (simp add: list_all_iff)
    also have "\<dots> u t \<longleftrightarrow> ?live u t" for u t
    proof -
      have "npm_package_urn q" if "version_at vhops q u t" for q using that by (simp add: version_at_def)
      moreover have "q \<in> own" if "h \<in> set rights" "string_prop (hop_to h) ''urn'' = q" "q \<noteq> []" for h q
        using that unfolding own_def by blast
      moreover have "q \<noteq> []" if "npm_package_urn q" for q using that by (auto simp: npm_package_urn_def has_prefix_iff)
      ultimately show ?thesis unfolding set_filter own rights by blast
    qed
    finally have live: "seeded ?srcs u t \<longleftrightarrow> ?live u t" for u t by (simp add: seeded_def)
    have held: "hd_package ` set (List.map (\<lambda>h. h\<lparr>hd_versions := getd 0 counts (hd_package h)\<rparr>) hs) = own"
      using own by (simp add: image_image)
    show ?thesis
    proof (cases "srcs0 = []")
      case True
      then have "\<not> ?live u t" for u t using live [of u t] by (simp add: seeded_def)
      moreover have "wh_dependents w = []" "hd_package ` set (wh_holds w) = own"
        using assms(4) hs False srcs0 True held by (auto simp: who_is_def versions_held_def Let_def split: if_splits)
      ultimately show ?thesis by (auto)
    next
      case ne: False
      obtain r seen where r: "reach (graph_out query ''RESOLVES_TO'' ''incoming'') ?srcs opts = Inr (r, seen)"
        using assms(4) hs False srcs0 ne by (auto simp: who_is_def versions_held_def Let_def split: if_splits sum.splits)
      have w: "wh_dependents w = sort_strings (other_packages ?packages (keys (coexistence r)))"
        "wh_union_dependents w = length (other_packages ?packages (union_set r))" "hd_package ` set (wh_holds w) = own"
        using assms(4) hs False srcs0 ne r held by (auto simp: who_is_def versions_held_def Let_def split: if_splits)
      note R = edge_source.reach_correct [OF assms(3) r, folded D_def]
      have W: "t \<in> instants (owithin (with_defaults opts))" if "t \<in> instants (owithin opts)" for t
        using that by (auto simp: with_defaults_def instants_def)
      have reached: "v \<in> set (keys (coexistence r)) \<longleftrightarrow> (\<exists>t n u. n \<le> D \<and> ?live u t \<and> walk_at G t n u v)" for v
      proof -
        have "v \<in> set (keys (coexistence r)) \<longleftrightarrow> (\<exists>t. \<exists>n \<le> D. coexist {} G ?srcs (owithin (with_defaults opts)) t n v)"
          using reach_ok_keys [OF R(1), of v] R(2) [of _ v] by blast
        then show ?thesis unfolding coexist_from live using W by blast
      qed
      have "set (keys (coexistence r)) \<subseteq> set (union_set r)"
      proof
        fix v assume "v \<in> set (keys (coexistence r))"
        then obtain t n where "n \<le> D" "coexist {} G ?srcs (owithin (with_defaults opts)) t n v"
          using reach_ok_keys [OF R(1), of v] R(2) [of _ v] by blast
        then show "v \<in> set (union_set r)" using coexist_uwalk R(3) by blast
      qed
      then have "set (wh_dependents w) \<subseteq> set (other_packages ?packages (union_set r))"
        unfolding w set_sort_strings set_other_packages by blast
      then have "card (set (wh_dependents w)) \<le> card (set (other_packages ?packages (union_set r)))"
        by (intro card_mono) auto
      moreover have d: "distinct (wh_dependents w)" by (simp add: w distinct_other_packages)
      ultimately have "length (wh_dependents w) \<le> wh_union_dependents w"
        using distinct_card [OF d] distinct_card [OF distinct_other_packages] by (simp add: w(2))
      moreover have "sorted_wrt (<) (wh_dependents w)"
        using d sorted_sort_strings unfolding strict_sorted_iff w(1) by blast
      moreover have "set (wh_dependents w) = {p. p \<noteq> [] \<and> p \<notin> own \<and> (\<exists>v. package_urn_of v = p \<and> (\<exists>t n u. n \<le> D \<and> ?live u t \<and> walk_at G t n u v))}"
        unfolding w(1) set_sort_strings set_other_packages own reached [symmetric] by blast
      moreover have "(\<exists>v. package_urn_of v = p \<and> (\<exists>t n u. n \<le> D \<and> ?live u t \<and> walk_at G t n u v)) \<longleftrightarrow>
          (\<exists>t n u v. \<exists>h \<in> set rights. n \<le> D \<and> t \<in> instants (owithin opts) \<and> t \<in> instants (interval_of (snd (snd h)))
            \<and> version_at vhops (string_prop (hop_to h) ''urn'') u t \<and> walk_at G t n u v \<and> package_urn_of v = p)" for p
        by (intro iffI; elim exE bexE conjE; intro exI bexI conjI; assumption)
      ultimately show ?thesis unfolding w(3) by (intro conjI) (simp_all only: refl)
    qed
  qed
qed


subsection \<open>An account in a table\<close>

lemma read_versions_total:
  assumes "answering query" shows "\<exists>got. read_versions query ps = Inr got"
proof (induction "length ps" arbitrary: ps rule: less_induct)
  case less
  obtain recs where recs: "query (package_versions_stmt ps) = Inr recs"
    using assms unfolding answering_def package_versions_stmt_def by blast
  show ?case
  proof (cases "length recs \<ge> result_limit \<and> length ps > 1")
    case True
    then have "length (take (length ps div 2) ps) < length ps" "length (drop (length ps div 2) ps) < length ps" by auto
    then obtain left right where "read_versions query (take (length ps div 2) ps) = Inr left" "read_versions query (drop (length ps div 2) ps) = Inr right"
      using less.hyps by blast
    then show ?thesis using recs True by (simp add: read_versions.simps [of _ ps] Let_def)
  next
    case False
    then show ?thesis using recs by (auto simp: read_versions.simps [of _ ps])
  qed
qed

lemma seed_loop_total:
  assumes "answering query" shows "\<exists>st'. seed_loop query spans W vs st = Inr st'"
proof (induction "length vs" arbitrary: vs st rule: less_induct)
  case less
  show ?case
  proof (cases "vs = []")
    case False
    obtain got where "read_versions query (take source_chunk vs) = Inr got" using read_versions_total [OF assms] by blast
    moreover have "length (drop source_chunk vs) < length vs" using False by (simp add: source_chunk_def)
    ultimately show ?thesis using less.hyps False by (simp add: seed_loop.simps [of _ _ _ vs])
  qed (simp add: seed_loop.simps)
qed

lemma who_is_total:
  assumes "answering query" "npm_handle handle"
  shows "\<exists>w. who_is query handle opts = Inr w"
proof -
  obtain recs where recs: "query (holdings_stmt (maintainer_urn ''npm'' handle)) = Inr recs"
    using assms(1) unfolding answering_def holdings_stmt_def by blast
  then obtain hs where hs: "holdings query handle = Inr hs" by (simp add: holdings_def)
  obtain srcs counts where s: "versions_held query (List.map hd_package hs) (foldl (\<lambda>m h. put (hd_package h) (hd_spans h) m) [] hs) (owithin opts) = Inr (srcs, counts)"
    using seed_loop_total [OF assms(1), of _ _ "List.filter npm_package_urn (List.map hd_package hs)"]
    unfolding versions_held_def by (metis (no_types, lifting) old.sum.simps(6) prod.collapse case_prod_conv)
  obtain r seen where r: "reach (graph_out query ''RESOLVES_TO'' ''incoming'') srcs opts = Inr (r, seen)"
    using reach_total [of "graph_out query ''RESOLVES_TO'' ''incoming''"] graph_out_total [OF assms(1)] by blast
  show ?thesis using assms(2) hs s r by (auto simp: who_is_def Let_def)
qed

definition who_db :: "string \<Rightarrow> hop list \<Rightarrow> hop list \<Rightarrow> query_fun" where
  "who_db urn rights tbl stmt =
     (if stmt = holdings_stmt urn then Inr (List.map hop_record rights)
      else table_query (\<lambda>s. npm_urn s \<or> npm_package_urn s) tbl stmt)"

lemma answering_who_db: "answering (who_db urn rights tbl)"
  unfolding answering_def who_db_def table_query_def take_map by auto

lemma who_db_values:
  assumes "vs \<noteq> []" "list_all npm_urn vs \<or> list_all npm_package_urn vs"
    and "label \<in> {''Package'', ''Version''}" "edge_type \<in> {''HAS_VERSION'', ''RESOLVES_TO'', ''MAINTAINS''}" "dir \<in> {''outgoing'', ''incoming''}"
  shows "List.filter (\<lambda>s. npm_urn s \<or> npm_package_urn s) (split_str (mspaths_stmt label edge_type dir cnt vs) [CHR 0x27]) = vs"
proof (rule statement_values [OF assms(1)])
  show "list_all (\<lambda>s. npm_urn s \<or> npm_package_urn s) vs" using assms(2) by (auto simp: list_all_iff)
  show "CHR 0x27 \<notin> set v" if "npm_urn v \<or> npm_package_urn v" for v using that npm_urn_chars npm_package_urn_chars by blast
  show "\<not> (npm_urn s \<or> npm_package_urn s)" if "\<not> (CHR ''@'' \<in> set s \<or> has_prefix ''pkg:npm/'' s)" for s
    using that npm_urn_no by (auto simp: npm_package_urn_def)
qed (use assms in auto)

lemma who_db_table:
  assumes "label = ''Package'' \<or> label = ''Version''"
  shows "who_db urn rights tbl (mspaths_stmt label e d c vs) = table_query (\<lambda>s. npm_urn s \<or> npm_package_urn s) tbl (mspaths_stmt label e d c vs)"
  using assms by (auto simp: who_db_def holdings_stmt_def mspaths_stmt_def quoted_def)

interpretation account: version_reader "who_db urn rights tbl" "table_hops tbl" for urn rights tbl
proof
  fix vs recs
  assume vs: "vs \<noteq> []" "list_all npm_package_urn vs" and q: "who_db urn rights tbl (package_versions_stmt vs) = Inr recs"
    and lim: "length recs < result_limit \<or> length vs = 1"
  have "table_query (\<lambda>s. npm_urn s \<or> npm_package_urn s) tbl (package_versions_stmt vs) = Inr recs"
    using q by (simp add: package_versions_stmt_def who_db_table)
  then show "\<exists>hs. recs = List.map hop_record hs \<and> set hs = (\<Union>v \<in> set vs. set (table_hops tbl v))"
    using table_answer [OF who_db_values [OF vs(1) disjI2 [OF vs(2)], of "''Package''" "''HAS_VERSION''" "''outgoing''" result_limit]] lim
    by (simp add: package_versions_stmt_def)
qed (rule table_leaves)

interpretation dependents: mspaths "who_db urn rights tbl" "''RESOLVES_TO''" "''incoming''" "table_hops tbl" for urn rights tbl
proof
  fix vs recs
  assume vs: "vs \<noteq> []" "list_all npm_urn vs" and q: "who_db urn rights tbl (expand_stmt ''RESOLVES_TO'' ''incoming'' vs) = Inr recs"
    and lim: "length recs < result_limit \<or> length vs = 1"
  have "table_query (\<lambda>s. npm_urn s \<or> npm_package_urn s) tbl (expand_stmt ''RESOLVES_TO'' ''incoming'' vs) = Inr recs"
    using q by (simp add: expand_stmt_def who_db_table)
  then show "\<exists>hs. recs = List.map hop_record hs \<and> set hs = (\<Union>v \<in> set vs. set (table_hops tbl v))"
    using table_answer [OF who_db_values [OF vs(1) disjI1 [OF vs(2)], of "''Version''" "''RESOLVES_TO''" "''incoming''" result_limit]] lim
    by (simp add: expand_stmt_def)
qed (rule table_leaves)


abbreviation ann_right :: hop where
  "ann_right \<equiv> (urn_props ''mnt:npm/ann'', urn_props ''pkg:npm/a'', window_props 4 8)"

abbreviation ann_table :: "hop list" where
  "ann_table \<equiv> [(urn_props ''pkg:npm/a'', [(''urn'', PStr ''pkg:npm/a@1.0.0''), (''published_at'', PInt 3)], []),
     (urn_props ''pkg:npm/a@1.0.0'', urn_props ''pkg:npm/b@2.0.0'', window_props 5 9)]"

lemma ann_hops:
  "table_hops ann_table ''pkg:npm/a'' = [ann_table ! 0]" "table_hops ann_table ''pkg:npm/a@1.0.0'' = [ann_table ! 1]"
proof -
  have "List.filter (\<lambda>h. string_prop (fst h) ''urn'' = ''pkg:npm/a'') ann_table = [ann_table ! 0]"
    "List.filter (\<lambda>h. string_prop (fst h) ''urn'' = ''pkg:npm/a@1.0.0'') ann_table = [ann_table ! 1]"
    by (simp_all add: string_prop_def getd_def as_str_def)
  moreover have "take (result_limit - 1) [x] = [x]" for x :: hop by (simp add: result_limit_def)
  ultimately show "table_hops ann_table ''pkg:npm/a'' = [ann_table ! 0]" "table_hops ann_table ''pkg:npm/a@1.0.0'' = [ann_table ! 1]"
    unfolding table_hops_def by simp_all
qed

lemma ann_version: "version_at (table_hops ann_table) ''pkg:npm/a'' ''pkg:npm/a@1.0.0'' 6"
proof -
  have "npm_package_urn ''pkg:npm/a''"
    by (simp add: npm_package_urn_def npm_name_def plain_name_def scope_char_def is_digit_iff less_eq_char_def)
  then show ?thesis
    unfolding version_at_def ann_hops
    by (simp add: hop_to_def string_prop_def getd_def as_str_def existed_def version_attrs_of_def int_prop_def as_int_def instants_def open_interval_def)
qed

lemma ann_edge:
  "\<lparr>efrom = ''pkg:npm/a@1.0.0'', eto = ''pkg:npm/b@2.0.0'', evalid = iv 5 9\<rparr> \<in> mspaths.reachable_edges (table_hops ann_table)"
proof -
  have h: "ann_table ! 1 \<in> set (table_hops ann_table ''pkg:npm/a@1.0.0'')" unfolding ann_hops by (rule list.set_intros(1))
  have e: "hop_edge (ann_table ! 1) = \<lparr>efrom = ''pkg:npm/a@1.0.0'', eto = ''pkg:npm/b@2.0.0'', evalid = iv 5 9\<rparr>"
    by (simp add: hop_edge_def string_prop_def getd_def as_str_def interval_of_def int_prop_def as_int_def)
  show ?thesis unfolding dependents.reachable_edges_def e [symmetric]
    by (rule CollectI, rule exI, rule exI, intro conjI) (rule refl, rule h, rule npm_urn_a)
qed

theorem who_reaches_dependents_witness:
  "\<exists>w. who_is (who_db ''mnt:npm/ann'' [ann_right] ann_table) ''ann'' \<lparr>owithin = always, max_depth = 3\<rparr> = Inr w
     \<and> ''pkg:npm/b'' \<in> set (wh_dependents w) \<and> hd_package ` set (wh_holds w) = {''pkg:npm/a''}"
proof -
  let ?db = "who_db ''mnt:npm/ann'' [ann_right] ann_table" and ?opts = "\<lparr>owithin = always, max_depth = 3\<rparr>"
  let ?G = "mspaths.reachable_edges (table_hops ann_table)"
  have "npm_handle ''ann''" by (simp add: npm_handle_def scope_char_def less_eq_char_def)
  then obtain w where w: "who_is ?db ''ann'' ?opts = Inr w" using who_is_total [OF answering_who_db] by blast
  have rights: "\<exists>hs. recs = List.map hop_record hs \<and> set hs = set [ann_right]"
    if "?db (holdings_stmt (maintainer_urn ''npm'' ''ann'')) = Inr recs" for recs
    using that by (intro exI [of _ "[ann_right]"]) (simp add: who_db_def maintainer_urn_def)
  note W = who_reaches_dependents [OF rights account.version_reader_axioms dependents.edge_source_axioms w]
  have right: "string_prop (hop_to ann_right) ''urn'' = ''pkg:npm/a''" "interval_of (snd (snd ann_right)) = iv 4 8"
    by (simp_all add: hop_to_def string_prop_def getd_def as_str_def interval_of_def int_prop_def as_int_def)
  have t: "6 \<in> instants always" "6 \<in> instants (iv 4 8)" "6 \<in> instants (iv 5 9)" "6 \<in> instants (at_instant 6)"
    by (simp_all add: always_def at_instant_def open_interval_def instants_def)
  have "walk_at ?G 6 0 ''pkg:npm/a@1.0.0'' ''pkg:npm/a@1.0.0''"
    using coexist.source [of "\<lparr>eurn = ''pkg:npm/a@1.0.0'', espan = at_instant 6\<rparr>" _ "{}" 6 "at_instant 6"] t by (simp add: walk_at_def)
  then have walk: "walk_at ?G 6 (Suc 0) ''pkg:npm/a@1.0.0'' ''pkg:npm/b@2.0.0''"
    using coexist.step [OF _ ann_edge, of "{}" _ "at_instant 6" 6 0] t by (simp add: walk_at_def)
  have b: "package_urn_of ''pkg:npm/b@2.0.0'' = ''pkg:npm/b''" by (simp add: package_urn_of_def)
  have "\<exists>t n u v. \<exists>h \<in> set [ann_right]. n \<le> nat (max_depth (with_defaults ?opts)) \<and> t \<in> instants (owithin ?opts)
        \<and> t \<in> instants (interval_of (snd (snd h))) \<and> version_at (table_hops ann_table) (string_prop (hop_to h) ''urn'') u t
        \<and> walk_at ?G t n u v \<and> package_urn_of v = ''pkg:npm/b''"
    using walk b t ann_version right
    by (intro exI [of _ 6] exI [of _ "Suc 0"] exI [of _ "''pkg:npm/a@1.0.0''"] exI [of _ "''pkg:npm/b@2.0.0''"] bexI [of _ ann_right])
      (simp_all add: with_defaults_def)
  moreover have "{string_prop (hop_to h) ''urn'' | h. h \<in> set [ann_right]} - {[]} = {''pkg:npm/a''}" using right by auto
  ultimately show ?thesis using w W by auto
qed

lemma seed_loop_nonempty:
  "seed_loop query spans W valid st = Inr st' \<Longrightarrow> \<forall>e \<in> set (fst st). \<not> iv_empty (espan e) \<Longrightarrow> \<forall>e \<in> set (fst st'). \<not> iv_empty (espan e)"
proof (induction "length valid" arbitrary: valid st rule: less_induct)
  case less
  have live: "\<forall>e \<in> set (live_entries W spells v). \<not> iv_empty (espan e)" for spells v
    by (auto simp: live_entries_def set_map_filter Let_def split: if_splits)
  have keep: "\<forall>e \<in> set (fst st0). \<not> iv_empty (espan e) \<Longrightarrow> \<forall>e \<in> set (fst (foldl (seed_package spans W) st0 got)). \<not> iv_empty (espan e)" for st0 got
  proof (induction got arbitrary: st0)
    case (Cons pv got)
    have "\<forall>e \<in> set (fst (seed_package spans W st0 pv)). \<not> iv_empty (espan e)" using Cons.prems live by (auto simp: seed_package_def)
    then show ?case using Cons.IH by simp
  qed simp
  have "\<forall>e \<in> set (fst (foldl (seed_package spans W) st got)). \<not> iv_empty (espan e)" for got
    by (rule keep [OF less.prems(2)])
  then show ?case
    using less.hyps [of "drop source_chunk valid"] less.prems
    by (cases "valid = []") (auto simp: seed_loop.simps [of _ _ _ "[]"] seed_loop.simps [of _ _ _ valid] source_chunk_def split: sum.splits)
qed

text \<open>A window left at its zero value, which the search takes to mean every instant, makes the question come back empty:
  the sources are clipped to it before the search fills in its defaults.\<close>

theorem who_zero_window:
  assumes "version_reader query vhops" "who_is query handle \<lparr>owithin = \<lparr>ifrom = 0, ito = 0\<rparr>, max_depth = d\<rparr> = Inr w"
  shows "wh_dependents w = [] \<and> wh_reach w = None"
proof -
  obtain hs where hs: "holdings query handle = Inr hs" using assms(2) by (auto simp: who_is_def split: if_splits sum.splits)
  let ?spans = "foldl (\<lambda>m h. put (hd_package h) (hd_spans h) m) [] hs" and ?zero = "\<lparr>ifrom = 0, ito = 0\<rparr> :: interval"
  show ?thesis
  proof (cases "hs = []")
    case True
    then show ?thesis using assms(2) hs by (auto simp: who_is_def split: if_splits)
  next
    case False
    obtain srcs counts where s: "seed_loop query ?spans ?zero (List.filter npm_package_urn (List.map hd_package hs)) ([], []) = Inr (srcs, counts)"
      using assms(2) hs False by (auto simp: who_is_def versions_held_def Let_def split: if_splits sum.splits)
    have "\<not> seeded srcs u t" for u t
      using version_reader.seed_loop_seeds [OF assms(1) _ s, of u t] by (simp add: list_all_iff instants_def)
    then have "\<forall>e \<in> set srcs. instants (espan e) = {}" unfolding seeded_def by blast
    moreover have "\<not> iv_empty (espan e)" if "e \<in> set srcs" for e
      using seed_loop_nonempty [OF s] that by auto
    ultimately have "srcs = []" using instants_empty_iff by (cases srcs) auto
    then show ?thesis using assms(2) hs False s by (auto simp: who_is_def versions_held_def Let_def split: if_splits)
  qed
qed

end
