(* ===== verification/Proof.thy ===== *)
theory Proof
  imports Risk GoQuote
begin

text \<open>
  Proofs of reach: \<open>internal/query/proof.go\<close> and the shape they are shown in, \<open>internal/query/path_view.go\<close>. The path
  procedure of the database is asked for whole paths, and the paths whose edges share no instant are dropped here. The
  locale \<open>path_source\<close> states what is relied on: a returned path is a walk of the graph.
\<close>

record chain_hop =
  ph_from :: string
  ph_to :: string
  ph_range :: string
  ph_valid :: interval

record chain =
  ch_hops :: "chain_hop list"
  ch_valid :: interval

definition chain_nodes :: "chain \<Rightarrow> string list" where
  "chain_nodes c = (if ch_hops c = [] then [] else ph_from (hd (ch_hops c)) # List.map ph_to (ch_hops c))"

definition path_hop :: "props \<Rightarrow> props \<Rightarrow> props \<Rightarrow> chain_hop" where
  "path_hop a b r = \<lparr>ph_from = string_prop a ''urn'', ph_to = string_prop b ''urn'', ph_range = string_prop r ''range'', ph_valid = interval_of r\<rparr>"

fun chain_loop :: "props list \<Rightarrow> props list \<Rightarrow> chain \<Rightarrow> chain option" where
  "chain_loop (a # b # ns) (r # rs) c =
     (let hop = path_hop a b r; valid = intersect (ch_valid c) (ph_valid hop) in
      if iv_empty valid then None
      else chain_loop (b # ns) rs \<lparr>ch_hops = ch_hops c @ [hop], ch_valid = valid\<rparr>)"
| "chain_loop ns rs c = Some c"

definition coexistence_chain :: "props list \<Rightarrow> props list \<Rightarrow> chain option" where
  "coexistence_chain ns rs =
     (if rs = [] \<or> length ns \<noteq> length rs + 1 then None else chain_loop ns rs \<lparr>ch_hops = [], ch_valid = always\<rparr>)"

subsection \<open>The shortest proof\<close>

definition proof_stmt :: "string list \<Rightarrow> string \<Rightarrow> int \<Rightarrow> string" where
  "proof_stmt valid target max_len =
     ''CALL algo.MSpaths({sourceLabel: '' @ quoted ''Version'' @ '', sourceProperty: '' @ quoted ''urn''
     @ '', sourceValues: ['' @ quote_all valid @ ''], targetLabel: '' @ quoted ''Version'' @ '', targetProperty: '' @ quoted ''urn''
     @ '', targetValues: ['' @ quoted target @ ''], relTypes: ['' @ quoted ''RESOLVES_TO'' @ ''], relDirection: '' @ quoted ''outgoing''
     @ '', maxLen: '' @ itoa max_len @ '', pathCount: 64, resultLimit: '' @ utoa result_limit @ ''}) YIELD path RETURN path''"

definition shorter :: "chain option \<Rightarrow> chain \<Rightarrow> chain option" where
  "shorter best c =
     (case best of None \<Rightarrow> Some c | Some b \<Rightarrow> if length (ch_hops c) < length (ch_hops b) then Some c else Some b)"

definition note_path :: "chain option \<Rightarrow> grecord \<Rightarrow> chain option" where
  "note_path best rec =
     (case map_of rec ''path'' of
        Some (Path ns rs) \<Rightarrow> (case coexistence_chain ns rs of None \<Rightarrow> best | Some c \<Rightarrow> shorter best c)
      | _ \<Rightarrow> best)"

function proof_chunks :: "query_fun \<Rightarrow> string \<Rightarrow> int \<Rightarrow> string list \<Rightarrow> chain option \<Rightarrow> chain option res" where
  "proof_chunks query target max_len valid best =
     (if valid = [] then Inr best
      else case query (proof_stmt (take source_chunk valid) target max_len) of
          Inl e \<Rightarrow> Inl (Wrap (''proof path to '' @ target) e)
        | Inr recs \<Rightarrow> proof_chunks query target max_len (drop source_chunk valid) (foldl note_path best recs))"
  by pat_completeness auto
termination
  by (relation "measure (\<lambda>(_, _, _, vs, _). length vs)") (auto simp: source_chunk_def)

declare proof_chunks.simps [simp del]

definition proof_path :: "query_fun \<Rightarrow> string list \<Rightarrow> string \<Rightarrow> int \<Rightarrow> chain option res" where
  "proof_path query srcs target max_len0 =
     (let max_len = (if max_len0 \<le> 0 then default_max_depth else max_len0);
          valid = List.filter npm_urn srcs in
      if \<not> npm_urn target then Inl (Msg (''not a version URN: '' @ go_quote target))
      else if valid = [] then Inr None
      else proof_chunks query target max_len valid None)"

subsection \<open>The proofs of an account\<close>

record package_chain =
  pc_package :: string
  pc_chain :: "chain option"

definition locked_versions :: "audit_result \<Rightarrow> string list" where
  "locked_versions a = sort_strings (case a_reach a of None \<Rightarrow> [] | Some r \<Rightarrow> List.map eurn (rsources r))"

fun held_by :: "keyholder list \<Rightarrow> string \<Rightarrow> string list \<times> bool" where
  "held_by [] handle = ([], False)"
| "held_by (k # ks) handle =
     (if k_handle k \<noteq> handle then held_by ks handle
      else (let held = sort_strings (keys (k_through k)) in (held, length held > 0)))"

definition held_packages :: "audit_result \<Rightarrow> string \<Rightarrow> string list \<times> bool" where
  "held_packages a handle = held_by (a_keyholders a) handle"

fun version_chains :: "query_fun \<Rightarrow> string list \<Rightarrow> int \<Rightarrow> string list \<Rightarrow> chain option \<Rightarrow> chain option res" where
  "version_chains query srcs depth [] best = Inr best"
| "version_chains query srcs depth (target # targets) best =
     (case proof_path query srcs target depth of
        Inl e \<Rightarrow> Inl e
      | Inr None \<Rightarrow> version_chains query srcs depth targets best
      | Inr (Some c) \<Rightarrow> version_chains query srcs depth targets (shorter best c))"

fun package_chains :: "query_fun \<Rightarrow> string list \<Rightarrow> int \<Rightarrow> reached \<Rightarrow> string list \<Rightarrow> package_chain list res" where
  "package_chains query srcs depth reached [] = Inr []"
| "package_chains query srcs depth reached (pkg # pkgs) =
     (case version_chains query srcs depth (sort_strings (versions_of reached pkg)) None of
        Inl e \<Rightarrow> Inl e
      | Inr best \<Rightarrow>
          (case package_chains query srcs depth reached pkgs of
             Inl e \<Rightarrow> Inl e
           | Inr out \<Rightarrow> Inr (\<lparr>pc_package = pkg, pc_chain = best\<rparr> # out)))"

definition holder_chains :: "query_fun \<Rightarrow> audit_result \<Rightarrow> string list \<Rightarrow> int \<Rightarrow> package_chain list res" where
  "holder_chains query a packages depth =
     package_chains query (locked_versions a) depth (case a_reach a of None \<Rightarrow> [] | Some r \<Rightarrow> coexistence r) packages"

subsection \<open>The shape on the wire\<close>

record hop_view =
  hv_from :: string
  hv_to :: string
  hv_range :: string
  hv_valid_from :: int
  hv_valid_to :: int

record chain_view =
  cv_package :: string
  cv_found :: bool
  cv_valid_from :: int
  cv_valid_to :: int
  cv_hops :: "hop_view list"

record path_view =
  pv_handle :: string
  pv_holds :: "string list"
  pv_chains :: "chain_view list"

definition new_hop_view :: "chain_hop \<Rightarrow> hop_view" where
  "new_hop_view h = \<lparr>hv_from = ph_from h, hv_to = ph_to h, hv_range = ph_range h, hv_valid_from = ifrom (ph_valid h), hv_valid_to = ito (ph_valid h)\<rparr>"

definition new_chain_view :: "package_chain \<Rightarrow> chain_view" where
  "new_chain_view c =
     (case pc_chain c of
        None \<Rightarrow> \<lparr>cv_package = pc_package c, cv_found = False, cv_valid_from = 0, cv_valid_to = 0, cv_hops = []\<rparr>
      | Some ch \<Rightarrow> \<lparr>cv_package = pc_package c, cv_found = True, cv_valid_from = ifrom (ch_valid ch), cv_valid_to = ito (ch_valid ch),
          cv_hops = List.map new_hop_view (ch_hops ch)\<rparr>)"

definition new_path_view :: "string \<Rightarrow> string list \<Rightarrow> package_chain list \<Rightarrow> path_view" where
  "new_path_view handle held found = \<lparr>pv_handle = handle, pv_holds = held, pv_chains = List.map new_chain_view found\<rparr>"

subsection \<open>What a chain says\<close>

text \<open>The hops of a path, and the instants at which all of them hold.\<close>

fun path_hops :: "props list \<Rightarrow> props list \<Rightarrow> chain_hop list" where
  "path_hops (a # b # ns) (r # rs) = path_hop a b r # path_hops (b # ns) rs"
| "path_hops ns rs = []"

definition shared_instants :: "chain_hop list \<Rightarrow> int set" where
  "shared_instants hs = instants always \<inter> (\<Inter>h \<in> set hs. instants (ph_valid h))"

lemma chain_loop_spec:
  "length ns = length rs + 1 \<Longrightarrow>
     (case chain_loop ns rs c of
        Some c' \<Rightarrow> ch_hops c' = ch_hops c @ path_hops ns rs
          \<and> instants (ch_valid c') = instants (ch_valid c) \<inter> (\<Inter>h \<in> set (path_hops ns rs). instants (ph_valid h))
          \<and> (instants (ch_valid c) \<noteq> {} \<longrightarrow> instants (ch_valid c') \<noteq> {})
      | None \<Rightarrow> instants (ch_valid c) \<inter> (\<Inter>h \<in> set (path_hops ns rs). instants (ph_valid h)) = {})"
proof (induction ns rs c rule: chain_loop.induct)
  case (1 a b ns r rs c)
  define valid where "valid = intersect (ch_valid c) (ph_valid (path_hop a b r))"
  show ?case
  proof (cases "iv_empty valid")
    case True
    then have "instants (ch_valid c) \<inter> instants (ph_valid (path_hop a b r)) = {}"
      unfolding valid_def instants_empty_iff [symmetric] by simp
    then show ?thesis using True by (auto simp: Let_def valid_def)
  next
    case False
    then have "instants valid \<noteq> {}" by (simp add: instants_empty_iff)
    moreover have "instants valid = instants (ch_valid c) \<inter> instants (ph_valid (path_hop a b r))" by (simp add: valid_def)
    ultimately show ?thesis
      using "1.IH" [OF refl valid_def] False "1.prems" by (auto simp: Let_def valid_def [symmetric] split: option.splits)
  qed
qed auto

lemma coexistence_chain_spec:
  "coexistence_chain ns rs = Some c \<longleftrightarrow>
     rs \<noteq> [] \<and> length ns = length rs + 1 \<and> shared_instants (path_hops ns rs) \<noteq> {} \<and> chain_loop ns rs \<lparr>ch_hops = [], ch_valid = always\<rparr> = Some c"
proof (cases "rs = [] \<or> length ns \<noteq> length rs + 1")
  case False
  have "instants always \<noteq> {}" by (auto simp: instants_def always_def open_interval_def intro: exI [of _ 0])
  then show ?thesis
    using chain_loop_spec [of ns rs "\<lparr>ch_hops = [], ch_valid = always\<rparr>"] False
    by (auto simp: coexistence_chain_def shared_instants_def split: option.splits)
qed (auto simp: coexistence_chain_def)

lemma coexistence_chain_parts:
  assumes "coexistence_chain ns rs = Some c"
  shows "ch_hops c = path_hops ns rs" "instants (ch_valid c) = shared_instants (ch_hops c)" "instants (ch_valid c) \<noteq> {}"
  using assms chain_loop_spec [of ns rs "\<lparr>ch_hops = [], ch_valid = always\<rparr>"]
  unfolding coexistence_chain_spec by (auto simp: shared_instants_def)


text \<open>The least of a set of chains, as the loops keep it.\<close>

definition is_shortest :: "chain set \<Rightarrow> chain option \<Rightarrow> bool" where
  "is_shortest S best \<longleftrightarrow>
     (case best of None \<Rightarrow> S = {} | Some c \<Rightarrow> c \<in> S \<and> (\<forall>c' \<in> S. length (ch_hops c) \<le> length (ch_hops c')))"

lemma shorter_shortest: "is_shortest S best \<Longrightarrow> is_shortest (insert c S) (shorter best c)"
  by (auto simp: is_shortest_def shorter_def split: option.splits)

definition chains_in :: "grecord list \<Rightarrow> chain set" where
  "chains_in recs = {c. \<exists>rec \<in> set recs. \<exists>ns rs. map_of rec ''path'' = Some (Path ns rs) \<and> coexistence_chain ns rs = Some c}"

lemma chains_in_simps [simp]:
  "chains_in [] = {}" "chains_in (xs @ ys) = chains_in xs \<union> chains_in ys"
  by (auto simp: chains_in_def)

lemma chains_in_Cons: "chains_in (rec # recs) = chains_in [rec] \<union> chains_in recs"
  using chains_in_simps(2) [of "[rec]" recs] by simp

lemma note_path_shortest: "is_shortest S best \<Longrightarrow> is_shortest (S \<union> chains_in [rec]) (note_path best rec)"
proof -
  assume S: "is_shortest S best"
  show ?thesis
  proof (cases "map_of rec ''path''")
    case None
    then have "chains_in [rec] = {}" "note_path best rec = best" by (simp_all add: chains_in_def note_path_def)
    then show ?thesis using S by simp
  next
    case (Some v)
    show ?thesis
    proof (cases v)
      case (Scalar x)
      then have "chains_in [rec] = {}" "note_path best rec = best" using Some by (simp_all add: chains_in_def note_path_def)
      then show ?thesis using S by simp
    next
      case (Path ns rs)
      then have "chains_in [rec] = set_option (coexistence_chain ns rs)"
        "note_path best rec = (case coexistence_chain ns rs of None \<Rightarrow> best | Some c \<Rightarrow> shorter best c)"
        using Some by (auto simp: chains_in_def note_path_def)
      then show ?thesis using S shorter_shortest [OF S] by (cases "coexistence_chain ns rs") simp_all
    qed
  qed
qed

lemma note_paths_shortest: "is_shortest S best \<Longrightarrow> is_shortest (S \<union> chains_in recs) (foldl note_path best recs)"
proof (induction recs arbitrary: S best)
  case (Cons rec recs)
  from Cons.IH [OF note_path_shortest [OF Cons.prems, of rec]] show ?case
    unfolding foldl.simps chains_in_Cons [of rec recs] by (simp only: Un_assoc)
qed simp

text \<open>The chains that some statement of a proof is answered with.\<close>

function chains_offered :: "query_fun \<Rightarrow> string \<Rightarrow> int \<Rightarrow> string list \<Rightarrow> chain set" where
  "chains_offered query target max_len valid =
     (if valid = [] then {}
      else (case query (proof_stmt (take source_chunk valid) target max_len) of Inl e \<Rightarrow> {} | Inr recs \<Rightarrow> chains_in recs)
        \<union> chains_offered query target max_len (drop source_chunk valid))"
  by pat_completeness auto
termination
  by (relation "measure (\<lambda>(_, _, _, vs). length vs)") (auto simp: source_chunk_def)

declare chains_offered.simps [simp del]

lemma proof_chunks_shortest:
  "is_shortest S best \<Longrightarrow> proof_chunks query target max_len valid best = Inr res \<Longrightarrow>
     is_shortest (S \<union> chains_offered query target max_len valid) res"
proof (induction "length valid" arbitrary: valid best S rule: less_induct)
  case less
  show ?case
  proof (cases "valid = []")
    case True
    then show ?thesis using less.prems by (simp add: proof_chunks.simps chains_offered.simps)
  next
    case False
    let ?d = "drop source_chunk valid"
    obtain recs where recs: "query (proof_stmt (take source_chunk valid) target max_len) = Inr recs"
      "proof_chunks query target max_len ?d (foldl note_path best recs) = Inr res"
      using less.prems(2) False by (auto simp: proof_chunks.simps [of _ _ _ valid] split: sum.splits)
    have "length ?d < length valid" using False by (simp add: source_chunk_def)
    from less.hyps [OF this note_paths_shortest [OF less.prems(1)] recs(2)]
    show ?thesis using recs(1) False by (simp add: chains_offered.simps [of _ _ _ valid] Un_assoc)
  qed
qed

subsection \<open>Walks behind the chains\<close>

lemma coexist_more_sources:
  "coexist B G srcs W t n v \<Longrightarrow> set srcs \<subseteq> set srcs' \<Longrightarrow> coexist B G srcs' W t n v"
  by (induction rule: coexist.induct) (auto intro: coexist.intros)

locale path_source =
  fixes query :: query_fun and G :: "edge set"
  assumes walks: "vs \<noteq> [] \<Longrightarrow> list_all npm_urn vs \<Longrightarrow> npm_urn target \<Longrightarrow> query (proof_stmt vs target max_len) = Inr recs \<Longrightarrow> rec \<in> set recs \<Longrightarrow>
      map_of rec ''path'' = Some (Path ns rs) \<Longrightarrow> length ns = length rs + 1 \<Longrightarrow>
      string_prop (hd ns) ''urn'' \<in> set vs \<and> string_prop (last ns) ''urn'' = target
      \<and> (\<forall>h \<in> set (path_hops ns rs). \<lparr>efrom = ph_from h, eto = ph_to h, evalid = ph_valid h\<rparr> \<in> G)"
begin

lemma path_coexists:
  "length ns = length rs + 1 \<Longrightarrow> (\<And>h. h \<in> set (path_hops ns rs) \<Longrightarrow> \<lparr>efrom = ph_from h, eto = ph_to h, evalid = ph_valid h\<rparr> \<in> G) \<Longrightarrow>
     (\<And>h. h \<in> set (path_hops ns rs) \<Longrightarrow> t \<in> instants (ph_valid h)) \<Longrightarrow>
     coexist {} G srcs W t n (string_prop (hd ns) ''urn'') \<Longrightarrow>
     coexist {} G srcs W t (n + length (path_hops ns rs)) (string_prop (last ns) ''urn'')"
proof (induction ns rs arbitrary: n rule: path_hops.induct)
  case (1 a b ns r rs)
  let ?e = "\<lparr>efrom = string_prop a ''urn'', eto = string_prop b ''urn'', evalid = interval_of r\<rparr>"
  have "?e \<in> G" "t \<in> instants (evalid ?e)" using "1.prems"(2,3) [of "path_hop a b r"] by (simp_all add: path_hop_def)
  then have "coexist {} G srcs W t (Suc n) (string_prop b ''urn'')"
    using coexist.step [of "{}" G srcs W t n ?e] "1.prems"(4) by simp
  then show ?case using "1.IH" [of "Suc n"] "1.prems"(1-3) by simp
qed (auto simp: length_Suc_conv)

lemma offered_chains_walk:
  "list_all npm_urn valid \<Longrightarrow> npm_urn target \<Longrightarrow> c \<in> chains_offered query target max_len valid \<Longrightarrow>
     instants (ch_valid c) \<noteq> {} \<and> instants (ch_valid c) = shared_instants (ch_hops c)
     \<and> (\<forall>t \<in> instants (ch_valid c). coexist {} G (sources valid) always t (length (ch_hops c)) target)"
proof (induction "length valid" arbitrary: valid rule: less_induct)
  case less
  let ?t = "take source_chunk valid" and ?d = "drop source_chunk valid"
  have ne: "valid \<noteq> []" using less.prems(3) by (auto simp: chains_offered.simps)
  have all: "list_all npm_urn ?t" "list_all npm_urn ?d"
    using less.prems(1) by (auto simp: list_all_iff dest: in_set_takeD in_set_dropD)
  note mono = coexist_more_sources [of "{}" G "sources us" always _ _ _ "sources valid" for us]
  have sub: "set (sources us) \<subseteq> set (sources valid)" if "set us \<subseteq> set valid" for us using that by (auto simp: sources_def)
  show ?case
  proof (cases "c \<in> chains_offered query target max_len ?d")
    case True
    have "length ?d < length valid" using ne by (simp add: source_chunk_def)
    from less.hyps [OF this all(2) less.prems(2) True] show ?thesis using mono [OF _ sub [OF set_drop_subset]] by blast
  next
    case False
    then obtain recs rec ns rs where r: "query (proof_stmt ?t target max_len) = Inr recs" "rec \<in> set recs" "map_of rec ''path'' = Some (Path ns rs)"
      "coexistence_chain ns rs = Some c"
      using less.prems(3) ne by (auto simp: chains_offered.simps [of _ _ _ valid] chains_in_def split: sum.splits)
    note P = coexistence_chain_parts [OF r(4)]
    have len: "length ns = length rs + 1" using r(4) by (simp add: coexistence_chain_spec)
    have "?t \<noteq> []" using ne by (simp add: source_chunk_def)
    note W = walks [OF this all(1) less.prems(2) r(1-3) len]
    have "coexist {} G (sources ?t) always t (length (ch_hops c)) target" if t: "t \<in> instants (ch_valid c)" for t
    proof -
      have "\<lparr>eurn = string_prop (hd ns) ''urn'', espan = always\<rparr> \<in> set (sources ?t)" using W by (auto simp: sources_def)
      moreover have shared: "t \<in> instants always" "\<And>h. h \<in> set (path_hops ns rs) \<Longrightarrow> t \<in> instants (ph_valid h)"
        using t P(1,2) by (auto simp: shared_instants_def)
      ultimately have "coexist {} G (sources ?t) always t 0 (string_prop (hd ns) ''urn'')"
        using coexist.source [of "\<lparr>eurn = string_prop (hd ns) ''urn'', espan = always\<rparr>" "sources ?t" "{}" t always G] by simp
      from path_coexists [OF len _ shared(2) this] W show ?thesis by (simp add: P(1))
    qed
    then show ?thesis using P mono [OF _ sub [OF set_take_subset]] by blast
  qed
qed

end


lemma proof_path_shortest:
  assumes "path_source query G" "proof_path query srcs target d = Inr res"
  defines "offers \<equiv> chains_offered query target (if d \<le> 0 then default_max_depth else d) (List.filter npm_urn srcs)"
  shows "case res of
      None \<Rightarrow> offers = {}
    | Some c \<Rightarrow> c \<in> offers \<and> (\<forall>c' \<in> offers. length (ch_hops c) \<le> length (ch_hops c'))
        \<and> instants (ch_valid c) \<noteq> {} \<and> instants (ch_valid c) = shared_instants (ch_hops c)
        \<and> (\<forall>t \<in> instants (ch_valid c). coexist {} G (sources srcs) always t (length (ch_hops c)) target)"
proof -
  let ?V = "List.filter npm_urn srcs"
  have target: "npm_urn target" using assms(2) by (auto simp: proof_path_def Let_def split: if_splits)
  have short: "is_shortest offers res"
  proof (cases "?V = []")
    case True
    then show ?thesis using assms(2) target by (simp add: proof_path_def offers_def is_shortest_def chains_offered.simps Let_def)
  next
    case False
    then have "proof_chunks query target (if d \<le> 0 then default_max_depth else d) ?V None = Inr res"
      using assms(2) target by (simp add: proof_path_def Let_def)
    from proof_chunks_shortest [OF _ this, of "{}"] show ?thesis by (simp add: is_shortest_def offers_def)
  qed
  show ?thesis
  proof (cases res)
    case None
    then show ?thesis using short by (simp add: is_shortest_def)
  next
    case (Some c)
    then have c: "c \<in> offers" "\<forall>c' \<in> offers. length (ch_hops c) \<le> length (ch_hops c')" using short by (simp_all add: is_shortest_def)
    have all: "list_all npm_urn ?V" by (simp add: list_all_iff)
    note W = path_source.offered_chains_walk [OF assms(1) all target c(1) [unfolded offers_def]]
    have "set (sources ?V) \<subseteq> set (sources srcs)" by (auto simp: sources_def)
    then show ?thesis unfolding Some option.case using c W coexist_more_sources by blast
  qed
qed

lemma proof_path_evidence:
  assumes "path_source query G" "proof_path query srcs target d = Inr (Some c)"
  shows "instants (ch_valid c) \<noteq> {} \<and> (\<forall>t \<in> instants (ch_valid c). coexist {} G (sources srcs) always t (length (ch_hops c)) target)"
  using proof_path_shortest [OF assms] unfolding option.case by blast

text \<open>C29: the proof returned is one of the walks the database offered from a known source to the target, no other offered
  walk whose edges share an instant is shorter, and at every instant of the span given with it the target is reached along
  it; there is such an instant. When no proof is returned, none of the offered walks coexists.\<close>

theorem proof_path_is_evidence:
  assumes "path_source query G" "proof_path query srcs target d = Inr res"
  defines "offers \<equiv> chains_offered query target (if d \<le> 0 then default_max_depth else d) (List.filter npm_urn srcs)"
  shows "case res of
      None \<Rightarrow> offers = {}
    | Some c \<Rightarrow> c \<in> offers \<and> (\<forall>c' \<in> offers. length (ch_hops c) \<le> length (ch_hops c'))
        \<and> instants (ch_valid c) \<noteq> {} \<and> instants (ch_valid c) = shared_instants (ch_hops c)
        \<and> (\<forall>t \<in> instants (ch_valid c). coexist {} G (sources srcs) always t (length (ch_hops c)) target)"
  using proof_path_shortest [OF assms(1,2)] unfolding offers_def .

lemma version_chains_from:
  "version_chains query srcs depth targets best = Inr (Some c) \<Longrightarrow>
     best = Some c \<or> (\<exists>target \<in> set targets. proof_path query srcs target depth = Inr (Some c))"
proof (induction query srcs depth targets best rule: version_chains.induct)
  case (2 query srcs depth target targets best)
  then obtain res where res: "proof_path query srcs target depth = Inr res" by (auto split: sum.splits)
  show ?case
  proof (cases res)
    case None
    then show ?thesis using 2 res by auto
  next
    case (Some c0)
    then have "shorter best c0 = Some c \<or> (\<exists>target \<in> set targets. proof_path query srcs target depth = Inr (Some c))"
      using 2 res by auto
    then show ?thesis using Some res by (auto simp: shorter_def split: option.splits if_splits)
  qed
qed simp

lemma package_chains_from:
  "package_chains query srcs depth reached pkgs = Inr out \<Longrightarrow>
     List.map pc_package out = pkgs \<and> (\<forall>p \<in> set out. \<forall>c. pc_chain p = Some c \<longrightarrow>
       (\<exists>v \<in> set (versions_of reached (pc_package p)). proof_path query srcs v depth = Inr (Some c)))"
proof (induction pkgs arbitrary: out)
  case (Cons pkg pkgs)
  then obtain best rest where b: "version_chains query srcs depth (sort_strings (versions_of reached pkg)) None = Inr best"
    "package_chains query srcs depth reached pkgs = Inr rest" "out = \<lparr>pc_package = pkg, pc_chain = best\<rparr> # rest"
    by (auto split: sum.splits)
  have "\<exists>v \<in> set (versions_of reached pkg). proof_path query srcs v depth = Inr (Some c)" if "best = Some c" for c
    using version_chains_from [OF b(1) [unfolded that]] by auto
  then show ?case using Cons.IH [OF b(2)] b(3) by auto
qed simp



subsection \<open>A table of paths as the database\<close>

text \<open>The URNs a proof statement quotes are the sources and then the target.\<close>

lemma itoa_free: "\<not> is_digit c \<Longrightarrow> c \<noteq> CHR ''-'' \<Longrightarrow> c \<notin> set (itoa k)"
  by (auto simp: itoa_def utoa_free)

lemma proof_stmt_values:
  assumes "vs \<noteq> []" "list_all npm_urn vs" "npm_urn target"
  shows "List.filter npm_urn (split_str (proof_stmt vs target k) [CHR 0x27]) = vs @ [target]"
proof -
  let ?post = "[''], targetLabel: '', ''Version'', '', targetProperty: '', ''urn'', '', targetValues: ['', target, ''], relTypes: ['', ''RESOLVES_TO'',
    ''], relDirection: '', ''outgoing'', '', maxLen: '' @ itoa k @ '', pathCount: 64, resultLimit: '' @ utoa result_limit @ ''}) YIELD path RETURN path'']"
  let ?front = "[''CALL algo.MSpaths({sourceLabel: '', ''Version'', '', sourceProperty: '', ''urn'', '', sourceValues: ['']"
  have plain: "CHR ''@'' \<notin> set (itoa k)" "CHR 0x27 \<notin> set (itoa k)" by (simp_all add: itoa_free is_digit_iff)
  have st: "proof_stmt vs target k = join_str [CHR 0x27] (?front @ interleave vs @ ?post)"
    using join_interleave [OF assms(1), of "hd ?post" "tl ?post"] assms(1)
    by (cases "interleave vs") (auto simp: proof_stmt_def quoted_def)
  have sp: "split_str (join_str [CHR 0x27] (?front @ interleave vs @ ?post)) [CHR 0x27] = ?front @ interleave vs @ ?post"
  proof (rule split_join_byte)
    fix x assume "x \<in> set (?front @ interleave vs @ ?post)"
    then show "CHR 0x27 \<notin> set x"
      using interleave_chars [of x vs] npm_urn_chars assms(2,3) plain by (auto simp: list_all_iff utoa_free is_digit_iff)
  qed simp
  have mid: "List.filter npm_urn (interleave vs) = vs"
  proof -
    have "\<not> npm_urn '', ''" by (rule npm_urn_no) simp
    then show ?thesis using assms(2) by (induction vs rule: interleave.induct) simp_all
  qed
  have ends: "List.filter npm_urn ?front = []" "List.filter npm_urn ?post = [target]"
    using plain assms(3) by (simp_all add: npm_urn_no utoa_free is_digit_iff)
  show ?thesis unfolding st sp filter_append mid ends by (rule append_Nil)
qed

definition path_record :: "props list \<times> props list \<Rightarrow> grecord" where
  "path_record p = [(''path'', Path (fst p) (snd p))]"

definition path_table :: "(props list \<times> props list) list \<Rightarrow> query_fun" where
  "path_table ps stmt =
     (let vs = List.filter npm_urn (split_str stmt [CHR 0x27]) in
      Inr (List.map path_record (List.filter (\<lambda>p. string_prop (hd (fst p)) ''urn'' \<in> set (butlast vs)
        \<and> string_prop (last (fst p)) ''urn'' = last vs) ps)))"

definition path_edges :: "(props list \<times> props list) list \<Rightarrow> edge set" where
  "path_edges ps = {\<lparr>efrom = ph_from h, eto = ph_to h, evalid = ph_valid h\<rparr> | h p. p \<in> set ps \<and> h \<in> set (path_hops (fst p) (snd p))}"

interpretation tabled: path_source "path_table ps" "path_edges ps" for ps
proof
  fix vs target max_len recs rec ns rs
  assume ne: "vs \<noteq> []" and vs: "list_all npm_urn vs" "npm_urn target" and q: "path_table ps (proof_stmt vs target max_len) = Inr recs" "rec \<in> set recs"
    and p: "map_of rec ''path'' = Some (Path ns rs)" and len: "length ns = length rs + 1"
  have "(ns, rs) \<in> set ps \<and> string_prop (hd ns) ''urn'' \<in> set vs \<and> string_prop (last ns) ''urn'' = target"
    using q p by (auto simp: path_table_def proof_stmt_values [OF ne vs] Let_def path_record_def)
  then show "string_prop (hd ns) ''urn'' \<in> set vs \<and> string_prop (last ns) ''urn'' = target
      \<and> (\<forall>h \<in> set (path_hops ns rs). \<lparr>efrom = ph_from h, eto = ph_to h, evalid = ph_valid h\<rparr> \<in> path_edges ps)"
    unfolding path_edges_def by force
qed


abbreviation two_ways :: "(props list \<times> props list) list" where
  "two_ways \<equiv> [([urn_props ''pkg:npm/a@1'', urn_props ''pkg:npm/b@1''], [window_props 10 20]),
     ([urn_props ''pkg:npm/a@1'', urn_props ''pkg:npm/c@1'', urn_props ''pkg:npm/b@1''], [window_props 5 9, window_props 5 9])]"

abbreviation short_chain :: chain where
  "short_chain \<equiv> \<lparr>ch_hops = [\<lparr>ph_from = ''pkg:npm/a@1'', ph_to = ''pkg:npm/b@1'', ph_range = [], ph_valid = iv 10 20\<rparr>], ch_valid = iv 10 20\<rparr>"

lemma pin_b: "npm_urn ''pkg:npm/b@1''"
  by (simp add: npm_urn_def npm_package_urn_def npm_name_def plain_name_def scope_char_def version_char_def is_digit_iff less_eq_char_def)

lemma two_ways_answer: "path_table two_ways (proof_stmt [''pkg:npm/a@1''] ''pkg:npm/b@1'' k) = Inr (List.map path_record two_ways)"
proof -
  have vals: "List.filter npm_urn (split_str (proof_stmt [''pkg:npm/a@1''] ''pkg:npm/b@1'' k) [CHR 0x27]) = [''pkg:npm/a@1''] @ [''pkg:npm/b@1'']"
    by (rule proof_stmt_values) (use pin_a pin_b in simp_all)
  show ?thesis unfolding path_table_def vals by (simp add: Let_def string_prop_def getd_def as_str_def)
qed

lemma two_ways_chains:
  "coexistence_chain [urn_props ''pkg:npm/a@1'', urn_props ''pkg:npm/b@1''] [window_props 10 20] = Some short_chain"
  "coexistence_chain [urn_props ''pkg:npm/a@1'', urn_props ''pkg:npm/c@1'', urn_props ''pkg:npm/b@1''] [window_props 5 9, window_props 5 9] =
     Some \<lparr>ch_hops = [\<lparr>ph_from = ''pkg:npm/a@1'', ph_to = ''pkg:npm/c@1'', ph_range = [], ph_valid = iv 5 9\<rparr>,
       \<lparr>ph_from = ''pkg:npm/c@1'', ph_to = ''pkg:npm/b@1'', ph_range = [], ph_valid = iv 5 9\<rparr>], ch_valid = iv 5 9\<rparr>"
  by (simp_all add: coexistence_chain_def path_hop_def string_prop_def getd_def as_str_def interval_of_def int_prop_def as_int_def
      intersect_def always_def open_interval_def iv_empty_def Let_def)

lemma two_ways_proof: "proof_path (path_table two_ways) [''pkg:npm/a@1''] ''pkg:npm/b@1'' 3 = Inr (Some short_chain)"
proof -
  have "foldl note_path None (List.map path_record two_ways) = Some short_chain"
    by (simp add: note_path_def path_record_def two_ways_chains shorter_def)
  then show ?thesis
    using pin_a pin_b
    by (simp add: proof_path_def Let_def proof_chunks.simps [of _ _ _ "[_]"] proof_chunks.simps [of _ _ _ "[]"] source_chunk_def two_ways_answer del: list.map)
qed

theorem proof_path_is_evidence_witness:
  "proof_path (path_table two_ways) [''pkg:npm/a@1''] ''pkg:npm/b@1'' 3 = Inr (Some short_chain)
     \<and> coexist {} (path_edges two_ways) (sources [''pkg:npm/a@1'']) always 15 1 ''pkg:npm/b@1''"
  using proof_path_is_evidence [OF tabled.path_source_axioms two_ways_proof] two_ways_proof by (simp add: instants_def)

text \<open>The audit of the same graph at instant 5: b is reached then, along c.\<close>

abbreviation two_ways_edges :: "edge list" where
  "two_ways_edges \<equiv> [\<lparr>efrom = ''pkg:npm/a@1'', eto = ''pkg:npm/b@1'', evalid = iv 10 20\<rparr>,
     \<lparr>efrom = ''pkg:npm/a@1'', eto = ''pkg:npm/c@1'', evalid = iv 5 9\<rparr>, \<lparr>efrom = ''pkg:npm/c@1'', eto = ''pkg:npm/b@1'', evalid = iv 5 9\<rparr>]"

lemma two_ways_reach:
  "\<exists>r seen. reach (table_out two_ways_edges) (sources [''pkg:npm/a@1'']) \<lparr>owithin = at_instant 5, max_depth = 3\<rparr> = Inr (r, seen)
     \<and> coexistence r = [(''pkg:npm/a@1'', [iv 5 6]), (''pkg:npm/c@1'', [iv 5 6]), (''pkg:npm/b@1'', [iv 5 6])]
     \<and> List.map eurn (rsources r) = [''pkg:npm/a@1'']"
  by (simp add: reach_def with_defaults_def union_pass_def numeral_3_eq_3 mark_def take_edge_def table_out_def at_instant_def
      sources_def replay_def start_entry_def offer_def follow_def replay_round_def insert_iv_def covers_def
      iv_empty_def always_def intersect_def open_interval_def getd_def Let_def)


definition audit_of :: "reach_result \<Rightarrow> audit_result" where
  "audit_of r = \<lparr>a_project = ''app'', a_format = ''npm'', a_pins = 1, a_sources = 1, a_reach = Some r, a_keyholders = [], a_union_keyholders = 0,
     a_signals = [], a_scores = [], a_weights = default_weights, a_cuts = []\<rparr>"

lemma two_ways_holder:
  assumes "coexistence r = [(''pkg:npm/a@1'', [iv 5 6]), (''pkg:npm/c@1'', [iv 5 6]), (''pkg:npm/b@1'', [iv 5 6])]"
    and "List.map eurn (rsources r) = [''pkg:npm/a@1'']"
  shows "holder_chains (path_table two_ways) (audit_of r) [''pkg:npm/b''] 3 = Inr [\<lparr>pc_package = ''pkg:npm/b'', pc_chain = Some short_chain\<rparr>]"
proof -
  have "locked_versions (audit_of r) = [''pkg:npm/a@1'']" using assms(2) by (simp add: locked_versions_def audit_of_def sort_strings_def)
  moreover have "sort_strings (versions_of (coexistence r) ''pkg:npm/b'') = [''pkg:npm/b@1'']"
    by (simp add: versions_of_def assms(1) keys_def package_urn_of_def sort_strings_def)
  moreover have "a_reach (audit_of r) = Some r" by (simp add: audit_of_def)
  ultimately show ?thesis
    by (simp only: holder_chains_def option.case package_chains.simps version_chains.simps two_ways_proof sum.case shorter_def)
qed


text \<open>The proof does not know the window of the audit: at instant 5 the project reaches b along c, and the proof given for b
  is the shorter walk, which held from 10 on only.\<close>

theorem proof_ignores_window:
  "\<exists>r seen c. reach (table_out two_ways_edges) (sources [''pkg:npm/a@1'']) \<lparr>owithin = at_instant 5, max_depth = 3\<rparr> = Inr (r, seen)
     \<and> reached_at r 5 = [''pkg:npm/a@1'', ''pkg:npm/c@1'', ''pkg:npm/b@1'']
     \<and> holder_chains (path_table two_ways) (audit_of r) [''pkg:npm/b''] 3 = Inr [\<lparr>pc_package = ''pkg:npm/b'', pc_chain = Some c\<rparr>]
     \<and> 5 \<notin> instants (ch_valid c)"
proof -
  obtain r seen where r: "reach (table_out two_ways_edges) (sources [''pkg:npm/a@1'']) \<lparr>owithin = at_instant 5, max_depth = 3\<rparr> = Inr (r, seen)"
    "coexistence r = [(''pkg:npm/a@1'', [iv 5 6]), (''pkg:npm/c@1'', [iv 5 6]), (''pkg:npm/b@1'', [iv 5 6])]"
    "List.map eurn (rsources r) = [''pkg:npm/a@1'']" using two_ways_reach by (elim exE conjE) (rule that)
  have "reached_at r 5 = [''pkg:npm/a@1'', ''pkg:npm/c@1'', ''pkg:npm/b@1'']" by (simp add: reached_at_def r(2) iv_contains_def)
  moreover have "5 \<notin> instants (ch_valid short_chain)" by (simp add: instants_def)
  ultimately show ?thesis using r(1) two_ways_holder [OF r(2,3)] by blast
qed

end
