(* ===== verification/View.thy ===== *)
theory View
  imports Risk Lockfile
begin

text \<open>
  The audit as it is shown and stored: \<open>internal/query/view.go\<close>, the counts and the shape that the command line and
  the web interface share, and \<open>internal/query/record.go\<close>, which writes a project and its pins into the graph. A
  \<open>float64\<close> is a real number, as in the audit; the hash of the lockfile is a parameter.
\<close>

subsection \<open>Counts\<close>

record counts =
  ct_coexistence_packages :: nat
  ct_coexistence_versions :: nat
  ct_union_packages :: nat
  ct_union_versions :: nat

text \<open>What an audit reached; an audit that searched nothing has an empty result.\<close>

definition audit_coexistence :: "audit_result \<Rightarrow> reached" where
  "audit_coexistence a = (case a_reach a of None \<Rightarrow> [] | Some r \<Rightarrow> coexistence r)"

definition audit_union :: "audit_result \<Rightarrow> string list" where
  "audit_union a = (case a_reach a of None \<Rightarrow> [] | Some r \<Rightarrow> union_set r)"

definition audit_edges :: "audit_result \<Rightarrow> edge_map" where
  "audit_edges a = (case a_reach a of None \<Rightarrow> [] | Some r \<Rightarrow> edges r)"

definition counts_of :: "audit_result \<Rightarrow> counts" where
  "counts_of a =
     (let co = packages_of (keys (audit_coexistence a)); un = packages_of (audit_union a) in
      \<lparr>ct_coexistence_packages = length co, ct_coexistence_versions = length (audit_coexistence a),
       ct_union_packages = length un, ct_union_versions = length (audit_union a)\<rparr>)"

subsection \<open>The graph of packages\<close>

record graph_node_view =
  gn_package :: string
  gn_coexistent :: bool

record graph_edge_view =
  ge_from :: string
  ge_to :: string
  ge_coexistent :: bool

record graph_view =
  gv_nodes :: "graph_node_view list"
  gv_edges :: "graph_edge_view list"

definition package_edge :: "edge \<Rightarrow> (string \<times> string) option" where
  "package_edge e =
     (let f = package_urn_of (efrom e); t = package_urn_of (eto e) in
      if f = [] \<or> t = [] \<or> f = t then None else Some (f, t))"

definition package_edges :: "edge_map \<Rightarrow> (string \<times> string) list" where
  "package_edges m = collect (List.map_filter package_edge (concat (List.map snd m)))"

definition new_graph_view :: "audit_result \<Rightarrow> graph_view" where
  "new_graph_view a =
     (let coexistent = packages_of (keys (audit_coexistence a)) in
      \<lparr>gv_nodes = List.map (\<lambda>p. \<lparr>gn_package = p, gn_coexistent = p \<in> set coexistent\<rparr>) (packages_of (audit_union a)),
       gv_edges = List.map (\<lambda>(f, t). \<lparr>ge_from = f, ge_to = t, ge_coexistent = f \<in> set coexistent \<and> t \<in> set coexistent\<rparr>)
         (package_edges (audit_edges a))\<rparr>)"

subsection \<open>The view of an audit\<close>

record fraction_view =
  fv_count :: nat
  fv_of :: nat
  fv_known :: bool

record term_view =
  tv_name :: string
  tv_value :: real
  tv_weight :: real
  tv_known :: bool
  tv_contribution :: real
  tv_detail :: string

record keyholder_view =
  kv_handle :: string
  kv_packages :: nat
  kv_holds :: "string list"
  kv_since :: int
  kv_risk :: real
  kv_terms :: "term_view list"
  kv_solo :: fraction_view
  kv_no_provenance :: fraction_view
  kv_install_script :: fraction_view
  kv_last_publish :: int
  kv_last_release :: int

record cut_view =
  uv_handle :: string
  uv_controls :: nat
  uv_packages_lost :: nat
  uv_versions_lost :: int
  uv_downstream :: nat
  uv_orphaned :: "string list"
  uv_irreplaceable :: bool

record audit_view =
  av_project :: string
  av_format :: string
  av_pins :: nat
  av_sources :: nat
  av_keyholders :: "keyholder_view list"
  av_keyholder_count :: nat
  av_union_keyholders :: nat
  av_phantom_keyholders :: int
  av_packages_reached :: nat
  av_union_packages_reached :: nat
  av_versions_reached :: nat
  av_union_versions_reached :: nat
  av_cuts :: "cut_view list"
  av_weights :: weights
  av_depth :: nat
  av_truncated :: bool
  av_kappa :: rat
  av_elapsed_ms :: int
  av_graph :: graph_view

definition view_fraction :: "fraction \<Rightarrow> fraction_view" where
  "view_fraction f = \<lparr>fv_count = f_count f, fv_of = f_of f, fv_known = fraction_known f\<rparr>"

definition view_term :: "score_term \<Rightarrow> term_view" where
  "view_term t = \<lparr>tv_name = t_name t, tv_value = t_value t, tv_weight = t_weight t, tv_known = t_known t,
     tv_contribution = contribution t, tv_detail = t_detail t\<rparr>"

definition view_keyholder :: "audit_result \<Rightarrow> keyholder \<Rightarrow> keyholder_view" where
  "view_keyholder a k =
     (let s = getd no_signals (a_signals a) (k_handle k); sc = getd \<lparr>sc_total = 0, sc_terms = []\<rparr> (a_scores a) (k_handle k) in
      \<lparr>kv_handle = k_handle k, kv_packages = packages_held k, kv_holds = sort_strings (keys (k_through k)), kv_since = k_since k,
       kv_risk = sc_total sc, kv_terms = List.map view_term (sc_terms sc), kv_solo = view_fraction (s_solo s),
       kv_no_provenance = view_fraction (s_no_provenance s), kv_install_script = view_fraction (s_install_script s),
       kv_last_publish = s_last_publish s, kv_last_release = s_last_release s\<rparr>)"

definition view_cut :: "cut \<Rightarrow> cut_view" where
  "view_cut c = \<lparr>uv_handle = c_handle c, uv_controls = c_controls c, uv_packages_lost = c_packages c, uv_versions_lost = c_versions c,
     uv_downstream = c_beyond c, uv_orphaned = c_orphaned c, uv_irreplaceable = irreplaceable c\<rparr>"

definition new_audit_view :: "audit_result \<Rightarrow> int \<Rightarrow> audit_view" where
  "new_audit_view a elapsed_ms =
     (let r = counts_of a in
      \<lparr>av_project = a_project a, av_format = a_format a, av_pins = a_pins a, av_sources = a_sources a,
       av_keyholders = List.map (view_keyholder a) (a_keyholders a), av_keyholder_count = length (a_keyholders a),
       av_union_keyholders = a_union_keyholders a, av_phantom_keyholders = phantom_keyholders a,
       av_packages_reached = ct_coexistence_packages r, av_union_packages_reached = ct_union_packages r,
       av_versions_reached = ct_coexistence_versions r, av_union_versions_reached = ct_union_versions r,
       av_cuts = List.map view_cut (a_cuts a), av_weights = a_weights a,
       av_depth = (case a_reach a of None \<Rightarrow> 0 | Some r \<Rightarrow> depth_reached r),
       av_truncated = (case a_reach a of None \<Rightarrow> False | Some r \<Rightarrow> truncated r),
       av_kappa = (case a_reach a of None \<Rightarrow> 0 | Some r \<Rightarrow> kappa r), av_elapsed_ms = elapsed_ms, av_graph = new_graph_view a\<rparr>)"

subsection \<open>Recording a project\<close>

definition upsert_project :: string where
  "upsert_project = ''UNWIND $rows AS row MERGE (n {id: row.vertex}) SET n:Project, n.urn = row.urn, n.name = row.name, ''
     @ ''n.lockfile_sha = row.sha, n.locked_at = row.locked_at, n.format = row.format''"

definition link_locks :: string where
  "link_locks = ''UNWIND $rows AS row MATCH (s:Project {id: row.src}), (d:Version {id: row.dst}) ''
     @ ''MERGE (s)-[r:LOCKS {id: row.id}]->(d) SET r.locked_at = row.locked_at, r.direct = row.direct, r.dev = row.dev''"

definition project_row :: "string \<Rightarrow> string \<Rightarrow> string \<Rightarrow> int \<Rightarrow> row" where
  "project_row project format sha t =
     [(''vertex'', PInt (node_id (project_urn project))), (''urn'', PStr (project_urn project)), (''name'', PStr project),
      (''sha'', PStr sha), (''locked_at'', PInt t), (''format'', PStr format)]"

definition locks_row :: "string \<Rightarrow> int \<Rightarrow> pin \<Rightarrow> row" where
  "locks_row project t p =
     (let urn = project_urn project; version = version_urn ''npm'' (pin_name p) (pin_version p) in
      [(''id'', PInt (edge_id urn ''LOCKS'' version [])), (''src'', PInt (node_id urn)), (''dst'', PInt (node_id version)),
       (''locked_at'', PInt t), (''direct'', PBool (pin_direct p)), (''dev'', PBool (pin_dev p))])"

definition record_lockfile ::
  "'w runner \<Rightarrow> (err \<Rightarrow> bool) \<Rightarrow> ('w \<Rightarrow> err option) \<Rightarrow> (string \<Rightarrow> string) \<Rightarrow> lockfile \<Rightarrow> string \<Rightarrow> int \<Rightarrow> 'w \<Rightarrow> nat \<times> err option \<times> 'w" where
  "record_lockfile run transient ended sha256 lf raw t w =
     (if lf_project lf = [] then (0, Some (Msg ''cannot record a lockfile with no project name''), w)
      else case write_batch run transient ended upsert_project [project_row (lf_project lf) (lf_format lf) (sha256 raw) t] default_batch w of
          (_, Some e, w1) \<Rightarrow> (0, Some (Wrap (''write project '' @ lf_project lf) e), w1)
        | (_, None, w1) \<Rightarrow>
            (case write_batch run transient ended link_locks (List.map (locks_row (lf_project lf) t) (lf_pins lf)) default_batch w1 of
               (_, Some e, w2) \<Rightarrow> (0, Some (Wrap (''write locks edges for '' @ lf_project lf) e), w2)
             | (written, None, w2) \<Rightarrow> (written, None, w2)))"

subsection \<open>The view shows the search\<close>

lemma take_edges_keys: "distinct (keys m) \<Longrightarrow> distinct (keys (fst (foldl take_edge (m, sn) es)))"
proof (induction es arbitrary: m sn)
  case (Cons e es)
  have one: "take_edge (m, sn) e = (put (efrom e) (getd [] m (efrom e) @ [e]) m, mark sn (eto e))" by (simp add: take_edge_def)
  show ?case unfolding foldl.simps one by (rule Cons.IH) (rule distinct_keys_put [OF Cons.prems])
qed simp

lemma union_loop_keys:
  "union_loop out k depth frontier st = Inr (st', b) \<Longrightarrow> distinct (keys (u_edges st)) \<Longrightarrow> distinct (keys (u_edges st'))"
proof (induction out k depth frontier st rule: union_loop.induct)
  case (2 out k depth frontier st)
  show ?case
  proof (cases "frontier = []")
    case False
    then obtain es where es: "out frontier = Inr es" using "2.prems"(1) by (auto split: sum.splits)
    obtain m seen nxt where f: "foldl take_edge (u_edges st, u_seen st, []) es = (m, seen, nxt)" by (metis prod_cases3)
    have "distinct (keys m)" using take_edges_keys [OF "2.prems"(2), of "(u_seen st, [])" es] by (simp add: f)
    then show ?thesis using "2.IH" [OF False es f [symmetric] refl refl] "2.prems"(1) False by (simp add: es f)
  qed (use 2 in simp)
qed simp

lemma alist_values:
  assumes "distinct (keys m)"
  shows "set (concat (List.map snd m)) = (\<Union>k. set (getd [] m k))"
proof -
  have "set (concat (List.map snd m)) = (\<Union>(k, v) \<in> set m. set v)" by auto
  also have "\<dots> = (\<Union>k. set (getd [] m k))"
  proof
    show "(\<Union>(k, v) \<in> set m. set v) \<subseteq> (\<Union>k. set (getd [] m k))"
      using alist_mem [OF assms, of _ _ "[]"] by fastforce
    show "(\<Union>k. set (getd [] m k)) \<subseteq> (\<Union>(k, v) \<in> set m. set v)"
    proof
      fix x assume "x \<in> (\<Union>k. set (getd [] m k))"
      then obtain k where k: "x \<in> set (getd [] m k)" by blast
      then have "k \<in> set (keys m)" using getd_notin [of k m "[]"] by fastforce
      then have "(k, getd [] m k) \<in> set m" using alist_mem [OF assms, of k "getd [] m k" "[]"] by simp
      with k show "x \<in> (\<Union>(k, v) \<in> set m. set v)" by blast
    qed
  qed
  finally show ?thesis .
qed

lemma graph_view_parts:
  assumes "edge_source out G" "reach out srcs opts = Inr (r, seen)" "a_reach a = Some r"
  defines "D \<equiv> nat (max_depth (with_defaults opts))" and "S \<equiv> eurn ` set srcs"
    and "V \<equiv> {v. \<exists>n \<le> nat (max_depth (with_defaults opts)). uwalk G (eurn ` set srcs) n v}"
    and "C \<equiv> {package_urn_of v | v. \<exists>t. \<exists>n \<le> nat (max_depth (with_defaults opts)). coexist {} G srcs (owithin (with_defaults opts)) t n v}"
  shows "set (gv_nodes (new_graph_view a)) = {\<lparr>gn_package = p, gn_coexistent = (p \<in> C)\<rparr> | p. p \<noteq> [] \<and> p \<in> package_urn_of ` V}"
    and "distinct (List.map gn_package (gv_nodes (new_graph_view a)))"
    and "set (gv_edges (new_graph_view a)) = {\<lparr>ge_from = f, ge_to = t, ge_coexistent = (f \<in> C \<and> t \<in> C)\<rparr> | f t.
      f \<noteq> [] \<and> t \<noteq> [] \<and> f \<noteq> t \<and> (\<exists>e \<in> G. \<exists>n < D. uwalk G S n (efrom e) \<and> package_urn_of (efrom e) = f \<and> package_urn_of (eto e) = t)}"
    and "\<forall>e \<in> set (gv_edges (new_graph_view a)). {ge_from e, ge_to e} \<subseteq> gn_package ` set (gv_nodes (new_graph_view a))"
proof -
  note R = edge_source.reach_correct [OF assms(1,2)]
  have co: "p \<noteq> [] \<Longrightarrow> p \<in> set (packages_of (keys (coexistence r))) \<longleftrightarrow> p \<in> C" for p
    using reach_ok_keys [OF R(1)] R(2) unfolding set_packages_of C_def by blast
  have un: "set (packages_of (union_set r)) = {p. p \<noteq> [] \<and> p \<in> package_urn_of ` V}"
    using R(3) unfolding set_packages_of V_def by blast
  show nodes: "set (gv_nodes (new_graph_view a)) = {\<lparr>gn_package = p, gn_coexistent = (p \<in> C)\<rparr> | p. p \<noteq> [] \<and> p \<in> package_urn_of ` V}"
    using un co by (auto simp: new_graph_view_def Let_def audit_coexistence_def audit_union_def assms(3))
  show "distinct (List.map gn_package (gv_nodes (new_graph_view a)))"
    by (simp add: new_graph_view_def Let_def comp_def)
  have "set (getd [] (edges r) u) = (if \<exists>n < D. uwalk G S n u then {e \<in> G. efrom e = u} else {})" for u
    using edge_source.union_pass_correct(3) [OF assms(1) R(6), of u] by (simp add: S_def D_def)
  moreover have "distinct (keys (edges r))"
  proof -
    obtain seen fr where "foldl mark ([], []) (List.map eurn srcs) = (seen, fr)" by fastforce
    then have "union_loop out (nat (max_depth (with_defaults opts))) 0 fr \<lparr>u_seen = seen, u_edges = [], u_depth = 0\<rparr> =
        Inr (\<lparr>u_seen = union_set r, u_edges = edges r, u_depth = depth_reached r\<rparr>, truncated r)"
      using R(6) by (simp add: union_pass_def)
    from union_loop_keys [OF this] show ?thesis by simp
  qed
  ultimately have read: "set (concat (List.map snd (edges r))) = {e \<in> G. \<exists>n < D. uwalk G S n (efrom e)}"
    unfolding alist_values [OF \<open>distinct (keys (edges r))\<close>] by auto
  show es: "set (gv_edges (new_graph_view a)) = {\<lparr>ge_from = f, ge_to = t, ge_coexistent = (f \<in> C \<and> t \<in> C)\<rparr> | f t.
      f \<noteq> [] \<and> t \<noteq> [] \<and> f \<noteq> t \<and> (\<exists>e \<in> G. \<exists>n < D. uwalk G S n (efrom e) \<and> package_urn_of (efrom e) = f \<and> package_urn_of (eto e) = t)}"
  proof -
    have pairs: "set (package_edges (edges r)) = {(f, t). f \<noteq> [] \<and> t \<noteq> [] \<and> f \<noteq> t \<and>
        (\<exists>e \<in> G. \<exists>n < D. uwalk G S n (efrom e) \<and> package_urn_of (efrom e) = f \<and> package_urn_of (eto e) = t)}"
      unfolding package_edges_def set_collect set_map_filter read by (auto simp: package_edge_def Let_def split: if_splits)
    have "set (gv_edges (new_graph_view a)) = (\<lambda>(f, t). \<lparr>ge_from = f, ge_to = t, ge_coexistent = (f \<in> C \<and> t \<in> C)\<rparr>) ` set (package_edges (edges r))"
      using co pairs by (auto simp: new_graph_view_def Let_def audit_coexistence_def audit_edges_def assms(3) intro!: image_cong)
    also have "\<dots> = {\<lparr>ge_from = f, ge_to = t, ge_coexistent = (f \<in> C \<and> t \<in> C)\<rparr> | f t. (f, t) \<in> set (package_edges (edges r))}"
      by (auto simp: image_iff)
    finally show ?thesis unfolding pairs by simp
  qed
  show "\<forall>e \<in> set (gv_edges (new_graph_view a)). {ge_from e, ge_to e} \<subseteq> gn_package ` set (gv_nodes (new_graph_view a))"
  proof
    fix g assume "g \<in> set (gv_edges (new_graph_view a))"
    then obtain e n where e: "e \<in> G" "n < D" "uwalk G S n (efrom e)" "ge_from g = package_urn_of (efrom e)" "ge_to g = package_urn_of (eto e)"
      "ge_from g \<noteq> []" "ge_to g \<noteq> []" unfolding es by auto
    then have "efrom e \<in> V" "eto e \<in> V" using uwalk.step [OF e(3,1)] by (auto simp: V_def D_def S_def intro: exI [of _ n] exI [of _ "Suc n"])
    then show "{ge_from g, ge_to g} \<subseteq> gn_package ` set (gv_nodes (new_graph_view a))"
      unfolding nodes using e by force
  qed
qed

text \<open>C31: the graph shown has one node for each package of the union reach, marked exactly when some version of it was
  reached by edges that share an instant, and an edge between two different packages exactly when the search read a
  resolution between versions of them; both ends of an edge are nodes, and an edge is marked when both ends are.\<close>

theorem graph_view_shows_reach:
  assumes "edge_source out G" "reach out srcs opts = Inr (r, seen)" "a_reach a = Some r"
  defines "D \<equiv> nat (max_depth (with_defaults opts))" and "S \<equiv> eurn ` set srcs"
    and "V \<equiv> {v. \<exists>n \<le> nat (max_depth (with_defaults opts)). uwalk G (eurn ` set srcs) n v}"
    and "C \<equiv> {package_urn_of v | v. \<exists>t. \<exists>n \<le> nat (max_depth (with_defaults opts)). coexist {} G srcs (owithin (with_defaults opts)) t n v}"
  shows "(set (gv_nodes (new_graph_view a)) = {\<lparr>gn_package = p, gn_coexistent = (p \<in> C)\<rparr> | p. p \<noteq> [] \<and> p \<in> package_urn_of ` V})
    \<and> (distinct (List.map gn_package (gv_nodes (new_graph_view a))))
    \<and> (set (gv_edges (new_graph_view a)) = {\<lparr>ge_from = f, ge_to = t, ge_coexistent = (f \<in> C \<and> t \<in> C)\<rparr> | f t.
      f \<noteq> [] \<and> t \<noteq> [] \<and> f \<noteq> t \<and> (\<exists>e \<in> G. \<exists>n < D. uwalk G S n (efrom e) \<and> package_urn_of (efrom e) = f \<and> package_urn_of (eto e) = t)})
    \<and> (\<forall>e \<in> set (gv_edges (new_graph_view a)). {ge_from e, ge_to e} \<subseteq> gn_package ` set (gv_nodes (new_graph_view a)))"
  unfolding D_def S_def V_def C_def by (intro conjI; rule graph_view_parts [OF assms(1-3)])

theorem graph_view_shows_reach_witness:
  "\<exists>r seen. reach (table_out broken_chain) (sources [''p'']) \<lparr>owithin = iv 0 0, max_depth = 3\<rparr> = Inr (r, seen)
     \<and> distinct (List.map gn_package (gv_nodes (new_graph_view \<lparr>a_project = [], a_format = [], a_pins = 0, a_sources = 0, a_reach = Some r,
       a_keyholders = [], a_union_keyholders = 0, a_signals = [], a_scores = [], a_weights = default_weights, a_cuts = []\<rparr>)))"
proof -
  obtain r seen where r: "reach (table_out broken_chain) (sources [''p'']) \<lparr>owithin = iv 0 0, max_depth = 3\<rparr> = Inr (r, seen)"
    using eval_broken_chain by blast
  let ?a = "\<lparr>a_project = [], a_format = [], a_pins = 0, a_sources = 0, a_reach = Some r,
       a_keyholders = [], a_union_keyholders = 0, a_signals = [], a_scores = [], a_weights = default_weights, a_cuts = []\<rparr>"
  have "a_reach ?a = Some r" by simp
  from r conjunct1 [OF conjunct2 [OF graph_view_shows_reach [OF listed.edge_source_axioms r this]]] show ?thesis by (intro exI conjI)
qed

subsection \<open>What recording leaves behind\<close>

text \<open>Recording a project that succeeds leaves the project and an edge row for every pin in the graph and nothing else
  new, and returns the number of pins; one that fails returns no count, and no edge row of it is in the graph unless
  the project is.\<close>

theorem recording_writes_pins:
  assumes "merge_store run rows_in" "record_lockfile run transient ended sha256 lf raw t w = (n, e, w')"
  defines "project \<equiv> (upsert_project, project_row (lf_project lf) (lf_format lf) (sha256 raw) t)"
    and "locks \<equiv> {link_locks} \<times> set (List.map (locks_row (lf_project lf) t) (lf_pins lf))"
  shows "rows_in w \<subseteq> rows_in w' \<and> rows_in w' \<subseteq> rows_in w \<union> insert project locks
    \<and> (e = None \<longrightarrow> n = length (lf_pins lf) \<and> rows_in w' = rows_in w \<union> insert project locks)
    \<and> (e \<noteq> None \<longrightarrow> n = 0)
    \<and> (rows_in w' \<inter> locks \<subseteq> rows_in w \<or> project \<in> rows_in w')"
proof (cases "lf_project lf = []")
  case True
  then show ?thesis using assms(2) by (auto simp: record_lockfile_def)
next
  case False
  obtain k e1 w1 where one: "write_batch run transient ended upsert_project [project_row (lf_project lf) (lf_format lf) (sha256 raw) t] default_batch w = (k, e1, w1)"
    by (metis prod_cases3)
  note W1 = merge_store.write_batch_rows [OF assms(1) one]
  have row: "{upsert_project} \<times> set [project_row (lf_project lf) (lf_format lf) (sha256 raw) t] = {project}" by (simp add: project_def)
  show ?thesis
  proof (cases e1)
    case (Some x)
    then have "w' = w1" "n = 0" "e \<noteq> None" using assms(2) False one by (auto simp: record_lockfile_def)
    then show ?thesis using W1 unfolding row by auto
  next
    case None
    obtain m e2 w2 where two: "write_batch run transient ended link_locks (List.map (locks_row (lf_project lf) t) (lf_pins lf)) default_batch w1 = (m, e2, w2)"
      by (metis prod_cases3)
    note W2 = merge_store.write_batch_rows [OF assms(1) two, folded locks_def]
    have w1: "rows_in w1 = insert project (rows_in w)" using W1 None unfolding row by auto
    have w': "w' = w2" "e = None \<longleftrightarrow> e2 = None" "n = (if e2 = None then m else 0)"
      using assms(2) False one two None by (auto simp: record_lockfile_def split: option.splits)
    show ?thesis
    proof (cases "e2 = None")
      case True
      then have "m = length (lf_pins lf)" "rows_in w2 = rows_in w1 \<union> locks" using W2 by auto
      then show ?thesis using w' w1 True by auto
    next
      case e2: False
      have "rows_in w1 \<subseteq> rows_in w2" "rows_in w2 \<subseteq> rows_in w1 \<union> locks" using W2 by auto
      then show ?thesis using w' w1 e2 by auto
    qed
  qed
qed

abbreviation sample_lock :: lockfile where
  "sample_lock \<equiv> \<lparr>lf_project = ''app'', lf_format = ''yarn.lock'', lf_pins = [\<lparr>pin_name = ''a'', pin_version = ''1'', pin_direct = False, pin_dev = False\<rparr>]\<rparr>"

theorem recording_writes_pins_witness:
  "\<exists>w'. record_lockfile mem_run (\<lambda>_. True) (\<lambda>_. None) (\<lambda>_. ''00'') sample_lock [] 5 \<lparr>mem_script = [], mem_rows = []\<rparr> = (1, None, w')
     \<and> set (mem_rows w') = {(upsert_project, project_row ''app'' ''yarn.lock'' ''00'' 5), (link_locks, locks_row ''app'' 5 (hd (lf_pins sample_lock)))}"
proof -
  obtain n e w' where r: "record_lockfile mem_run (\<lambda>_. True) (\<lambda>_. None) (\<lambda>_. ''00'') sample_lock [] 5 \<lparr>mem_script = [], mem_rows = []\<rparr> = (n, e, w')"
    by (metis prod_cases3)
  have e: "e = None"
    using r by (auto simp: record_lockfile_def write_batch_def default_batch_def max_batch_def write_chunks.simps run_chunk_def numeral_3_eq_3 mem_run_def
        split: prod.splits option.splits)
  have "n = length (lf_pins sample_lock) \<and> set (mem_rows w') = set (mem_rows \<lparr>mem_script = [], mem_rows = []\<rparr>) \<union>
      insert (upsert_project, project_row (lf_project sample_lock) (lf_format sample_lock) ''00'' 5)
        ({link_locks} \<times> set (List.map (locks_row (lf_project sample_lock) 5) (lf_pins sample_lock)))"
    using recording_writes_pins [OF mem.merge_store_axioms r] e by blast
  then have n: "n = 1" and rows: "set (mem_rows w') = {(upsert_project, project_row ''app'' ''yarn.lock'' ''00'' 5), (link_locks, locks_row ''app'' 5 (hd (lf_pins sample_lock)))}"
    by auto
  show ?thesis using r rows unfolding e n by blast
qed

end
