(* ===== verification/Config.thy ===== *)
theory Config
  imports GraphDb
begin

text \<open>
  The settings of a run (\<open>internal/config/config.go\<close>) and the connection they open (\<open>internal/graph/client.go\<close>).
  The environment variables, the files and the driver of the database are parameters.
\<close>

subsection \<open>Settings\<close>

record config =
  cf_bolt_uri :: string
  cf_bolt_user :: string
  cf_bolt_token :: string
  cf_cache_dir :: string
  cf_state_dir :: string

text \<open>The machine: an unset variable is the empty text, and \<open>os_missing\<close> is \<open>os.IsNotExist\<close>.\<close>

record machine =
  os_getenv :: "string \<Rightarrow> string"
  os_read_file :: "string \<Rightarrow> string res"
  os_missing :: "err \<Rightarrow> bool"
  os_mkdir_all :: "string \<Rightarrow> err option"

definition default_token :: string where
  "default_token = ''local-development-token-32-bytes''"

definition env_or :: "machine \<Rightarrow> string \<Rightarrow> string \<Rightarrow> string" where
  "env_or m key fallback = (let v = os_getenv m key in if v \<noteq> [] then v else fallback)"

definition load_token :: "machine \<Rightarrow> string res" where
  "load_token m =
     (let t = os_getenv m ''KEYHOLDERS_BOLT_TOKEN'' in
      if t \<noteq> [] then Inr t
      else let path = env_or m ''KEYHOLDERS_BOLT_TOKEN_FILE'' ''deploy/hydradb-data/auth-token'' in
        case os_read_file m path of
          Inr b \<Rightarrow> (let t = trim_space b in if t = [] then Inl (Msg (''token file '' @ path @ '' is empty'')) else Inr t)
        | Inl e \<Rightarrow> if os_missing m e then Inr default_token else Inl (Wrap (''read token file '' @ path) e))"

fun make_dirs :: "machine \<Rightarrow> string list \<Rightarrow> err option" where
  "make_dirs m [] = None"
| "make_dirs m (d # ds) = (case os_mkdir_all m d of Some e \<Rightarrow> Some (Wrap (''create '' @ d) e) | None \<Rightarrow> make_dirs m ds)"

definition load_config :: "machine \<Rightarrow> config res" where
  "load_config m =
     (let c = \<lparr>cf_bolt_uri = env_or m ''KEYHOLDERS_BOLT_URI'' ''bolt://127.0.0.1:7687'',
        cf_bolt_user = env_or m ''KEYHOLDERS_BOLT_USER'' ''neo4j'', cf_bolt_token = [],
        cf_cache_dir = env_or m ''KEYHOLDERS_CACHE_DIR'' ''var/cache'', cf_state_dir = env_or m ''KEYHOLDERS_STATE_DIR'' ''var/state''\<rparr> in
      case load_token m of
        Inl e \<Rightarrow> Inl e
      | Inr token \<Rightarrow>
          (let c = c\<lparr>cf_bolt_token := token\<rparr> in
           case make_dirs m [cf_cache_dir c, cf_state_dir c] of Some e \<Rightarrow> Inl e | None \<Rightarrow> Inr c))"

subsection \<open>The connection\<close>

text \<open>The Bolt driver over its own state \<open>'w\<close>: making a driver, running a statement in a session, collecting what
  it returned, and closing.\<close>

record ('d, 'r, 'w) bolt =
  bd_new :: "string \<Rightarrow> string \<Rightarrow> string \<Rightarrow> 'd res"
  bd_run :: "'d \<Rightarrow> string \<Rightarrow> 'w \<Rightarrow> 'r res \<times> 'w"
  bd_collect :: "'r \<Rightarrow> 'w \<Rightarrow> grecord list res \<times> 'w"
  bd_close :: "'d \<Rightarrow> 'w \<Rightarrow> 'w"

definition client_query :: "('d, 'r, 'w) bolt \<Rightarrow> 'd \<Rightarrow> string \<Rightarrow> 'w \<Rightarrow> grecord list res \<times> 'w" where
  "client_query b d stmt w =
     (case bd_run b d stmt w of
        (Inl e, w) \<Rightarrow> (Inl e, w)
      | (Inr res, w) \<Rightarrow> bd_collect b res w)"

definition client_close :: "('d, 'r, 'w) bolt \<Rightarrow> 'd \<Rightarrow> 'w \<Rightarrow> 'w" where
  "client_close b d w = bd_close b d w"

definition handshake_stmt :: string where
  "handshake_stmt = ''MATCH (n {id: 0}) RETURN n.id AS id''"

definition client_open :: "('d, 'r, 'w) bolt \<Rightarrow> config \<Rightarrow> 'w \<Rightarrow> 'd res \<times> 'w" where
  "client_open b c w =
     (case bd_new b (cf_bolt_uri c) (cf_bolt_user c) (cf_bolt_token c) of
        Inl e \<Rightarrow> (Inl (Wrap (''bolt driver for '' @ cf_bolt_uri c) e), w)
      | Inr d \<Rightarrow>
          (case client_query b d handshake_stmt w of
             (Inl e, w) \<Rightarrow> (Inl (Wrap (''bolt handshake with '' @ cf_bolt_uri c) e), bd_close b d w)
           | (Inr recs, w) \<Rightarrow> (Inr d, w)))"

subsection \<open>What a run starts with\<close>

lemma env_or_nonempty: "fallback \<noteq> [] \<Longrightarrow> env_or m key fallback \<noteq> []"
  by (simp add: env_or_def Let_def)

lemma load_token_nonempty: "load_token m = Inr t \<Longrightarrow> t \<noteq> []"
  by (auto simp: load_token_def default_token_def Let_def split: if_splits sum.splits)

lemma make_dirs_None: "make_dirs m ds = None \<longleftrightarrow> (\<forall>d \<in> set ds. os_mkdir_all m d = None)"
  by (induction ds) (auto split: option.splits)

text \<open>A loaded configuration leaves nothing empty, so the driver gets a user and a token; a variable that is set wins;
  both directories exist.\<close>

theorem loaded_config:
  assumes "load_config m = Inr c"
  shows "cf_bolt_uri c \<noteq> [] \<and> cf_bolt_user c \<noteq> [] \<and> cf_bolt_token c \<noteq> [] \<and> cf_cache_dir c \<noteq> [] \<and> cf_state_dir c \<noteq> []
    \<and> (os_getenv m ''KEYHOLDERS_BOLT_TOKEN'' = [] \<or> cf_bolt_token c = os_getenv m ''KEYHOLDERS_BOLT_TOKEN'')
    \<and> os_mkdir_all m (cf_cache_dir c) = None \<and> os_mkdir_all m (cf_state_dir c) = None"
proof -
  obtain token where t: "load_token m = Inr token" using assms by (auto simp: load_config_def Let_def split: sum.splits)
  have "token = os_getenv m ''KEYHOLDERS_BOLT_TOKEN'' \<or> os_getenv m ''KEYHOLDERS_BOLT_TOKEN'' = []"
    using t by (auto simp: load_token_def Let_def split: if_splits)
  then show ?thesis
    using assms t load_token_nonempty [OF t]
    by (auto simp: load_config_def Let_def env_or_nonempty split: sum.splits option.splits)
qed

text \<open>A client is handed out only when a statement has been answered over it; a refused one is closed.\<close>

theorem opened_client:
  "(case client_open b c w of
      (Inr d, w') \<Rightarrow> bd_new b (cf_bolt_uri c) (cf_bolt_user c) (cf_bolt_token c) = Inr d
        \<and> (\<exists>recs. client_query b d handshake_stmt w = (Inr recs, w'))
    | (Inl e, w') \<Rightarrow> (\<exists>e. bd_new b (cf_bolt_uri c) (cf_bolt_user c) (cf_bolt_token c) = Inl e) \<and> w' = w
        \<or> (\<exists>d e v. bd_new b (cf_bolt_uri c) (cf_bolt_user c) (cf_bolt_token c) = Inr d
            \<and> client_query b d handshake_stmt w = (Inl e, v) \<and> w' = client_close b d v))"
  by (auto simp: client_open_def client_close_def split: sum.splits prod.splits)

end
