(* ===== verification/Names.thy ===== *)
theory Names
  imports Checkpoint Registry
begin

text \<open>
  The list of package names the commands share: \<open>packages\<close> writes the names of the registry, most downloaded
  first, one to a line, and every command that works on packages reads them back with \<open>readNames\<close> and takes the
  first of them (\<open>cmd/keyholders/main.go\<close>). A file is its text.
\<close>

subsection \<open>Names\<close>

definition token_limit :: nat where
  "token_limit = 64 * 1024"

definition note_name :: "string list \<Rightarrow> string \<Rightarrow> string list" where
  "note_name names line =
     (let name = trim_space line in
      if name = [] \<or> has_prefix ''#'' name \<or> name \<in> set names then names else names @ [name])"

text \<open>\<open>readNames\<close>, given the text of the file or the error opening it.\<close>

definition read_names :: "string res \<Rightarrow> string list res" where
  "read_names file =
     (case file of
        Inl e \<Rightarrow> Inl (Wrap ''open package list'' e)
      | Inr text \<Rightarrow>
          if list_ex (\<lambda>l. length l \<ge> token_limit) (raw_lines text) then Inl (Wrap ''read package list'' err_too_long)
          else Inr (foldl note_name [] (List.map drop_cr (raw_lines text))))"

definition first_names :: "int \<Rightarrow> string list \<Rightarrow> string list" where
  "first_names limit names = (if limit > 0 \<and> limit < int (length names) then take (nat limit) names else names)"


text \<open>The names a command works on: it refuses to start without any.\<close>

definition names_for :: "string \<Rightarrow> int \<Rightarrow> string res \<Rightarrow> string list res" where
  "names_for path limit file =
     (case read_names file of
        Inl e \<Rightarrow> Inl e
      | Inr names \<Rightarrow>
          (let names = first_names limit names in
           if names = [] then Inl (Msg (path @ '' holds no package names'')) else Inr names))"

text \<open>\<open>packages\<close>: the text written, or the error fetching the names, making the directory (other than the current
  one), creating the file or flushing it.\<close>

definition packages_text :: "string list \<Rightarrow> string" where
  "packages_text names = concat (List.map (\<lambda>name. name @ [newline]) names)"

definition run_packages :: "(nat \<Rightarrow> string res) \<Rightarrow> (string \<Rightarrow> string list res) \<Rightarrow> int \<Rightarrow> string \<Rightarrow> err option \<Rightarrow> err option \<Rightarrow> err option
    \<Rightarrow> string res option" where
  "run_packages get decode top_count out mkdir create flush =
     (case top_packages get decode top_count of
        None \<Rightarrow> None
      | Some (Inl e) \<Rightarrow> Some (Inl e)
      | Some (Inr names) \<Rightarrow> Some
          (case mkdir of Some e \<Rightarrow> Inl (Wrap ''create output dir'' e)
           | None \<Rightarrow> (case create of Some e \<Rightarrow> Inl (Wrap (''create '' @ out) e)
           | None \<Rightarrow> (case flush of Some e \<Rightarrow> Inl (Wrap (''write '' @ out) e)
           | None \<Rightarrow> Inr (packages_text names)))))"

subsection \<open>What is read\<close>

lemma note_names:
  assumes "distinct acc"
  shows "distinct (foldl note_name acc ls) \<and> set (foldl note_name acc ls) =
    set acc \<union> {n. \<exists>l \<in> set ls. n = trim_space l \<and> n \<noteq> [] \<and> \<not> has_prefix ''#'' n}"
  using assms
proof (induction ls arbitrary: acc)
  case (Cons l ls)
  have "distinct (note_name acc l)"
    "set (note_name acc l) = set acc \<union> {n. n = trim_space l \<and> n \<noteq> [] \<and> \<not> has_prefix ''#'' n}"
    using Cons.prems by (auto simp: note_name_def Let_def)
  then show ?case using Cons.IH [of "note_name acc l"] by auto
qed simp

lemma read_names_set:
  assumes "read_names (Inr text) = Inr names"
  shows "distinct names \<and> set names = {n. \<exists>l \<in> set (raw_lines text). n = trim_space (drop_cr l) \<and> n \<noteq> [] \<and> \<not> has_prefix ''#'' n}"
  using assms note_names [of "[]" "List.map drop_cr (raw_lines text)"] by (auto simp: read_names_def split: if_splits)

definition listed_name :: "string \<Rightarrow> bool" where
  "listed_name n \<longleftrightarrow> n \<noteq> [] \<and> plain_char (hd n) \<and> plain_char (last n) \<and> hd n \<noteq> CHR ''#'' \<and> newline \<notin> set n \<and> length n < token_limit"

lemma listed_name_kept:
  assumes "listed_name n"
  shows "trim_space (drop_cr n) = n \<and> n \<noteq> [] \<and> \<not> has_prefix ''#'' n"
proof -
  have "plain_char (last n)" "n \<noteq> []" using assms by (simp_all add: listed_name_def)
  moreover have "\<not> plain_char (CHR 0x0D)" by (simp add: plain_char_def space_encodings_def)
  ultimately have "drop_cr n = n" unfolding drop_cr_def by metis
  moreover have "trim_space n = n" using assms by (simp add: listed_name_def trim_space_plain)
  ultimately show ?thesis using assms by (cases n) (auto simp: listed_name_def has_prefix_def)
qed

lemma note_listed:
  assumes "\<forall>n \<in> set names. listed_name n" "distinct (acc @ names)"
  shows "foldl note_name acc (List.map drop_cr names) = acc @ names"
  using assms
proof (induction names arbitrary: acc)
  case (Cons n names)
  have "trim_space (drop_cr n) = n" "n \<noteq> []" "\<not> has_prefix ''#'' n" "n \<notin> set acc"
    using listed_name_kept [of n] Cons.prems by auto
  then have "note_name acc (drop_cr n) = acc @ [n]" by (simp add: note_name_def Let_def)
  then show ?case using Cons.IH [of "acc @ [n]"] Cons.prems by simp
qed simp

text \<open>The commands read back the names \<open>packages\<close> wrote, all of them, in the order of their downloads.\<close>

theorem packages_read_back:
  assumes "\<forall>n \<in> set names. listed_name n"
    and "run_packages get decode top_count out mkdir create flush = Some (Inr text)" "top_packages get decode top_count = Some (Inr names)"
  shows "read_names (Inr text) = Inr names"
proof -
  have written: "text = packages_text names" using assms(2,3) by (auto simp: run_packages_def split: option.splits)
  have "newline \<notin> set n" if "n \<in> set names" for n using assms(1) that by (simp add: listed_name_def)
  then have lines: "raw_lines text = names"
    using raw_lines_append [of "[]" names] by (simp add: written packages_text_def raw_lines_def split_str_def)
  moreover have "\<not> list_ex (\<lambda>l. length l \<ge> token_limit) names" using assms(1) by (auto simp: list_ex_iff listed_name_def)
  ultimately show ?thesis using note_listed [of names "[]"] assms(1) top_packages_distinct [OF assms(3)] by (simp add: read_names_def)
qed

theorem packages_read_back_witness:
  "\<exists>text. run_packages (\<lambda>_. Inr []) (\<lambda>_. Inr [''@babel/core'', ''react'']) 2 ''packages.txt'' None None None = Some (Inr text)
     \<and> read_names (Inr text) = Inr [''@babel/core'', ''react'']"
proof -
  have top_two: "top_packages (\<lambda>_. Inr []) (\<lambda>_. Inr [''@babel/core'', ''react'']) 2 = Some (Inr [''@babel/core'', ''react''])"
    by (simp add: top_packages_def top_pages.simps)
  then have run: "run_packages (\<lambda>_. Inr []) (\<lambda>_. Inr [''@babel/core'', ''react'']) 2 ''packages.txt'' None None None
      = Some (Inr (packages_text [''@babel/core'', ''react'']))" by (simp add: run_packages_def)
  show ?thesis
    using packages_read_back [OF _ run top_two] run
    by (simp add: listed_name_def plain_char_def space_encodings_def token_limit_def)
qed

end
