(* ===== verification/Dates.thy ===== *)
theory Dates
  imports GoText
begin

text \<open>
  The calendar of Go's package \<open>time\<close> as the program uses it, in UTC: reading a date given on the command line or in a
  query, and writing the day of an instant, both with the layout \<open>2006-01-02\<close>. An instant is a number of seconds.
\<close>

subsection \<open>Reading\<close>

text \<open>\<open>time.Parse\<close> with the layout \<open>2006-01-02\<close>, and the instant at which the day begins.\<close>

definition leap_year :: "int \<Rightarrow> bool" where
  "leap_year y \<longleftrightarrow> y mod 4 = 0 \<and> (y mod 100 \<noteq> 0 \<or> y mod 400 = 0)"

definition month_days :: "int \<Rightarrow> int \<Rightarrow> int" where
  "month_days y m = (if m = 2 then (if leap_year y then 29 else 28) else if m \<in> {4, 6, 9, 11} then 30 else 31)"

definition day_number :: "int \<Rightarrow> int \<Rightarrow> int \<Rightarrow> int" where
  "day_number y m d =
     (let p = y - 1 in
      365 * p + p div 4 - p div 100 + p div 400 + sum_list (List.map (month_days y) [1..m - 1]) + d - 719163)"

definition digits_value :: "string \<Rightarrow> int option" where
  "digits_value s = (if s \<noteq> [] \<and> list_all is_digit s then Some (foldl (\<lambda>n c. 10 * n + (of_char c - 48)) 0 s) else None)"

definition err_date :: err where
  "err_date = Msg ''parsing time''"

definition parse_date :: "string \<Rightarrow> int res" where
  "parse_date s =
     (if length s = 10 \<and> s ! 4 = CHR ''-'' \<and> s ! 7 = CHR ''-'' then
        (case (digits_value (take 4 s), digits_value (take 2 (drop 5 s)), digits_value (drop 8 s)) of
           (Some y, Some m, Some d) \<Rightarrow>
             if 1 \<le> m \<and> m \<le> 12 \<and> 1 \<le> d \<and> d \<le> month_days y m then Inr (86400 * day_number y m d) else Inl err_date
         | _ \<Rightarrow> Inl err_date)
      else Inl err_date)"

subsection \<open>Writing\<close>

text \<open>The year of a day counted from the first of January 1970, and the day within it; then the month and the day within that.\<close>

definition year_days :: "int \<Rightarrow> int" where
  "year_days y = (if leap_year y then 366 else 365)"

function year_of :: "int \<Rightarrow> int \<Rightarrow> int \<times> int" where
  "year_of y d =
     (if d < 0 then year_of (y - 1) (d + year_days (y - 1))
      else if d < year_days y then (y, d)
      else year_of (y + 1) (d - year_days y))"
  by pat_completeness auto
termination
  by (relation "inv_image (less_than <*lex*> less_than) (\<lambda>(y, d). (if d < 0 then 1 else 0, nat \<bar>d\<bar>))")
     (auto simp: year_days_def split: if_splits)

declare year_of.simps [simp del]

function month_of :: "int \<Rightarrow> int \<Rightarrow> int \<Rightarrow> int \<times> int" where
  "month_of y m d = (if m \<ge> 12 \<or> d < month_days y m then (m, d) else month_of y (m + 1) (d - month_days y m))"
  by pat_completeness auto
termination by (relation "measure (\<lambda>(y, m, d). nat (12 - m))") auto

declare month_of.simps [simp del]

definition padded :: "nat \<Rightarrow> nat \<Rightarrow> string" where
  "padded n k = replicate (n - length (utoa k)) (CHR ''0'') @ utoa k"

text \<open>Years before the first are outside: no instant of the program is that old.\<close>

definition date_text :: "int \<Rightarrow> string" where
  "date_text t =
     (let (y, d) = year_of 1970 (t div 86400); (m, d) = month_of y 1 d in
      padded 4 (nat y) @ ''-'' @ padded 2 (nat m) @ ''-'' @ padded 2 (nat (d + 1)))"

subsection \<open>Months and years\<close>

lemma month_length: "28 \<le> month_days y m"
  by (simp add: month_days_def)

text \<open>The first of a month comes at least four weeks after the first of the month before, over the end of a year too.\<close>

lemma next_month:
  assumes "1 \<le> m" "m < 12"
  shows "day_number y (m + 1) 1 = day_number y m 1 + month_days y m"
  using assms upto_rec2 [of 1 m] by (simp add: day_number_def Let_def)

lemma div_step:
  assumes "0 < (k :: int)"
  shows "y div k = (y - 1) div k + (if y mod k = 0 then 1 else 0)"
proof (cases "y mod k = 0")
  case True
  then have "y - 1 = k * (y div k - 1) + (k - 1)" using mult_div_mod_eq [of k y] by (simp add: algebra_simps)
  then have "(y - 1) div k = y div k - 1" by (rule int_div_pos_eq) (use assms in auto)
  then show ?thesis using True by simp
next
  case False
  have "y - 1 = k * (y div k) + (y mod k - 1)" using mult_div_mod_eq [of k y] by simp
  moreover have "0 \<le> y mod k - 1" "y mod k - 1 < k" using False assms pos_mod_sign [of k y] pos_mod_bound [of k y] by linarith+
  ultimately have "(y - 1) div k = y div k" by (rule int_div_pos_eq)
  then show ?thesis using False by simp
qed

definition leap_days :: "int \<Rightarrow> int" where
  "leap_days y = y div 4 - y div 100 + y div 400"

lemma leap_step: "leap_days y = leap_days (y - 1) + (if leap_year y then 1 else 0)"
proof -
  have "y mod 400 mod 100 = y mod 100" "y mod 100 mod 4 = y mod 4" by (rule mod_mod_cancel, simp)+
  then have c: "y mod 400 = 0 \<Longrightarrow> y mod 100 = 0" "y mod 100 = 0 \<Longrightarrow> y mod 4 = 0" by auto
  let ?i = "\<lambda>k. if y mod k = 0 then 1 else (0 :: int)"
  have "leap_days y = ((y - 1) div 4 + ?i 4) - ((y - 1) div 100 + ?i 100) + ((y - 1) div 400 + ?i 400)"
    unfolding leap_days_def by (intro arg_cong2 [where f = "(+)"] arg_cong2 [where f = "(-)"] div_step) simp_all
  also have "\<dots> = leap_days (y - 1) + (?i 4 - ?i 100 + ?i 400)" by (simp only: leap_days_def algebra_simps)
  also have "?i 4 - ?i 100 + ?i 400 = (if leap_year y then 1 else 0)"
  proof -
    have "((if a then 1 else 0) - (if b then 1 else 0) + (if d then 1 else 0) :: int) = (if a \<and> (\<not> b \<or> d) then 1 else 0)"
      if "d \<Longrightarrow> b" "b \<Longrightarrow> a" for a b d using that by auto
    from this [of "y mod 400 = 0" "y mod 100 = 0" "y mod 4 = 0", OF c] show ?thesis by (simp only: leap_year_def simp_thms)
  qed
  finally show ?thesis .
qed

lemma day_number_leap:
  "day_number y m d = 365 * (y - 1) + leap_days (y - 1) + sum_list (List.map (month_days y) [1..m - 1]) + d - 719163"
  by (simp add: day_number_def leap_days_def Let_def)

lemma next_year: "day_number (y + 1) 1 1 = day_number y 12 1 + 31"
proof -
  have "[1..(11 :: int)] = [1, 2, 3, 4, 5, 6, 7, 8, 9, 10, 11]" by (simp add: upto.simps)
  then have "sum_list (List.map (month_days y) [1..11]) = (if leap_year y then 335 else 334)"
    by (simp add: month_days_def)
  then show ?thesis using leap_step [of y] by (simp add: day_number_leap)
qed


subsection \<open>A date written is read back\<close>

lemma day_in_month: "day_number y m d = day_number y m 1 + d - 1"
  by (simp add: day_number_leap)

lemma year_length: "day_number (y + 1) 1 1 = day_number y 1 1 + year_days y"
proof -
  have "[1..(11 :: int)] = [1, 2, 3, 4, 5, 6, 7, 8, 9, 10, 11]" by (simp add: upto.simps)
  then have "sum_list (List.map (month_days y) [1..11]) = (if leap_year y then 335 else 334)"
    by (simp add: month_days_def)
  then show ?thesis using next_year [of y] leap_step [of y] by (cases "leap_year y") (simp_all add: day_number_leap year_days_def)
qed

lemma year_of_spec:
  "year_of y d = (y', d') \<Longrightarrow> 0 \<le> d' \<and> d' < year_days y' \<and> day_number y' 1 1 + d' = day_number y 1 1 + d"
proof (induction y d rule: year_of.induct)
  case (1 y d)
  have e: "year_of y d = (if d < 0 then year_of (y - 1) (d + year_days (y - 1))
      else if d < year_days y then (y, d) else year_of (y + 1) (d - year_days y))" by (rule year_of.simps)
  show ?case
    using "1.IH" "1.prems" [unfolded e] year_length [of y] year_length [of "y - 1"] by (auto split: if_splits)
qed

lemma month_of_spec:
  "month_of y m d = (m', d') \<Longrightarrow> 1 \<le> m \<Longrightarrow> m \<le> 12 \<Longrightarrow> 0 \<le> d \<Longrightarrow> day_number y m 1 + d < day_number (y + 1) 1 1 \<Longrightarrow>
     1 \<le> m' \<and> m' \<le> 12 \<and> 0 \<le> d' \<and> d' < month_days y m' \<and> day_number y m' 1 + d' = day_number y m 1 + d"
proof (induction y m d rule: month_of.induct)
  case (1 y m d)
  have e: "month_of y m d = (if m \<ge> 12 \<or> d < month_days y m then (m, d) else month_of y (m + 1) (d - month_days y m))"
    by (rule month_of.simps)
  show ?case
  proof (cases "m \<ge> 12 \<or> d < month_days y m")
    case True
    then have "m' = m" "d' = d" using "1.prems"(1) e by simp_all
    moreover have "d < month_days y m"
    proof (cases "d < month_days y m")
      case False
      then have m: "m = 12" using True "1.prems"(3) by simp
      have "d < 31" using "1.prems"(5) next_year [of y] unfolding m by simp
      then show ?thesis unfolding m by (simp add: month_days_def)
    qed
    ultimately show ?thesis using "1.prems" by simp
  next
    case False
    then show ?thesis using "1.IH" "1.prems" e next_month [of m y] by simp
  qed
qed

lemma year_mono: "y \<le> z \<Longrightarrow> day_number y 1 1 \<le> day_number z 1 1"
proof (induction z rule: int_ge_induct)
  case (step z)
  then show ?case using year_length [of z] by (simp add: year_days_def split: if_splits)
qed simp

lemma foldl_digits:
  "list_all is_digit s \<Longrightarrow> foldl (\<lambda>n c. 10 * n + (of_char c - 48)) (int a) s = int (foldl (\<lambda>n c. 10 * n + digit_val c) a s)"
proof (induction s arbitrary: a)
  case (Cons c s)
  then have "int (digit_val c) = of_char c - 48" by (simp add: digit_val_def is_digit_iff of_nat_diff of_nat_of_char)
  then show ?case using Cons.IH [of "10 * a + digit_val c"] Cons.prems by simp
qed simp

lemma digits_value_padded: "digits_value (padded n k) = Some (int k)"
proof -
  have z: "foldl (\<lambda>n c. 10 * n + digit_val c) 0 (replicate l (CHR ''0'') @ s) = foldl (\<lambda>n c. 10 * n + digit_val c) 0 s" for l s
    by (induction l) (simp_all add: digit_val_def)
  have d: "list_all is_digit (padded n k)"
    using utoa_digits [of k] by (auto simp: padded_def list_all_iff is_digit_iff)
  have "padded n k \<noteq> []" by (simp add: padded_def)
  moreover have "foldl (\<lambda>n c. 10 * n + digit_val c) 0 (padded n k) = k"
    using digits_val_utoa [of k] z unfolding padded_def digits_val_def by simp
  ultimately show ?thesis using foldl_digits [OF d, of 0] d by (simp add: digits_value_def)
qed

lemma length_utoa: "0 < n \<Longrightarrow> k < 10 ^ n \<Longrightarrow> length (utoa k) \<le> n"
proof (induction n arbitrary: k)
  case (Suc n)
  show ?case
  proof (cases "k < 10")
    case False
    then have "0 < n" using Suc.prems by (cases n) auto
    moreover have "k div 10 < 10 ^ n" using Suc.prems by (simp add: less_mult_imp_div_less mult.commute)
    ultimately show ?thesis using Suc.IH [of "k div 10"] False by (subst utoa.simps) simp
  qed (subst utoa.simps, simp)
qed simp

lemma length_padded: "0 < n \<Longrightarrow> k < 10 ^ n \<Longrightarrow> length (padded n k) = n"
  using length_utoa [of n k] by (simp add: padded_def)

text \<open>The date written for an instant of the years 0 to 9999 is read back as the first second of its day.\<close>

theorem date_reads_back:
  assumes "- 62167219200 \<le> t" "t < 253402300800"
  shows "parse_date (date_text t) = Inr (86400 * (t div 86400))"
proof -
  obtain y k where y: "year_of 1970 (t div 86400) = (y, k)" by (cases "year_of 1970 (t div 86400)")
  obtain m d where m: "month_of y 1 k = (m, d)" by (cases "month_of y 1 k")
  have epoch: "day_number 1970 1 1 = 0" "day_number 0 1 1 = - 719528" "day_number 10000 1 1 = 2932897"
    by (simp_all add: day_number_def)
  note Y = year_of_spec [OF y, unfolded epoch]
  have days: "- 719528 \<le> t div 86400" "t div 86400 < 2932897" using assms by simp_all
  have "0 \<le> y"
  proof (rule ccontr)
    assume "\<not> 0 \<le> y"
    then show False using Y days(1) year_mono [of "y + 1" 0] year_length [of y] epoch by simp
  qed
  moreover have "y < 10000"
  proof (rule ccontr)
    assume "\<not> y < 10000"
    then show False using Y days(2) year_mono [of 10000 y] epoch by simp
  qed
  ultimately have y4: "nat y < 10 ^ 4" "int (nat y) = y" by simp_all
  have "day_number y 1 1 + k < day_number (y + 1) 1 1" using Y year_length [of y] by simp
  then have M: "1 \<le> m \<and> m \<le> 12 \<and> 0 \<le> d \<and> d < month_days y m \<and> day_number y m 1 + d = day_number y 1 1 + k"
    using month_of_spec [OF m] Y by simp
  have "month_days y m \<le> 31" by (simp add: month_days_def)
  then have small: "nat m < 10 ^ 2" "nat (d + 1) < 10 ^ 2" "int (nat m) = m" "int (nat (d + 1)) = d + 1" using M by (simp_all add: nat_less_iff)
  have len: "length (padded 4 (nat y)) = 4" "length (padded 2 (nat m)) = 2" "length (padded 2 (nat (d + 1))) = 2"
    by (rule length_padded; use y4 small in simp)+
  have shape: "date_text t = padded 4 (nat y) @ ''-'' @ padded 2 (nat m) @ ''-'' @ padded 2 (nat (d + 1))"
    by (simp add: date_text_def y m Let_def)
  have "t div 86400 = day_number y m (d + 1)" using M Y day_in_month [of y m "d + 1"] by simp
  moreover note digits = digits_value_padded [of 4 "nat y", unfolded y4(2)] digits_value_padded [of 2 "nat m", unfolded small(3)]
    digits_value_padded [of 2 "nat (d + 1)", unfolded small(4)]
  ultimately show ?thesis using M unfolding shape parse_date_def by (simp add: len nth_append digits)
qed

theorem date_reads_back_witness:
  "parse_date (date_text 1700000000) = Inr 1699920000"
  using date_reads_back [of 1700000000] by simp

end
