(* ===== verification/Commands.thy ===== *)
theory Commands
  imports Dates Incident Who Proof View
begin

text \<open>
  The commands of \<open>cmd/keyholders\<close> that question the graph: the options of a query, the gate a build runs
  (\<open>cicheck.go\<close>), the incident report (\<open>incident.go\<close>), \<open>scan.go\<close> and \<open>path.go\<close>. The printing of a report is left
  out, except where the text is a decision of its own.
\<close>

subsection \<open>Options\<close>

definition query_options :: "string \<Rightarrow> string \<Rightarrow> int \<Rightarrow> options res" where
  "query_options flag at_date depth =
     (if at_date = [] then Inr \<lparr>owithin = always, max_depth = depth\<rparr>
      else case parse_date at_date of
          Inl e \<Rightarrow> Inl (Wrap (''parse '' @ flag) e)
        | Inr t \<Rightarrow> Inr \<lparr>owithin = at_instant t, max_depth = depth\<rparr>)"

subsection \<open>The gate\<close>

record reached_advisory =
  ra_version :: string
  ra_advisories :: "advisory_info list"

fun advisories_loop :: "query_fun \<Rightarrow> string list \<Rightarrow> reached_advisory list res" where
  "advisories_loop query [] = Inr []"
| "advisories_loop query (urn # urns) =
     (case split_version_urn urn of
        None \<Rightarrow> advisories_loop query urns
      | Some (name, ver) \<Rightarrow>
          (case advisories_affecting query ''npm'' name ver of
             Inl e \<Rightarrow> Inl e
           | Inr found \<Rightarrow>
               (case advisories_loop query urns of
                  Inl e \<Rightarrow> Inl e
                | Inr out \<Rightarrow> Inr (if found \<noteq> [] then \<lparr>ra_version = urn, ra_advisories = found\<rparr> # out else out))))"

definition advisories_reached :: "query_fun \<Rightarrow> audit_result \<Rightarrow> reached_advisory list res" where
  "advisories_reached query a = advisories_loop query (sort_strings (keys (audit_coexistence a)))"

definition diff_keyholders :: "audit_result \<Rightarrow> audit_result \<Rightarrow> string list" where
  "diff_keyholders base head =
     sort_strings (List.filter (\<lambda>h. h \<notin> set (List.map k_handle (a_keyholders base))) (List.map k_handle (a_keyholders head)))"

text \<open>What a command works with: the files, the two decoders of JSON, the database, and the auditor's settings.\<close>

record command_env =
  ce_read :: "string \<Rightarrow> string res"
  ce_unmarshal :: "string \<Rightarrow> npm_doc res"
  ce_decode :: "string \<Rightarrow> string list option"
  ce_query :: query_fun
  ce_years :: "real \<Rightarrow> string"
  ce_weights :: weights
  ce_now :: int

definition audit_of_lock :: "command_env \<Rightarrow> lockfile \<Rightarrow> options \<Rightarrow> audit_result res" where
  "audit_of_lock env lf opts =
     audit (ce_query env) (ce_years env) (ce_weights env) (ce_now env) (lf_project lf) (lf_format lf) (List.map pin_pair (lf_pins lf)) opts"

definition audit_lockfile :: "command_env \<Rightarrow> string \<Rightarrow> options \<Rightarrow> audit_result res" where
  "audit_lockfile env path opts =
     (case ce_read env path of
        Inl e \<Rightarrow> Inl (Wrap (''read lockfile '' @ path) e)
      | Inr data \<Rightarrow>
          (case parse_lockfile (ce_unmarshal env) (ce_decode env) path data of
             Inl e \<Rightarrow> Inl e
           | Inr lf \<Rightarrow> audit_of_lock env lf opts))"

record ci_verdict =
  ci_exposures :: "reached_advisory list"
  ci_new_keyholders :: "string list"
  ci_failed :: bool

definition run_ci_check :: "command_env \<Rightarrow> string \<Rightarrow> string \<Rightarrow> string \<Rightarrow> int \<Rightarrow> ci_verdict res" where
  "run_ci_check env path base at_date depth =
     (case query_options ''-at'' at_date depth of
        Inl e \<Rightarrow> Inl e
      | Inr opts \<Rightarrow>
          (case audit_lockfile env path opts of
             Inl e \<Rightarrow> Inl e
           | Inr a \<Rightarrow>
               (case advisories_reached (ce_query env) a of
                  Inl e \<Rightarrow> Inl (Wrap ''check advisories'' e)
                | Inr exposures \<Rightarrow>
                    (if base = [] then Inr \<lparr>ci_exposures = exposures, ci_new_keyholders = [], ci_failed = (length exposures > 0)\<rparr>
                     else case audit_lockfile env base opts of
                         Inl e \<Rightarrow> Inl (Wrap ''audit base lockfile'' e)
                       | Inr b \<Rightarrow>
                           (let new = diff_keyholders b a in
                            Inr \<lparr>ci_exposures = exposures, ci_new_keyholders = new,
                              ci_failed = (length exposures > 0 \<or> length new > 0)\<rparr>)))))"


subsection \<open>The incident report\<close>

text \<open>\<open>strings.Cut\<close> at the first \<open>@\<close> of the argument.\<close>

definition incident_target :: "string \<Rightarrow> (string \<times> string) res" where
  "incident_target arg =
     (case index_byte (CHR ''@'') arg of
        None \<Rightarrow> Inl (Msg (''expected <package>@<version>, got '' @ go_quote arg))
      | Some i \<Rightarrow>
          (let name = take i arg; version = drop (i + 1) arg in
           if name = [] \<or> version = [] then Inl (Msg (''expected <package>@<version>, got '' @ go_quote arg))
           else Inr (name, version)))"

record incident_report =
  ip_advisories :: "advisory_info list"
  ip_introductions :: "introduction list"
  ip_exposed :: "recorded_project list"
  ip_live :: "exposure list"
  ip_shared :: "shared_maintainer list"
  ip_typosquats :: "typosquat_neighbor list"

text \<open>An advisory whose bisection fails is skipped.\<close>

definition introductions_of :: "bisect_source \<Rightarrow> string \<Rightarrow> advisory_info list \<Rightarrow> introduction list" where
  "introductions_of src name advisories =
     List.map_filter (\<lambda>a. case bisect src (ai_id a) name of Inl e \<Rightarrow> None | Inr intro \<Rightarrow> Some intro) advisories"

definition graph_live_source :: "query_fun \<Rightarrow> string \<Rightarrow> live_source" where
  "graph_live_source query eco = \<lparr>ls_resolvers = graph_resolvers query eco, ls_locking = graph_locking query eco\<rparr>"

text \<open>The six questions in the order they are asked; \<open>wrap\<close> is what the caller adds to an error.\<close>

definition blast_radius :: "(string \<Rightarrow> err \<Rightarrow> err) \<Rightarrow> command_env \<Rightarrow> string \<Rightarrow> string \<Rightarrow> int \<Rightarrow> incident_report res" where
  "blast_radius wrap env name ver at_time =
     (let query = ce_query env in
      case advisories_affecting query ''npm'' name ver of
        Inl e \<Rightarrow> Inl (wrap (''advisories affecting '' @ name @ ''@'' @ ver) e)
      | Inr advisories \<Rightarrow>
          (case transitively_exposed (graph_exposure_source query) query (ce_years env) (ce_weights env) (ce_now env) name ver of
             Inl e \<Rightarrow> Inl (wrap ''transitively exposed'' e)
           | Inr exposed \<Rightarrow>
               (case resolved_while_live (graph_live_source query ''npm'') name ver of
                  Inl e \<Rightarrow> Inl (wrap ''resolved while live'' e)
                | Inr live \<Rightarrow>
                    (case shared_maintainers (graph_maintainer_source query ''npm'') name at_time of
                       Inl e \<Rightarrow> Inl (wrap ''shared maintainers'' e)
                     | Inr shared \<Rightarrow>
                         (case typosquats_near query ''npm'' name of
                            Inl e \<Rightarrow> Inl (wrap (''typosquats near '' @ name) e)
                          | Inr nearby \<Rightarrow>
                              Inr \<lparr>ip_advisories = advisories,
                                ip_introductions = introductions_of (graph_bisect_source query ''npm'') name advisories,
                                ip_exposed = exposed, ip_live = live, ip_shared = shared, ip_typosquats = nearby\<rparr>)))))"

definition run_incident :: "command_env \<Rightarrow> string \<Rightarrow> string \<Rightarrow> (string \<times> string \<times> incident_report) res" where
  "run_incident env arg at_date =
     (case incident_target arg of
        Inl e \<Rightarrow> Inl e
      | Inr (name, ver) \<Rightarrow>
          (case (if at_date = [] then Inr (ce_now env) else case parse_date at_date of Inl e \<Rightarrow> Inl (Wrap ''parse --at'' e) | Inr t \<Rightarrow> Inr t) of
             Inl e \<Rightarrow> Inl e
           | Inr at_time \<Rightarrow>
               (case blast_radius Wrap env name ver at_time of
                  Inl e \<Rightarrow> Inl e
                | Inr rep \<Rightarrow> Inr (name, ver, rep))))"

text \<open>What the report derives from the answers. \<open>upper\<close> gives the upper case of a text with letters beyond ASCII.\<close>

definition upper_byte :: "char \<Rightarrow> char" where
  "upper_byte c = (if CHR ''a'' \<le> c \<and> c \<le> CHR ''z'' then char_of (of_char c - 32 :: nat) else c)"

definition to_upper :: "(string \<Rightarrow> string) \<Rightarrow> string \<Rightarrow> string" where
  "to_upper upper s = (if list_all (\<lambda>c. of_char c < (128 :: nat)) s then List.map upper_byte s else upper s)"

definition severity_rank :: "(string \<Rightarrow> string) \<Rightarrow> string \<Rightarrow> nat" where
  "severity_rank upper s =
     (let u = to_upper upper s in
      if u = ''CRITICAL'' then 0 else if u = ''HIGH'' then 1 else if u = ''MODERATE'' \<or> u = ''MEDIUM'' then 2 else if u = ''LOW'' then 3 else 4)"

definition by_severity :: "(string \<Rightarrow> string) \<Rightarrow> advisory_info list \<Rightarrow> advisory_info list" where
  "by_severity upper advisories = sort_slice (\<lambda>x y. severity_rank upper (ai_severity x) < severity_rank upper (ai_severity y)) advisories"

definition or_dash :: "string \<Rightarrow> string" where
  "or_dash s = (if s = [] then ''-'' else s)"

definition truncate_summary :: "string \<Rightarrow> nat \<Rightarrow> string" where
  "truncate_summary s n = (if length s \<le> n then s else take n s @ ''...'')"

definition summarize_diff :: "dependency_diff \<Rightarrow> string" where
  "summarize_diff d =
     (if length (dd_added d) = 0 \<and> length (dd_removed d) = 0 \<and> length (dd_changed d) = 0 then ''-''
      else ''+'' @ utoa (length (dd_added d)) @ '' -'' @ utoa (length (dd_removed d)) @ '' ~'' @ utoa (length (dd_changed d)))"

subsection \<open>Scanning\<close>

text \<open>The project of a lockfile that names none is the path without the file name.\<close>

definition scan_project :: "string \<Rightarrow> lockfile \<Rightarrow> lockfile" where
  "scan_project path lf = (if lf_project lf = [] then lf\<lparr>lf_project := trim_suffix (''/'' @ lf_format lf) path\<rparr> else lf)"

definition fraction_text :: "fraction \<Rightarrow> string" where
  "fraction_text f = (if \<not> fraction_known f then ''-'' else utoa (f_count f) @ ''/'' @ utoa (f_of f))"

definition chokepoints :: "audit_result \<Rightarrow> cut list" where
  "chokepoints a = List.filter irreplaceable (a_cuts a)"

fun names_loop_text :: "nat \<Rightarrow> nat \<Rightarrow> nat \<Rightarrow> string list \<Rightarrow> string list" where
  "names_loop_text whole keep i [] = []"
| "names_loop_text whole keep i (u # us) =
     (if i = keep then [''and '' @ utoa (whole - keep) @ '' more'']
      else trim_prefix ''pkg:npm/'' u # names_loop_text whole keep (i + 1) us)"

definition short_names :: "string list \<Rightarrow> nat \<Rightarrow> string list" where
  "short_names urns keep = names_loop_text (length urns) keep 0 urns"

text \<open>The version a name given to \<open>--proof\<close> stands for: the first reached one in the order of the map.\<close>

definition proof_target :: "audit_result \<Rightarrow> string \<Rightarrow> string res" where
  "proof_target a want =
     (let target =
        (if has_prefix ''pkg:'' want then want
         else case List.find (has_prefix (''pkg:npm/'' @ want @ ''@'')) (keys (audit_coexistence a)) of
             Some urn \<Rightarrow> urn | None \<Rightarrow> want)
      in if has_prefix ''pkg:'' target then Inr target else Inl (Msg (''no reached version of '' @ go_quote want @ '' to prove'')))"

definition show_proof :: "command_env \<Rightarrow> audit_result \<Rightarrow> string \<Rightarrow> int \<Rightarrow> (string \<times> chain option) res" where
  "show_proof env a want depth =
     (case proof_target a want of
        Inl e \<Rightarrow> Inl e
      | Inr target \<Rightarrow>
          (case proof_path (ce_query env) (locked_versions a) target depth of
             Inl e \<Rightarrow> Inl e
           | Inr c \<Rightarrow> Inr (target, c)))"

text \<open>\<open>scan\<close>: read, name, record when asked to, audit, and prove when asked to, unless the result goes out as JSON.\<close>

record scan_result =
  sr_recorded :: "nat option"
  sr_audit :: audit_result
  sr_proof :: "(string \<times> chain option) option"

definition run_scan ::
  "'w runner \<Rightarrow> (err \<Rightarrow> bool) \<Rightarrow> ('w \<Rightarrow> err option) \<Rightarrow> (string \<Rightarrow> string) \<Rightarrow> command_env \<Rightarrow> string \<Rightarrow> string \<Rightarrow> int \<Rightarrow> int option
    \<Rightarrow> bool \<Rightarrow> string \<Rightarrow> 'w \<Rightarrow> scan_result res \<times> 'w" where
  "run_scan run transient ended sha256 env path at_date depth locked_at as_json want w =
     (case query_options ''--at'' at_date depth of
        Inl e \<Rightarrow> (Inl e, w)
      | Inr opts \<Rightarrow>
          (case ce_read env path of
             Inl e \<Rightarrow> (Inl (Wrap ''read lockfile'' e), w)
           | Inr data \<Rightarrow>
               (case parse_lockfile (ce_unmarshal env) (ce_decode env) path data of
                  Inl e \<Rightarrow> (Inl e, w)
                | Inr lf0 \<Rightarrow>
                    (let lf = scan_project path lf0;
                         (recorded, err, w1) = (case locked_at of
                             None \<Rightarrow> (None, None, w)
                           | Some t \<Rightarrow> (case record_lockfile run transient ended sha256 lf data t w of (n, e, w1) \<Rightarrow> (Some n, e, w1)))
                     in case err of
                          Some e \<Rightarrow> (Inl e, w1)
                        | None \<Rightarrow>
                            (case audit_of_lock env lf opts of
                               Inl e \<Rightarrow> (Inl e, w1)
                             | Inr a \<Rightarrow>
                                 if as_json \<or> want = [] then (Inr \<lparr>sr_recorded = recorded, sr_audit = a, sr_proof = None\<rparr>, w1)
                                 else (case show_proof env a want depth of
                                    Inl e \<Rightarrow> (Inl e, w1)
                                  | Inr p \<Rightarrow> (Inr \<lparr>sr_recorded = recorded, sr_audit = a, sr_proof = Some p\<rparr>, w1)))))))"

text \<open>\<open>path\<close>: the first package the account holds, or all of them.\<close>

definition run_path :: "command_env \<Rightarrow> string \<Rightarrow> string \<Rightarrow> string \<Rightarrow> int \<Rightarrow> bool \<Rightarrow> path_view option res" where
  "run_path env arg path at_date depth every =
     (let handle = trim_prefix ''@'' arg in
      case query_options ''--at'' at_date depth of
        Inl e \<Rightarrow> Inl e
      | Inr opts \<Rightarrow>
          (case ce_read env path of
             Inl e \<Rightarrow> Inl (Wrap ''read lockfile'' e)
           | Inr data \<Rightarrow>
               (case parse_lockfile (ce_unmarshal env) (ce_decode env) path data of
                  Inl e \<Rightarrow> Inl e
                | Inr lf \<Rightarrow>
                    (case audit_of_lock env lf opts of
                       Inl e \<Rightarrow> Inl e
                     | Inr a \<Rightarrow>
                         (case held_packages a handle of
                            (held, ok) \<Rightarrow>
                              if \<not> ok then Inr None
                              else (case holder_chains (ce_query env) a (if every then held else take 1 held) depth of
                                 Inl e \<Rightarrow> Inl e
                               | Inr found \<Rightarrow> Inr (Some (new_path_view handle held found))))))))"

text \<open>\<open>who\<close>, and the shape in which its result goes out as JSON.\<close>

definition run_who :: "command_env \<Rightarrow> string \<Rightarrow> string \<Rightarrow> int \<Rightarrow> who_result res" where
  "run_who env arg at_date depth =
     (let handle = trim_prefix ''@'' arg in
      case query_options ''--at'' at_date depth of Inl e \<Rightarrow> Inl e | Inr opts \<Rightarrow> who_is (ce_query env) handle opts)"

record held_json =
  hj_package :: string
  hj_versions :: nat
  hj_spells :: "(int \<times> int) list"

record who_json =
  wj_handle :: string
  wj_holds :: "held_json list"
  wj_dependents :: "string list"
  wj_dependent_count :: nat
  wj_union_dependents :: nat
  wj_versions_reached :: nat
  wj_union_versions :: nat
  wj_depth :: nat
  wj_truncated :: bool
  wj_kappa :: rat
  wj_elapsed_ms :: int

definition who_json_of :: "who_result \<Rightarrow> int \<Rightarrow> who_json" where
  "who_json_of w elapsed_ms =
     \<lparr>wj_handle = wh_handle w,
      wj_holds = List.map (\<lambda>h. \<lparr>hj_package = hd_package h, hj_versions = hd_versions h,
        hj_spells = List.map (\<lambda>i. (ifrom i, ito i)) (hd_spans h)\<rparr>) (wh_holds w),
      wj_dependents = wh_dependents w, wj_dependent_count = length (wh_dependents w), wj_union_dependents = wh_union_dependents w,
      wj_versions_reached = (case wh_reach w of None \<Rightarrow> 0 | Some r \<Rightarrow> length (coexistence r)),
      wj_union_versions = (case wh_reach w of None \<Rightarrow> 0 | Some r \<Rightarrow> length (union_set r)),
      wj_depth = (case wh_reach w of None \<Rightarrow> 0 | Some r \<Rightarrow> depth_reached r),
      wj_truncated = (case wh_reach w of None \<Rightarrow> False | Some r \<Rightarrow> truncated r),
      wj_kappa = (case wh_reach w of None \<Rightarrow> 0 | Some r \<Rightarrow> kappa r), wj_elapsed_ms = elapsed_ms\<rparr>"

subsection \<open>What the gate decides\<close>

text \<open>The lockfile at a path, as the commands read it.\<close>

definition reads_lockfile :: "command_env \<Rightarrow> string \<Rightarrow> lockfile \<Rightarrow> bool" where
  "reads_lockfile env path lf \<longleftrightarrow>
     (\<exists>data. ce_read env path = Inr data \<and> parse_lockfile (ce_unmarshal env) (ce_decode env) path data = Inr lf)"

text \<open>What a lockfile reaches by a walk along resolutions that all held at one instant of the window, and who held
  rights over the package of a reached version at such an instant.\<close>

definition lock_reaches :: "query_fun \<Rightarrow> edge set \<Rightarrow> options \<Rightarrow> lockfile \<Rightarrow> int \<Rightarrow> string \<Rightarrow> bool" where
  "lock_reaches query G opts lf t v \<longleftrightarrow> (\<exists>srcs n. known_versions query (List.map pin_pair (lf_pins lf)) = Inr srcs
     \<and> n \<le> nat (max_depth (with_defaults opts)) \<and> coexist {} G srcs (owithin (with_defaults opts)) t n v)"

definition lock_held_by :: "query_fun \<Rightarrow> edge set \<Rightarrow> (string \<Rightarrow> hop list) \<Rightarrow> options \<Rightarrow> lockfile \<Rightarrow> string \<Rightarrow> bool" where
  "lock_held_by query G hops opts lf h \<longleftrightarrow> (\<exists>v t. package_urn_of v \<noteq> [] \<and> npm_package_urn (package_urn_of v) \<and> lock_reaches query G opts lf t v
     \<and> (\<exists>hop \<in> set (hops (package_urn_of v)). eto (key_edge hop) = h \<and> t \<in> instants (evalid (key_edge hop))))"

lemma audit_lockfile_reads:
  assumes "audit_lockfile env path opts = Inr a"
  obtains lf where "reads_lockfile env path lf" "audit_of_lock env lf opts = Inr a"
  using assms unfolding audit_lockfile_def reads_lockfile_def by (auto split: sum.splits)

lemma audit_coexistence_reaches: "u \<in> set (keys (audit_coexistence a)) \<longleftrightarrow> audit_reaches a u"
  by (auto simp: audit_coexistence_def audit_reaches_def has_key_iff split: option.splits)

lemma audit_of_lock_reaches:
  assumes "edge_source (graph_out (ce_query env) ''RESOLVES_TO'' ''outgoing'') G" "audit_of_lock env lf opts = Inr a"
  shows "u \<in> set (keys (audit_coexistence a)) \<longleftrightarrow> (\<exists>t. lock_reaches (ce_query env) G opts lf t u)"
  unfolding audit_coexistence_reaches audit_reached_iff [OF assms(1) assms(2) [unfolded audit_of_lock_def]] lock_reaches_def by blast

lemma audit_of_lock_holders:
  assumes "edge_source (graph_out (ce_query env) ''RESOLVES_TO'' ''outgoing'') G" "maintainers (ce_query env) hops"
    "audit_of_lock env lf opts = Inr a"
  shows "h \<in> k_handle ` set (a_keyholders a) \<longleftrightarrow> lock_held_by (ce_query env) G hops opts lf h"
  unfolding audit_holders_iff [OF assms(1,2) assms(3) [unfolded audit_of_lock_def]] lock_held_by_def lock_reaches_def by blast

lemma set_diff_keyholders:
  "set (diff_keyholders base head) = k_handle ` set (a_keyholders head) - k_handle ` set (a_keyholders base)"
  by (auto simp: diff_keyholders_def)

lemma advisories_loop_exact:
  assumes "advisories_loop query urns = Inr res"
  shows "set res = {\<lparr>ra_version = u, ra_advisories = found\<rparr> | u name ver found. u \<in> set urns \<and> split_version_urn u = Some (name, ver)
    \<and> advisories_affecting query ''npm'' name ver = Inr found \<and> found \<noteq> []}"
  using assms
proof (induction urns arbitrary: res)
  case (Cons u urns)
  show ?case
  proof (cases "split_version_urn u")
    case None
    then show ?thesis using Cons.IH [of res] Cons.prems by auto
  next
    case (Some nv)
    then obtain name ver found out where u: "split_version_urn u = Some (name, ver)" "advisories_affecting query ''npm'' name ver = Inr found"
      "advisories_loop query urns = Inr out" "res = (if found \<noteq> [] then \<lparr>ra_version = u, ra_advisories = found\<rparr> # out else out)"
      using Cons.prems by (cases nv) (auto split: sum.splits)
    show ?thesis unfolding u(4) using Cons.IH [OF u(3)] u(1,2) by auto
  qed
qed simp

lemma advisories_loop_versions:
  "advisories_loop query urns = Inr res \<Longrightarrow> sorted urns \<Longrightarrow> sorted (List.map ra_version res) \<and> set (List.map ra_version res) \<subseteq> set urns"
proof (induction urns arbitrary: res)
  case (Cons u urns)
  obtain out where out: "advisories_loop query urns = Inr out" "res = out \<or> (\<exists>found. res = \<lparr>ra_version = u, ra_advisories = found\<rparr> # out)"
    using Cons.prems(1) by (auto split: option.splits sum.splits if_splits)
  have "sorted urns" "\<forall>x \<in> set urns. u \<le> x" using Cons.prems(2) by simp_all
  moreover have "sorted (List.map ra_version out)" "\<forall>x \<in> set out. ra_version x \<in> set urns"
    using Cons.IH [OF out(1)] \<open>sorted urns\<close> by auto
  ultimately show ?case using out(2) by auto
qed simp

lemma run_ci_check_cases:
  assumes "run_ci_check env path base at_date depth = Inr v"
  obtains opts a exposures where "query_options ''-at'' at_date depth = Inr opts" "audit_lockfile env path opts = Inr a"
    "advisories_reached (ce_query env) a = Inr exposures" "ci_exposures v = exposures"
    "base = [] \<and> ci_new_keyholders v = [] \<or> base \<noteq> [] \<and> (\<exists>b. audit_lockfile env base opts = Inr b \<and> ci_new_keyholders v = diff_keyholders b a)"
    "ci_failed v = (ci_exposures v \<noteq> [] \<or> ci_new_keyholders v \<noteq> [])"
proof -
  obtain opts where o: "query_options ''-at'' at_date depth = Inr opts"
    using assms by (cases "query_options ''-at'' at_date depth") (simp_all add: run_ci_check_def)
  obtain a where a: "audit_lockfile env path opts = Inr a"
    using assms o by (cases "audit_lockfile env path opts") (simp_all add: run_ci_check_def)
  obtain exposures where e: "advisories_reached (ce_query env) a = Inr exposures"
    using assms o a by (cases "advisories_reached (ce_query env) a") (simp_all add: run_ci_check_def)
  show ?thesis
  proof (cases "base = []")
    case True
    then show ?thesis using assms o a e by (intro that [OF o a e]) (auto simp: run_ci_check_def)
  next
    case False
    then obtain b where "audit_lockfile env base opts = Inr b"
      using assms o a e by (cases "audit_lockfile env base opts") (simp_all add: run_ci_check_def)
    then show ?thesis using assms o a e False by (intro that [OF o a e]) (auto simp: run_ci_check_def Let_def)
  qed
qed

text \<open>C32: The gate reports exactly the versions the lockfile reaches, by walks that held at one instant, that an
  advisory affects, each with its advisories and in order; as new keyholders exactly the accounts that hold rights over
  what this lockfile reaches and none over what the base lockfile reaches; and it fails exactly when it has reported
  something.\<close>

theorem ci_check_verdict:
  assumes "edge_source (graph_out (ce_query env) ''RESOLVES_TO'' ''outgoing'') G" "maintainers (ce_query env) hops"
    "run_ci_check env path base at_date depth = Inr v"
  shows "\<exists>opts lf. query_options ''-at'' at_date depth = Inr opts \<and> reads_lockfile env path lf
    \<and> set (ci_exposures v) = {\<lparr>ra_version = u, ra_advisories = found\<rparr> | u name ver found.
        (\<exists>t. lock_reaches (ce_query env) G opts lf t u) \<and> split_version_urn u = Some (name, ver)
        \<and> advisories_affecting (ce_query env) ''npm'' name ver = Inr found \<and> found \<noteq> []}
    \<and> sorted (List.map ra_version (ci_exposures v))
    \<and> set (ci_new_keyholders v) = {h. base \<noteq> [] \<and> lock_held_by (ce_query env) G hops opts lf h
        \<and> (\<exists>before. reads_lockfile env base before \<and> \<not> lock_held_by (ce_query env) G hops opts before h)}
    \<and> sorted (ci_new_keyholders v)
    \<and> ci_failed v = (ci_exposures v \<noteq> [] \<or> ci_new_keyholders v \<noteq> [])"
proof -
  obtain opts a exposures where o: "query_options ''-at'' at_date depth = Inr opts" "audit_lockfile env path opts = Inr a"
    "advisories_reached (ce_query env) a = Inr exposures"
    and v: "ci_exposures v = exposures"
      "base = [] \<and> ci_new_keyholders v = [] \<or> base \<noteq> [] \<and> (\<exists>b. audit_lockfile env base opts = Inr b \<and> ci_new_keyholders v = diff_keyholders b a)"
      "ci_failed v = (ci_exposures v \<noteq> [] \<or> ci_new_keyholders v \<noteq> [])"
    by (rule run_ci_check_cases [OF assms(3)])
  obtain lf where lf: "reads_lockfile env path lf" "audit_of_lock env lf opts = Inr a" by (rule audit_lockfile_reads [OF o(2)])
  note L = o(3) [unfolded advisories_reached_def]
  have ex: "set exposures = {\<lparr>ra_version = u, ra_advisories = found\<rparr> | u name ver found.
        (\<exists>t. lock_reaches (ce_query env) G opts lf t u) \<and> split_version_urn u = Some (name, ver)
        \<and> advisories_affecting (ce_query env) ''npm'' name ver = Inr found \<and> found \<noteq> []}"
    unfolding advisories_loop_exact [OF L] set_sort_strings audit_of_lock_reaches [OF assms(1) lf(2)] by blast
  have srt: "sorted (List.map ra_version exposures)" using advisories_loop_versions [OF L sorted_sort_strings] by blast
  have srt2: "sorted (ci_new_keyholders v)" using v(2) by (auto simp: diff_keyholders_def sorted_sort_strings)
  have new: "set (ci_new_keyholders v) = {h. base \<noteq> [] \<and> lock_held_by (ce_query env) G hops opts lf h
        \<and> (\<exists>before. reads_lockfile env base before \<and> \<not> lock_held_by (ce_query env) G hops opts before h)}"
  proof (cases "base = []")
    case True
    then show ?thesis using v(2) by simp
  next
    case False
    then obtain b where b: "audit_lockfile env base opts = Inr b" "ci_new_keyholders v = diff_keyholders b a"
      using v(2) by blast
    obtain before where before: "reads_lockfile env base before" "audit_of_lock env before opts = Inr b" by (rule audit_lockfile_reads [OF b(1)])
    have one: "lf' = before" if "reads_lockfile env base lf'" for lf' using that before(1) unfolding reads_lockfile_def by auto
    show ?thesis
      unfolding b(2) set_diff_keyholders set_eq_iff Diff_iff mem_Collect_eq
        audit_of_lock_holders [OF assms(1,2) lf(2)] audit_of_lock_holders [OF assms(1,2) before(2)]
      using before(1) one False by metis
  qed
  show ?thesis
    by (intro exI conjI) (rule o(1), rule lf(1), rule ex [folded v(1)], rule srt [folded v(1)], rule new, rule srt2, rule v(3))
qed

text \<open>A database that names one advisory for every version and answers every search from a table of hops.\<close>

definition advised_db :: "hop list \<Rightarrow> query_fun" where
  "advised_db tbl stmt =
     (if has_prefix ''MATCH (a:Advisory)'' stmt then Inr [[(''id'', Scalar (PStr ''GHSA-1''))]]
      else table_query (\<lambda>s. npm_urn s \<or> npm_package_urn s) tbl stmt)"

lemma advised_db_table: "advised_db tbl (mspaths_stmt label e d c vs) = table_query (\<lambda>s. npm_urn s \<or> npm_package_urn s) tbl (mspaths_stmt label e d c vs)"
  by (simp add: advised_db_def mspaths_stmt_def has_prefix_def)

lemma advised_db_answers: "answering (advised_db tbl)"
  unfolding answering_def advised_db_table table_query_def take_map by blast

lemma advised_db_advisory:
  "advisories_affecting (advised_db tbl) eco name ver = Inr [\<lparr>ai_id = ''GHSA-1'', ai_summary = [], ai_severity = []\<rparr>]"
  by (simp add: advisories_affecting_def advisories_stmt_def advised_db_def has_prefix_def column_def as_str_def)

interpretation advised: mspaths "advised_db tbl" "''RESOLVES_TO''" "''outgoing''" "table_hops tbl" for tbl
proof
  fix vs recs
  assume vs: "vs \<noteq> []" "list_all npm_urn vs" and q: "advised_db tbl (expand_stmt ''RESOLVES_TO'' ''outgoing'' vs) = Inr recs"
    and lim: "length recs < result_limit \<or> length vs = 1"
  have "table_query (\<lambda>s. npm_urn s \<or> npm_package_urn s) tbl (expand_stmt ''RESOLVES_TO'' ''outgoing'' vs) = Inr recs"
    using q by (simp add: expand_stmt_def advised_db_table)
  then show "\<exists>hs. recs = List.map hop_record hs \<and> set hs = (\<Union>v \<in> set vs. set (table_hops tbl v))"
    using table_answer [OF who_db_values [OF vs(1) disjI1 [OF vs(2)], of "''Version''" "''RESOLVES_TO''" "''outgoing''" result_limit]] lim
    by (simp add: expand_stmt_def)
qed (rule table_leaves)

interpretation advised_rights: maintainers "advised_db tbl" "table_hops tbl" for tbl
proof
  fix vs recs
  assume vs: "vs \<noteq> []" "list_all npm_package_urn vs" and q: "advised_db tbl (maintains_stmt vs) = Inr recs"
    and lim: "length recs < result_limit \<or> length vs = 1"
  have "table_query (\<lambda>s. npm_urn s \<or> npm_package_urn s) tbl (maintains_stmt vs) = Inr recs"
    using q by (simp add: maintains_stmt_def advised_db_table)
  then show "\<exists>hs. recs = List.map hop_record hs \<and> set hs = (\<Union>v \<in> set vs. set (table_hops tbl v))"
    using table_answer [OF who_db_values [OF vs(1) disjI2 [OF vs(2)], of "''Package''" "''MAINTAINS''" "''incoming''" result_limit]] lim
    by (simp add: maintains_stmt_def)
qed (rule table_leaves)

abbreviation bump_table :: "hop list" where
  "bump_table \<equiv> [(urn_props ''pkg:npm/a@1.0.0'', urn_props ''pkg:npm/b@2.0.0'', window_props 5 9),
     (urn_props ''pkg:npm/b'', [(''handle'', PStr ''mal'')], window_props 4 8)]"

text \<open>The lockfile locks a, which resolves to b while an account holds b; the base lockfile locks nothing.\<close>

definition bump_entry :: yarn_entry where
  "bump_entry = \<lparr>ye_name = ''a'', ye_range = ''^1.0.0'', ye_version = ''1.0.0''\<rparr>"

definition bump_env :: command_env where
  "bump_env = \<lparr>ce_read = (\<lambda>path. Inr (yarn_text (if path = ''yarn.lock'' then [bump_entry] else []))),
     ce_unmarshal = (\<lambda>_. Inl (Msg ''not JSON'')), ce_decode = (\<lambda>_. None), ce_query = advised_db bump_table,
     ce_years = (\<lambda>_. []), ce_weights = default_weights, ce_now = 0\<rparr>"

definition bump_lock :: lockfile where
  "bump_lock = \<lparr>lf_project = [], lf_format = ''yarn.lock'', lf_pins = [plain_pin ''a'' ''1.0.0'']\<rparr>"

lemma bump_locks:
  "reads_lockfile bump_env ''yarn.lock'' bump_lock"
  "reads_lockfile bump_env ''old/yarn.lock'' (bump_lock\<lparr>lf_pins := []\<rparr>)"
proof -
  have ok: "list_all yarn_entry_ok [bump_entry]"
    by (simp add: bump_entry_def yarn_entry_ok_def yarn_char_def quote_chars_def plain_char_def space_encodings_def trim_prefix_def
        yarn_header_def yarn_body_def line_limit_def)
  have base: "base_name ''yarn.lock'' = ''yarn.lock''" "base_name ''old/yarn.lock'' = ''yarn.lock''"
    by (simp_all add: base_name_def)
  have yarn: "parse_lockfile u d path t = parse_yarn t" if "base_name path = ''yarn.lock''" for u d path t
    using that by (simp add: parse_lockfile_def format_npm_def format_pnpm_def format_yarn_def has_suffix_def has_prefix_def)
  have one: "normalise \<lparr>lf_project = [], lf_format = ''yarn.lock'', lf_pins = [plain_pin ''a'' ''1.0.0'']\<rparr> = bump_lock"
    "normalise \<lparr>lf_project = [], lf_format = ''yarn.lock'', lf_pins = []\<rparr> = bump_lock\<lparr>lf_pins := []\<rparr>"
    by (simp_all add: normalise_def bump_lock_def add_pin_def plain_pin_def Let_def)
  have "parse_yarn (yarn_text [bump_entry]) = Inr bump_lock"
    unfolding parse_yarn_text [OF ok] using one(1) by (simp add: bump_entry_def)
  moreover have "parse_yarn (yarn_text []) = Inr (bump_lock\<lparr>lf_pins := []\<rparr>)"
    using parse_yarn_text [of "[]"] one(2) by simp
  ultimately show "reads_lockfile bump_env ''yarn.lock'' bump_lock" "reads_lockfile bump_env ''old/yarn.lock'' (bump_lock\<lparr>lf_pins := []\<rparr>)"
    by (simp_all add: reads_lockfile_def bump_env_def yarn base)
qed

lemma bump_hops:
  "table_hops bump_table ''pkg:npm/a@1.0.0'' = [bump_table ! 0]" "table_hops bump_table ''pkg:npm/b'' = [bump_table ! 1]"
proof -
  have "List.filter (\<lambda>h. string_prop (fst h) ''urn'' = ''pkg:npm/a@1.0.0'') bump_table = [bump_table ! 0]"
    "List.filter (\<lambda>h. string_prop (fst h) ''urn'' = ''pkg:npm/b'') bump_table = [bump_table ! 1]"
    by (simp_all add: string_prop_def getd_def as_str_def)
  moreover have "take (result_limit - 1) [x] = [x]" for x :: hop by (simp add: result_limit_def)
  ultimately show "table_hops bump_table ''pkg:npm/a@1.0.0'' = [bump_table ! 0]" "table_hops bump_table ''pkg:npm/b'' = [bump_table ! 1]"
    unfolding table_hops_def by simp_all
qed

lemma bump_edge:
  "\<lparr>efrom = ''pkg:npm/a@1.0.0'', eto = ''pkg:npm/b@2.0.0'', evalid = iv 5 9\<rparr> \<in> mspaths.reachable_edges (table_hops bump_table)"
proof -
  have h: "bump_table ! 0 \<in> set (table_hops bump_table ''pkg:npm/a@1.0.0'')" unfolding bump_hops by (rule list.set_intros(1))
  have e: "hop_edge (bump_table ! 0) = \<lparr>efrom = ''pkg:npm/a@1.0.0'', eto = ''pkg:npm/b@2.0.0'', evalid = iv 5 9\<rparr>"
    by (simp add: hop_edge_def string_prop_def getd_def as_str_def interval_of_def int_prop_def as_int_def)
  show ?thesis unfolding advised.reachable_edges_def e [symmetric]
    by (rule CollectI, rule exI, rule exI, intro conjI) (rule refl, rule h, rule npm_urn_a)
qed

lemma bump_known: "known_versions (advised_db bump_table) [(''a'', ''1.0.0'')] = Inr [\<lparr>eurn = ''pkg:npm/a@1.0.0'', espan = always\<rparr>]"
proof (rule known_one_pin)
  have v: "List.filter (\<lambda>s. npm_urn s \<or> npm_package_urn s) (split_str (known_stmt [''pkg:npm/a@1.0.0'']) [CHR 0x27]) = [''pkg:npm/a@1.0.0'']"
    unfolding known_stmt_def using npm_urn_a by (intro who_db_values) simp_all
  have "take result_limit [x] = [x]" for x :: grecord by (simp add: result_limit_def)
  moreover have "advised_db bump_table (known_stmt [''pkg:npm/a@1.0.0'']) =
      table_query (\<lambda>s. npm_urn s \<or> npm_package_urn s) bump_table (known_stmt [''pkg:npm/a@1.0.0''])"
    by (simp only: known_stmt_def advised_db_table)
  ultimately show "advised_db bump_table (known_stmt [''pkg:npm/a@1.0.0'']) =
      Inr [hop_record (urn_props ''pkg:npm/a@1.0.0'', urn_props ''pkg:npm/b@2.0.0'', window_props 5 9)]"
    unfolding table_query_def v by (simp add: bump_hops)
qed

lemma bump_reach:
  assumes "owithin (with_defaults opts) = always" "max_depth (with_defaults opts) = 12"
  shows "lock_reaches (advised_db bump_table) (mspaths.reachable_edges (table_hops bump_table)) opts bump_lock 6 ''pkg:npm/b@2.0.0''"
proof -
  let ?G = "mspaths.reachable_edges (table_hops bump_table)" and ?s = "\<lparr>eurn = ''pkg:npm/a@1.0.0'', espan = always\<rparr>"
  have t: "6 \<in> instants always" "6 \<in> instants (iv 5 9)" by (simp_all add: always_def open_interval_def instants_def)
  have "coexist {} ?G [?s] always 6 0 ''pkg:npm/a@1.0.0''" using coexist.source [of ?s "[?s]" "{}" 6 always ?G] t by simp
  then have "coexist {} ?G [?s] always 6 (Suc 0) ''pkg:npm/b@2.0.0''"
    using coexist.step [OF _ bump_edge, of "{}" "[?s]" always 6 0] t by simp
  moreover have "List.map pin_pair (lf_pins bump_lock) = [(''a'', ''1.0.0'')]" by (simp add: bump_lock_def plain_pin_def pin_pair_def)
  ultimately show ?thesis unfolding lock_reaches_def assms using bump_known by (intro exI [of _ "[?s]"] exI [of _ "Suc 0"]) simp
qed

lemma audit_lockfile_returns:
  assumes "answering (ce_query env)" "reads_lockfile env path lf"
  shows "\<exists>a. audit_lockfile env path opts = Inr a"
  using assms audit_total [OF assms(1)] unfolding reads_lockfile_def audit_lockfile_def audit_of_lock_def by fastforce

lemma advisories_loop_returns: "\<exists>res. advisories_loop (advised_db tbl) urns = Inr res"
proof (induction urns)
  case (Cons u urns)
  then show ?case by (cases "split_version_urn u") (auto simp: advised_db_advisory)
qed simp

lemma bump_check_returns:
  "\<exists>v. run_ci_check bump_env ''yarn.lock'' ''old/yarn.lock'' [] 12 = Inr v"
proof -
  let ?opts = "\<lparr>owithin = always, max_depth = 12\<rparr>"
  have q: "ce_query bump_env = advised_db bump_table" by (simp add: bump_env_def)
  obtain a where a: "audit_lockfile bump_env ''yarn.lock'' ?opts = Inr a"
    using audit_lockfile_returns [OF _ bump_locks(1)] advised_db_answers unfolding q by blast
  obtain b where b: "audit_lockfile bump_env ''old/yarn.lock'' ?opts = Inr b"
    using audit_lockfile_returns [OF _ bump_locks(2)] advised_db_answers unfolding q by blast
  obtain e where e: "advisories_reached (ce_query bump_env) a = Inr e"
    using advisories_loop_returns unfolding q advisories_reached_def by blast
  show ?thesis by (simp add: run_ci_check_def query_options_def a b e Let_def)
qed

theorem ci_check_verdict_witness:
  "\<exists>v. run_ci_check bump_env ''yarn.lock'' ''old/yarn.lock'' [] 12 = Inr v \<and> ci_failed v \<and> ''mal'' \<in> set (ci_new_keyholders v)
     \<and> ''pkg:npm/b@2.0.0'' \<in> set (List.map ra_version (ci_exposures v))"
proof -
  let ?G = "mspaths.reachable_edges (table_hops bump_table)" and ?opts = "\<lparr>owithin = always, max_depth = 12\<rparr>"
  obtain v where v: "run_ci_check bump_env ''yarn.lock'' ''old/yarn.lock'' [] 12 = Inr v" using bump_check_returns ..
  have q: "ce_query bump_env = advised_db bump_table" by (simp add: bump_env_def)
  have "edge_source (graph_out (ce_query bump_env) ''RESOLVES_TO'' ''outgoing'') ?G" "maintainers (ce_query bump_env) (table_hops bump_table)"
    unfolding q by (rule advised.edge_source_axioms, rule advised_rights.maintainers_axioms)
  from ci_check_verdict [OF this v] obtain lf where lf: "reads_lockfile bump_env ''yarn.lock'' lf"
    and ex: "set (ci_exposures v) = {\<lparr>ra_version = u, ra_advisories = found\<rparr> | u name ver found.
        (\<exists>t. lock_reaches (advised_db bump_table) ?G ?opts lf t u) \<and> split_version_urn u = Some (name, ver)
        \<and> advisories_affecting (advised_db bump_table) ''npm'' name ver = Inr found \<and> found \<noteq> []}"
    and new: "set (ci_new_keyholders v) = {h. ''old/yarn.lock'' \<noteq> [] \<and> lock_held_by (advised_db bump_table) ?G (table_hops bump_table) ?opts lf h
        \<and> (\<exists>before. reads_lockfile bump_env ''old/yarn.lock'' before \<and> \<not> lock_held_by (advised_db bump_table) ?G (table_hops bump_table) ?opts before h)}"
    and failed: "ci_failed v = (ci_exposures v \<noteq> [] \<or> ci_new_keyholders v \<noteq> [])"
    unfolding q by (auto simp: query_options_def)
  have lf_eq: "lf = bump_lock" using lf bump_locks(1) unfolding reads_lockfile_def by auto
  note reach = bump_reach [of ?opts, simplified with_defaults_def, simplified]
  have b: "package_urn_of ''pkg:npm/b@2.0.0'' = ''pkg:npm/b''" "npm_package_urn ''pkg:npm/b''"
    by (simp_all add: package_urn_of_def npm_package_urn_def npm_name_def plain_name_def scope_char_def is_digit_iff less_eq_char_def)
  have e: "key_edge (bump_table ! 1) = \<lparr>efrom = ''pkg:npm/b'', eto = ''mal'', evalid = iv 4 8\<rparr>"
    by (simp add: key_edge_def string_prop_def getd_def as_str_def interval_of_def int_prop_def as_int_def)
  have held: "lock_held_by (advised_db bump_table) ?G (table_hops bump_table) ?opts bump_lock ''mal''"
    unfolding lock_held_by_def
    by (rule exI [of _ "''pkg:npm/b@2.0.0''"], rule exI [of _ 6]) (use reach b e in \<open>simp add: bump_hops instants_def\<close>)
  have not_held: "\<not> lock_held_by (advised_db bump_table) ?G (table_hops bump_table) ?opts (bump_lock\<lparr>lf_pins := []\<rparr>) ''mal''"
  proof -
    have "known_versions (advised_db bump_table) [] = Inr []" by (simp add: known_versions_def wanted_urns_def known_loop.simps)
    then show ?thesis unfolding lock_held_by_def lock_reaches_def by simp
  qed
  have "''mal'' \<in> set (ci_new_keyholders v)" unfolding new lf_eq using held not_held bump_locks(2) by blast
  moreover have "\<lparr>ra_version = ''pkg:npm/b@2.0.0'', ra_advisories = [\<lparr>ai_id = ''GHSA-1'', ai_summary = [], ai_severity = []\<rparr>]\<rparr> \<in> set (ci_exposures v)"
    unfolding ex lf_eq advised_db_advisory
    using reach split_version_urn_version_urn [of "''2.0.0''" "''b''"] by (simp add: version_urn_def) blast
  then have "''pkg:npm/b@2.0.0'' \<in> set (List.map ra_version (ci_exposures v))" by force
  ultimately show ?thesis using v failed by (intro exI [of _ v]) auto
qed

subsection \<open>The target of an incident\<close>

text \<open>C33: The argument is cut at its first \<open>@\<close>: exactly the arguments made of a name without that sign, the sign and a
  version are accepted and taken apart as they were made, so a package of a scope is refused, whatever its version.\<close>

theorem incident_refuses_scopes:
  "(incident_target arg = Inr (name, ver) \<longleftrightarrow> arg = name @ ''@'' @ ver \<and> CHR ''@'' \<notin> set name \<and> name \<noteq> [] \<and> ver \<noteq> [])
   \<and> run_incident env (''@'' @ scope @ ''/'' @ name @ ''@'' @ ver) at_date =
      Inl (Msg (''expected <package>@<version>, got '' @ go_quote (''@'' @ scope @ ''/'' @ name @ ''@'' @ ver)))"
proof (intro conjI iffI)
  assume t: "incident_target arg = Inr (name, ver)"
  then obtain i where i: "index_byte (CHR ''@'') arg = Some i" by (auto simp: incident_target_def split: option.splits)
  then have "name = take i arg" "ver = drop (Suc i) arg" "name \<noteq> []" "ver \<noteq> []"
    using t by (auto simp: incident_target_def Let_def split: if_splits)
  then show "arg = name @ ''@'' @ ver" "CHR ''@'' \<notin> set name" "name \<noteq> []" "ver \<noteq> []"
    using index_byte_Some [OF i] index_byte_split [OF i] by simp_all
next
  assume "arg = name @ ''@'' @ ver \<and> CHR ''@'' \<notin> set name \<and> name \<noteq> [] \<and> ver \<noteq> []"
  then have "index_byte (CHR ''@'') arg = Some (length name)" "arg = name @ CHR ''@'' # ver" "name \<noteq> []" "ver \<noteq> []"
    by (simp_all add: index_byte_append)
  then show "incident_target arg = Inr (name, ver)" by (simp add: incident_target_def)
next
  show "run_incident env (''@'' @ scope @ ''/'' @ name @ ''@'' @ ver) at_date =
      Inl (Msg (''expected <package>@<version>, got '' @ go_quote (''@'' @ scope @ ''/'' @ name @ ''@'' @ ver)))"
    by (simp add: run_incident_def incident_target_def Let_def)
qed

end
