(* ===== verification/Batch.thy ===== *)
theory Batch
  imports Names Ingest Resolve Typosquat Observatory Advisory Config
begin

text \<open>
  The commands of \<open>cmd/keyholders\<close> that build the graph or measure all of it: \<open>ingest\<close>, \<open>resolve\<close>, \<open>advisories\<close>,
  \<open>typosquats\<close>, \<open>verify\<close> and \<open>observatory\<close>, each composed of the operations of the package it drives. \<open>setup\<close> is the
  error of the settings, the registry client or the connection, whichever comes first. A panic is an error value.
\<close>

subsection \<open>Building\<close>

definition ingest_command ::
  "registry \<Rightarrow> 'w runner \<Rightarrow> (err \<Rightarrow> bool) \<Rightarrow> ('w \<Rightarrow> err option) \<Rightarrow> 'f printer \<Rightarrow> 'f syncer
    \<Rightarrow> (package_rows list \<Rightarrow> package_rows list) \<Rightarrow> (month \<Rightarrow> gotime) \<Rightarrow> (gotime \<Rightarrow> month) \<Rightarrow> ingest_options
    \<Rightarrow> string \<Rightarrow> int \<Rightarrow> string res \<Rightarrow> err option \<Rightarrow> 'f checkpoint res \<Rightarrow> 'w \<Rightarrow> err option \<times> ingest_stats option \<times> 'w" where
  "ingest_command reg run transient ended println sync arrive date month_of opts path limit file setup opened w =
     (case names_for path limit file of
        Inl e \<Rightarrow> (Some e, None, w)
      | Inr names \<Rightarrow>
          (case setup of
             Some e \<Rightarrow> (Some e, None, w)
           | None \<Rightarrow>
               (case ingest_run reg run transient ended println sync arrive date month_of (ingest_defaults (io_now opts) opts) names opened w of
                  (e, stats, None) \<Rightarrow> (e, Some stats, w)
                | (e, stats, Some (w, cp)) \<Rightarrow> (e, Some stats, w))))"

definition resolve_command ::
  "query_fun \<Rightarrow> 'w runner \<Rightarrow> (err \<Rightarrow> bool) \<Rightarrow> ('w \<Rightarrow> err option) \<Rightarrow> 'f printer \<Rightarrow> 'f syncer
    \<Rightarrow> (target_rows list \<Rightarrow> target_rows list) \<Rightarrow> resolve_options
    \<Rightarrow> string \<Rightarrow> int \<Rightarrow> string res \<Rightarrow> err option \<Rightarrow> 'f checkpoint res \<Rightarrow> 'w \<Rightarrow> err option \<times> resolve_stats option \<times> 'w" where
  "resolve_command query run transient ended println sync arrive opts path limit file setup opened w =
     (case names_for path limit file of
        Inl e \<Rightarrow> (Some e, None, w)
      | Inr names \<Rightarrow>
          (case setup of
             Some e \<Rightarrow> (Some e, None, w)
           | None \<Rightarrow>
               (case resolve_run query run transient ended println sync arrive opts names opened w of
                  (e, stats, None) \<Rightarrow> (e, Some stats, w)
                | (e, stats, Some (w, cp)) \<Rightarrow> (e, Some stats, w))))"

text \<open>\<open>advisories\<close>: the feed, then the run over it.\<close>

definition advisories_command ::
  "(string \<Rightarrow> nat option) \<Rightarrow> (string \<Rightarrow> int option) \<Rightarrow> (string \<Rightarrow> adv_release list res) \<Rightarrow> 'w runner \<Rightarrow> (err \<Rightarrow> bool) \<Rightarrow> ('w \<Rightarrow> err option)
    \<Rightarrow> (string \<Rightarrow> (bool \<times> string \<times> osv_record res) list res) \<Rightarrow> string \<Rightarrow> int \<Rightarrow> feed_io \<Rightarrow> int \<Rightarrow> err option \<Rightarrow> 'w
    \<Rightarrow> err option \<times> adv_stats option \<times> 'w" where
  "advisories_command parse_float parse_time src run transient ended unzip cache_dir max_age io batch setup w =
     (case setup of
        Some e \<Rightarrow> (Some e, None, w)
      | None \<Rightarrow>
          (case fetch_feed unzip cache_dir max_age io of
             Inl e \<Rightarrow> (Some e, None, w)
           | Inr records \<Rightarrow>
               (case advisory_run parse_float parse_time src run transient ended batch records w of
                  (e, stats, w) \<Rightarrow> (e, Some stats, w))))"

text \<open>\<open>typosquats\<close>: the place of a name in the list is its rank. The rows printed go by falling ratio.\<close>

definition ranks_of :: "string list \<Rightarrow> (string, int) gomap" where
  "ranks_of names = foldl (\<lambda>m (n, k). put n k m) [] (ranked_names 1 names)"

definition by_ratio :: "squat_pair list \<Rightarrow> squat_pair list" where
  "by_ratio cands = sort_slice (\<lambda>x y. popularity_ratio x > popularity_ratio y) cands"

definition typosquats_command ::
  "(string \<Rightarrow> string) \<Rightarrow> (rat \<Rightarrow> nat) \<Rightarrow> 'w runner \<Rightarrow> (err \<Rightarrow> bool) \<Rightarrow> ('w \<Rightarrow> err option) \<Rightarrow> int \<Rightarrow> int
    \<Rightarrow> string \<Rightarrow> int \<Rightarrow> string res \<Rightarrow> err option \<Rightarrow> 'w \<Rightarrow> (squat_pair list \<times> nat) res \<times> 'w" where
  "typosquats_command tables float run transient ended max_distance batch path limit file setup w =
     (case names_for path limit file of
        Inl e \<Rightarrow> (Inl e, w)
      | Inr names \<Rightarrow>
          (let cands = find_candidates tables names (ranks_of names) max_distance in
           case setup of
             Some e \<Rightarrow> (Inl e, w)
           | None \<Rightarrow>
               (case write_typosquats float run transient ended cands batch w of
                  (_, Some e, w) \<Rightarrow> (Inl e, w)
                | (written, None, w) \<Rightarrow> (Inr (by_ratio cands, written), w))))"

subsection \<open>Checking\<close>

text \<open>\<open>verify\<close>: for every name the count the graph answers, the number of dated releases of its timeline and whether
  they agree. A name the graph has no answer for, or the registry no timeline, is passed over.\<close>

record checked_package =
  cp_name :: string
  cp_in_graph :: prim
  cp_dated :: nat
  cp_agrees :: bool

definition count_versions_stmt :: "int \<Rightarrow> string" where
  "count_versions_stmt i = ''MATCH (p:Package {id: '' @ itoa i @ ''})-[:HAS_VERSION]->(v) RETURN count(*) AS n''"

definition dated_count :: "reg_release list \<Rightarrow> nat" where
  "dated_count releases = length (List.filter (\<lambda>rel. g_published rel \<noteq> zero_time) releases)"

fun cross_check :: "query_fun \<Rightarrow> (string \<Rightarrow> reg_release list res) \<Rightarrow> string list \<Rightarrow> checked_package list res" where
  "cross_check query timeline_of [] = Inr []"
| "cross_check query timeline_of (name # names) =
     (case query (count_versions_stmt (node_id (package_urn ''npm'' name))) of
        Inl e \<Rightarrow> Inl (Wrap (''count versions of '' @ name) e)
      | Inr [] \<Rightarrow> cross_check query timeline_of names
      | Inr (rec # recs) \<Rightarrow>
          (case timeline_of name of
             Inl e \<Rightarrow> cross_check query timeline_of names
           | Inr releases \<Rightarrow>
               (let n = column rec ''n''; dated = dated_count releases in
                case cross_check query timeline_of names of
                  Inl e \<Rightarrow> Inl e
                | Inr checked \<Rightarrow> Inr (\<lparr>cp_name = name, cp_in_graph = n, cp_dated = dated, cp_agrees = (n = PInt (int dated))\<rparr> # checked))))"

definition agreed :: "checked_package list \<Rightarrow> nat" where
  "agreed checked = length (List.filter cp_agrees checked)"

definition top_maintainers_stmt :: "int \<Rightarrow> string" where
  "top_maintainers_stmt n = ''MATCH (m:Maintainer)-[:MAINTAINS]->(p:Package) RETURN m.handle AS handle, count(*) AS packages ''
     @ ''ORDER BY packages DESC LIMIT '' @ itoa n"

definition top_maintainers :: "query_fun \<Rightarrow> int \<Rightarrow> (prim \<times> prim) list res" where
  "top_maintainers query n =
     (case query (top_maintainers_stmt n) of
        Inl e \<Rightarrow> Inl (Wrap ''rank maintainers'' e)
      | Inr recs \<Rightarrow> Inr (List.map (\<lambda>rec. (column rec ''handle'', column rec ''packages'')) recs))"

text \<open>A negative sample is a slice bound out of range.\<close>

definition slice_panic :: err where
  "slice_panic = Msg ''slice bounds out of range''"

definition verify_command :: "query_fun \<Rightarrow> (string \<Rightarrow> reg_release list res) \<Rightarrow> string res \<Rightarrow> int \<Rightarrow> int \<Rightarrow> err option
    \<Rightarrow> (checked_package list \<times> (prim \<times> prim) list) res" where
  "verify_command query timeline_of file sample n setup =
     (case setup of
        Some e \<Rightarrow> Inl e
      | None \<Rightarrow>
          (case read_names file of
             Inl e \<Rightarrow> Inl e
           | Inr names \<Rightarrow>
               if sample < 0 then Inl slice_panic
               else (case cross_check query timeline_of (take (nat sample) names) of
                       Inl e \<Rightarrow> Inl e
                     | Inr checked \<Rightarrow>
                         (case top_maintainers query n of Inl e \<Rightarrow> Inl e | Inr ranked \<Rightarrow> Inr (checked, ranked)))))"

lemma cross_check_exact:
  "cross_check query timeline_of names = Inr checked \<Longrightarrow>
     (c \<in> set checked \<longleftrightarrow> (\<exists>rec recs releases. cp_name c \<in> set names
       \<and> query (count_versions_stmt (node_id (package_urn ''npm'' (cp_name c)))) = Inr (rec # recs)
       \<and> timeline_of (cp_name c) = Inr releases
       \<and> c = \<lparr>cp_name = cp_name c, cp_in_graph = column rec ''n'', cp_dated = dated_count releases,
           cp_agrees = (column rec ''n'' = PInt (int (dated_count releases)))\<rparr>))"
proof (induction names arbitrary: checked)
  case (Cons name names)
  show ?case
  proof (cases "query (count_versions_stmt (node_id (package_urn ''npm'' name)))")
    case (Inr recs)
    show ?thesis
    proof (cases recs)
      case Nil
      then show ?thesis using Cons.IH [of checked] Cons.prems Inr by auto
    next
      case (Cons rec rest)
      note q = Inr [unfolded Cons]
      show ?thesis
      proof (cases "timeline_of name")
        case (Inl e)
        then show ?thesis using Cons.IH [of checked] Cons.prems q by auto
      next
        case (Inr releases)
        then obtain more_rows where r: "cross_check query timeline_of names = Inr more_rows"
          "checked = \<lparr>cp_name = name, cp_in_graph = column rec ''n'', cp_dated = dated_count releases,
             cp_agrees = (column rec ''n'' = PInt (int (dated_count releases)))\<rparr> # more_rows"
          using Cons.prems q by (auto simp: Let_def split: sum.splits)
        show ?thesis unfolding r(2) using Cons.IH [OF r(1)] q Inr by auto
      qed
    qed
  qed (use Cons.prems in simp)
qed simp

subsection \<open>The observatory\<close>

text \<open>One epoch: a propagation of its own over the edges of the epoch, and the accounts credited with it.\<close>

record 's epoch_outcome =
  eo_epoch :: int
  eo_packages :: "'s sketches"
  eo_maintainers :: "'s sketches"
  eo_orphaned :: "string list"

definition epoch_outcome ::
  "('s, 'x) sketch_ops_scheme \<Rightarrow> (string \<Rightarrow> int \<Rightarrow> string list res) \<Rightarrow> int \<Rightarrow> string list \<Rightarrow> snapshot_map \<Rightarrow> int
    \<Rightarrow> 's epoch_outcome res option" where
  "epoch_outcome ops holders_of gomaxprocs nodes snaps epoch =
     (case run_epoch ops 0 gomaxprocs nodes (getd [] snaps epoch) of
        None \<Rightarrow> None
      | Some (Inl e) \<Rightarrow> Some (Inl e)
      | Some (Inr packages) \<Rightarrow>
          (case aggregate ops holders_of packages epoch of
             Inl e \<Rightarrow> Some (Inl (Wrap (''aggregate epoch '' @ itoa epoch) e))
           | Inr (ms, orphans) \<Rightarrow> Some (Inr \<lparr>eo_epoch = epoch, eo_packages = packages, eo_maintainers = ms, eo_orphaned = orphans\<rparr>)))"

fun epoch_outcomes ::
  "('s, 'x) sketch_ops_scheme \<Rightarrow> (string \<Rightarrow> int \<Rightarrow> string list res) \<Rightarrow> int \<Rightarrow> string list \<Rightarrow> snapshot_map \<Rightarrow> int list
    \<Rightarrow> 's epoch_outcome list res option" where
  "epoch_outcomes ops holders_of gomaxprocs nodes snaps [] = Some (Inr [])"
| "epoch_outcomes ops holders_of gomaxprocs nodes snaps (e # es) =
     (case epoch_outcome ops holders_of gomaxprocs nodes snaps e of
        None \<Rightarrow> None
      | Some (Inl err) \<Rightarrow> Some (Inl err)
      | Some (Inr r) \<Rightarrow>
          (case epoch_outcomes ops holders_of gomaxprocs nodes snaps es of
             None \<Rightarrow> None
           | Some (Inl err) \<Rightarrow> Some (Inl err)
           | Some (Inr rs) \<Rightarrow> Some (Inr (r # rs))))"

text \<open>Writing: the newest epoch onto the nodes, then every epoch as its own history.\<close>

abbreviation npm_package_of :: "string \<Rightarrow> string" where
  "npm_package_of \<equiv> package_urn ''npm''"

abbreviation npm_maintainer_of :: "string \<Rightarrow> string" where
  "npm_maintainer_of \<equiv> maintainer_urn ''npm''"

fun write_histories :: "'w runner \<Rightarrow> (err \<Rightarrow> bool) \<Rightarrow> ('w \<Rightarrow> err option) \<Rightarrow> ('s \<Rightarrow> int) \<Rightarrow> int \<Rightarrow> 's epoch_outcome list \<Rightarrow> 'w \<Rightarrow> err option \<times> 'w" where
  "write_histories run transient ended cnt batch [] w = (None, w)"
| "write_histories run transient ended cnt batch (r # rs) w =
     (case write_kri_history run transient ended cnt (eo_packages r) (eo_orphaned r) (eo_epoch r) ''Package'' npm_package_of batch w of
        (_, Some e, w) \<Rightarrow> (Some (Wrap (''write kri history for packages, epoch '' @ itoa (eo_epoch r)) e), w)
      | (_, None, w) \<Rightarrow>
          (case write_kri_history run transient ended cnt (eo_maintainers r) [] (eo_epoch r) ''Maintainer'' npm_maintainer_of batch w of
             (_, Some e, w) \<Rightarrow> (Some (Wrap (''write kri history for maintainers, epoch '' @ itoa (eo_epoch r)) e), w)
           | (_, None, w) \<Rightarrow> write_histories run transient ended cnt batch rs w))"

definition write_outcomes :: "'w runner \<Rightarrow> (err \<Rightarrow> bool) \<Rightarrow> ('w \<Rightarrow> err option) \<Rightarrow> ('s \<Rightarrow> int) \<Rightarrow> int \<Rightarrow> 's epoch_outcome list \<Rightarrow> 'w \<Rightarrow> err option \<times> 'w" where
  "write_outcomes run transient ended cnt batch rs w =
     (let latest = last rs in
      case write_back run transient ended cnt (eo_packages latest) (eo_epoch latest) ''Package'' npm_package_of batch w of
        (_, Some e, w) \<Rightarrow> (Some (Wrap ''write back package kri'' e), w)
      | (_, None, w) \<Rightarrow>
          (case write_back run transient ended cnt (eo_maintainers latest) (eo_epoch latest) ''Maintainer'' npm_maintainer_of batch w of
             (_, Some e, w) \<Rightarrow> (Some (Wrap ''write back maintainer kri'' e), w)
           | (_, None, w) \<Rightarrow> write_histories run transient ended cnt batch rs w))"

text \<open>What is printed: the boards of the newest epoch, the curve of at most eight accounts over the epochs, and the
  validation of the leading packages against the exact sets.\<close>

record board_report =
  br_maintainers :: "leader list"
  br_curve :: "(string \<times> int option list) list"
  br_packages :: "leader list"
  br_orphans :: "leader list"
  br_validation :: "validation list"

definition reach_curve :: "('s \<Rightarrow> int) \<Rightarrow> leader list \<Rightarrow> 's epoch_outcome list \<Rightarrow> (string \<times> int option list) list" where
  "reach_curve cnt leaders rs =
     (if length rs > 1
      then List.map (\<lambda>e. (lb_name e, List.map (\<lambda>r. map_option cnt (map_of (eo_maintainers r) (lb_name e))) rs)) (take 8 leaders)
      else [])"

definition report_boards ::
  "('s, 'x) sketch_ops_scheme \<Rightarrow> int \<Rightarrow> string list \<Rightarrow> snapshot_map \<Rightarrow> 's epoch_outcome list \<Rightarrow> int \<Rightarrow> int \<Rightarrow> board_report res option" where
  "report_boards ops gomaxprocs nodes snaps rs rows_shown sample =
     (let latest = last rs; cnt = sk_count ops; board = leaderboard cnt (eo_maintainers latest) rows_shown in
      case orphaned_board cnt (eo_packages latest) (eo_orphaned latest) rows_shown of
        Inl e \<Rightarrow> Some (Inl e)
      | Inr orphans \<Rightarrow>
          (let rep = \<lparr>br_maintainers = board, br_curve = reach_curve cnt board rs,
             br_packages = leaderboard cnt (eo_packages latest) rows_shown, br_orphans = orphans, br_validation = []\<rparr> in
           if sample > 0
           then (case validate ops gomaxprocs nodes (getd [] snaps (eo_epoch latest))
                     (List.map lb_name (leaderboard cnt (eo_packages latest) sample)) of
                   None \<Rightarrow> None
                 | Some (Inl e) \<Rightarrow> Some (Inl e)
                 | Some (Inr vs) \<Rightarrow> Some (Inr (rep\<lparr>br_validation := sort_slice (\<lambda>x y. va_exact x > va_exact y) vs\<rparr>)))
           else Some (Inr rep)))"

record observatory_flags =
  of_limit :: int
  of_epochs :: int
  of_batch :: int
  of_top :: int
  of_validate :: int
  of_write :: bool

text \<open>No epochs leave no newest one to look at: the index of the last run is out of range. A negative number of them is a
  capacity out of range.\<close>

definition index_panic :: err where
  "index_panic = Msg ''index out of range [-1]''"

definition capacity_panic :: err where
  "capacity_panic = Msg ''makeslice: cap out of range''"

definition observatory_steps ::
  "('s, 'x) sketch_ops_scheme \<Rightarrow> obs_source \<Rightarrow> (string \<Rightarrow> int \<Rightarrow> string list res) \<Rightarrow> int \<Rightarrow> 'w runner \<Rightarrow> (err \<Rightarrow> bool) \<Rightarrow> ('w \<Rightarrow> err option)
    \<Rightarrow> observatory_flags \<Rightarrow> string list \<Rightarrow> int list \<Rightarrow> 'w \<Rightarrow> ('s epoch_outcome list \<times> board_report) res option \<times> 'w" where
  "observatory_steps ops src holders_of gomaxprocs run transient ended flags names es w =
     (case snapshots src names es of
        Inl e \<Rightarrow> (Some (Inl (Wrap ''snapshots'' e)), w)
      | Inr snaps \<Rightarrow>
          (case (if of_write flags then write_snapshots run transient ended snaps (of_batch flags) w else (0, None, w)) of
             (_, Some e, w) \<Rightarrow> (Some (Inl (Wrap ''write PKG_RESOLVES'' e)), w)
           | (_, None, w) \<Rightarrow>
               (case epoch_outcomes ops holders_of gomaxprocs names snaps es of
                  None \<Rightarrow> (None, w)
                | Some (Inl e) \<Rightarrow> (Some (Inl e), w)
                | Some (Inr rs) \<Rightarrow>
                    if rs = [] then (Some (Inl index_panic), w)
                    else (case (if of_write flags then write_outcomes run transient ended (sk_count ops) (of_batch flags) rs w else (None, w)) of
                            (Some e, w) \<Rightarrow> (Some (Inl e), w)
                          | (None, w) \<Rightarrow>
                              (case report_boards ops gomaxprocs names snaps rs (of_top flags) (of_validate flags) of
                                 None \<Rightarrow> (None, w)
                               | Some (Inl e) \<Rightarrow> (Some (Inl e), w)
                               | Some (Inr rep) \<Rightarrow> (Some (Inr (rs, rep)), w))))))"

definition observatory_command ::
  "('s, 'x) sketch_ops_scheme \<Rightarrow> obs_source \<Rightarrow> (string \<Rightarrow> int \<Rightarrow> string list res) \<Rightarrow> int \<Rightarrow> 'w runner \<Rightarrow> (err \<Rightarrow> bool) \<Rightarrow> ('w \<Rightarrow> err option)
    \<Rightarrow> (month \<Rightarrow> gotime) \<Rightarrow> (gotime \<Rightarrow> month) \<Rightarrow> gotime \<Rightarrow> observatory_flags \<Rightarrow> string \<Rightarrow> string res \<Rightarrow> err option \<Rightarrow> 'w
    \<Rightarrow> ('s epoch_outcome list \<times> board_report) res option \<times> 'w" where
  "observatory_command ops src holders_of gomaxprocs run transient ended date month_of now flags path file setup w =
     (case names_for path (of_limit flags) file of
        Inl e \<Rightarrow> (Some (Inl e), w)
      | Inr names \<Rightarrow>
          (case setup of
             Some e \<Rightarrow> (Some (Inl e), w)
           | None \<Rightarrow>
               if of_epochs flags < 0 then (Some (Inl capacity_panic), w)
               else observatory_steps ops src holders_of gomaxprocs run transient ended flags names
                      (epochs date (nat (of_epochs flags)) (month_of now)) w))"

subsection \<open>What the observatory leaves in the graph\<close>

definition kri_row :: "('s \<Rightarrow> int) \<Rightarrow> int \<Rightarrow> (string \<Rightarrow> string) \<Rightarrow> string \<times> 's \<Rightarrow> row" where
  "kri_row cnt instant urn e = [(''id'', PInt (node_id (urn (fst e)))), (''kri'', PInt (cnt (snd e))), (''at'', PInt instant)]"

text \<open>The rows of one epoch's history, and all a run writes for the snapshots and outcomes of its epochs.\<close>

definition history_rows :: "('s \<Rightarrow> int) \<Rightarrow> 's epoch_outcome \<Rightarrow> (string \<times> row) set" where
  "history_rows cnt r =
     {kri_history_stmt ''Package''} \<times> kri_history_row cnt (eo_orphaned r) (eo_epoch r) npm_package_of ` set (eo_packages r)
     \<union> {kri_history_stmt ''Maintainer''} \<times> kri_history_row cnt [] (eo_epoch r) npm_maintainer_of ` set (eo_maintainers r)"

definition observatory_rows :: "('s \<Rightarrow> int) \<Rightarrow> snapshot_map \<Rightarrow> 's epoch_outcome list \<Rightarrow> (string \<times> row) set" where
  "observatory_rows cnt snaps rs =
     {link_pkg_resolves} \<times> {snapshot_row epoch e | epoch es e. (epoch, es) \<in> set snaps \<and> e \<in> set es}
     \<union> {kri_stmt ''Package''} \<times> kri_row cnt (eo_epoch (last rs)) npm_package_of ` set (eo_packages (last rs))
     \<union> {kri_stmt ''Maintainer''} \<times> kri_row cnt (eo_epoch (last rs)) npm_maintainer_of ` set (eo_maintainers (last rs))
     \<union> (\<Union>r \<in> set rs. history_rows cnt r)"

context merge_store
begin

lemma write_back_rows:
  assumes "write_back run transient ended cnt results instant label urn batch w = (n, None, w')"
  shows "rows_in w' = rows_in w \<union> {kri_stmt label} \<times> kri_row cnt instant urn ` set results"
proof -
  have "List.map (\<lambda>(i, sk). [(''id'', PInt (node_id (urn i))), (''kri'', PInt (cnt sk)), (''at'', PInt instant)]) results
      = List.map (kri_row cnt instant urn) results"
    by (simp add: kri_row_def case_prod_unfold)
  then show ?thesis using write_batch_rows assms by (fastforce simp: write_back_def Let_def)
qed

lemma write_kri_history_rows:
  assumes "write_kri_history run transient ended cnt results orphans instant label urn batch w = (n, None, w')"
  shows "rows_in w' = rows_in w \<union> {kri_history_stmt label} \<times> kri_history_row cnt orphans instant urn ` set results"
  using write_batch_rows [OF assms [unfolded write_kri_history_def]] by simp

lemma write_snapshots_rows:
  assumes "write_snapshots run transient ended snaps batch w = (n, None, w')"
  shows "rows_in w' = rows_in w \<union> {link_pkg_resolves} \<times> {snapshot_row epoch e | epoch es e. (epoch, es) \<in> set snaps \<and> e \<in> set es}"
proof -
  have "set (concat (List.map (\<lambda>(epoch, es). List.map (snapshot_row epoch) es) snaps)) = {snapshot_row epoch e | epoch es e. (epoch, es) \<in> set snaps \<and> e \<in> set es}"
    by fastforce
  then show ?thesis using write_batch_rows [OF assms [unfolded write_snapshots_def]] by simp
qed

lemma write_histories_rows:
  "write_histories run transient ended cnt batch rs w = (None, w') \<Longrightarrow> rows_in w' = rows_in w \<union> (\<Union>r \<in> set rs. history_rows cnt r)"
proof (induction rs arbitrary: w)
  case (Cons r rs)
  obtain n1 w1 n2 w2 where
    1: "write_kri_history run transient ended cnt (eo_packages r) (eo_orphaned r) (eo_epoch r) ''Package'' npm_package_of batch w = (n1, None, w1)" and
    2: "write_kri_history run transient ended cnt (eo_maintainers r) [] (eo_epoch r) ''Maintainer'' npm_maintainer_of batch w1 = (n2, None, w2)" and
    3: "write_histories run transient ended cnt batch rs w2 = (None, w')"
    using Cons.prems by (auto split: prod.splits option.splits)
  show ?case
    unfolding Cons.IH [OF 3] write_kri_history_rows [OF 2] write_kri_history_rows [OF 1] by (simp add: history_rows_def Un_assoc)
qed simp

lemma write_outcomes_rows:
  assumes "write_outcomes run transient ended cnt batch rs w = (None, w')"
  shows "rows_in w' = rows_in w
    \<union> {kri_stmt ''Package''} \<times> kri_row cnt (eo_epoch (last rs)) npm_package_of ` set (eo_packages (last rs))
    \<union> {kri_stmt ''Maintainer''} \<times> kri_row cnt (eo_epoch (last rs)) npm_maintainer_of ` set (eo_maintainers (last rs))
    \<union> (\<Union>r \<in> set rs. history_rows cnt r)"
proof -
  let ?l = "last rs"
  obtain n1 w1 n2 w2 where
    1: "write_back run transient ended cnt (eo_packages ?l) (eo_epoch ?l) ''Package'' npm_package_of batch w = (n1, None, w1)" and
    2: "write_back run transient ended cnt (eo_maintainers ?l) (eo_epoch ?l) ''Maintainer'' npm_maintainer_of batch w1 = (n2, None, w2)" and
    3: "write_histories run transient ended cnt batch rs w2 = (None, w')"
    using assms by (auto simp: write_outcomes_def Let_def split: prod.splits option.splits)
  show ?thesis unfolding write_histories_rows [OF 3] write_back_rows [OF 2] write_back_rows [OF 1] by (simp only: Un_assoc)
qed

end

text \<open>An outcome is that of its epoch alone.\<close>

definition outcome_of ::
  "('s, 'x) sketch_ops_scheme \<Rightarrow> (string \<Rightarrow> int \<Rightarrow> string list res) \<Rightarrow> int \<Rightarrow> string list \<Rightarrow> snapshot_map \<Rightarrow> int \<Rightarrow> 's epoch_outcome \<Rightarrow> bool" where
  "outcome_of ops holders_of gomaxprocs nodes snaps e r \<longleftrightarrow>
     eo_epoch r = e \<and> run_epoch ops 0 gomaxprocs nodes (getd [] snaps e) = Some (Inr (eo_packages r))
     \<and> aggregate ops holders_of (eo_packages r) e = Inr (eo_maintainers r, eo_orphaned r)"

lemma epoch_outcomes_each:
  "epoch_outcomes ops holders_of gomaxprocs nodes snaps es = Some (Inr rs) \<Longrightarrow> list_all2 (outcome_of ops holders_of gomaxprocs nodes snaps) es rs"
proof (induction es arbitrary: rs)
  case (Cons e es)
  obtain r rest where r: "epoch_outcome ops holders_of gomaxprocs nodes snaps e = Some (Inr r)"
    "epoch_outcomes ops holders_of gomaxprocs nodes snaps es = Some (Inr rest)" "rs = r # rest"
    using Cons.prems by (auto split: option.splits sum.splits)
  have "outcome_of ops holders_of gomaxprocs nodes snaps e r"
    using r(1) by (auto simp: epoch_outcome_def outcome_of_def split: option.splits sum.splits)
  then show ?case using Cons.IH [OF r(2)] r(3) by simp
qed simp

lemma observatory_steps_cases:
  assumes "observatory_steps ops src holders_of gomaxprocs run transient ended flags names es w = (Some (Inr (rs, rep)), w')" "of_write flags"
  obtains snaps n w1 w2 where "snapshots src names es = Inr snaps" "write_snapshots run transient ended snaps (of_batch flags) w = (n, None, w1)"
    "epoch_outcomes ops holders_of gomaxprocs names snaps es = Some (Inr rs)" "rs \<noteq> []"
    "write_outcomes run transient ended (sk_count ops) (of_batch flags) rs w1 = (None, w')"
proof -
  note R = assms(1) [unfolded observatory_steps_def]
  obtain snaps where s: "snapshots src names es = Inr snaps" using R by (cases "snapshots src names es") simp_all
  obtain n e w1 where ws: "write_snapshots run transient ended snaps (of_batch flags) w = (n, e, w1)" by (metis prod_cases3)
  have e: "e = None" using R assms(2) by (cases e) (simp_all add: s ws)
  obtain rs' where o1: "epoch_outcomes ops holders_of gomaxprocs names snaps es = Some (Inr rs')"
    using R assms(2) by (auto simp: s ws e split: option.splits sum.splits)
  have ne: "rs' \<noteq> []" using R assms(2) by (auto simp: s ws e o1)
  obtain e2 w2 where wo: "write_outcomes run transient ended (sk_count ops) (of_batch flags) rs' w1 = (e2, w2)" by (metis surj_pair)
  have e2: "e2 = None" using R assms(2) ne by (cases e2) (simp_all add: s ws e o1 wo)
  have "rs' = rs \<and> w2 = w'"
    using R assms(2) ne by (auto simp: s ws e o1 wo e2 split: option.splits sum.splits)
  then show ?thesis using that s ws e o1 ne wo e2 by simp
qed

text \<open>C34: A run of the observatory that returns leaves in the graph, beside what was there, exactly the package edges of
  every epoch, the counts of the newest epoch on the packages and the accounts, and for every epoch a history row of each;
  and the counts of an epoch come from a propagation over the edges of that epoch alone, whatever the epochs before it were.\<close>

theorem observatory_writes_epochs:
  assumes "merge_store run rows_in" "of_write flags"
    and "observatory_steps ops src holders_of gomaxprocs run transient ended flags names es w = (Some (Inr (rs, rep)), w')"
  shows "\<exists>snaps. snapshots src names es = Inr snaps \<and> rs \<noteq> []
    \<and> list_all2 (outcome_of ops holders_of gomaxprocs names snaps) es rs
    \<and> rows_in w' = rows_in w \<union> observatory_rows (sk_count ops) snaps rs"
proof -
  obtain snaps n w1 where s: "snapshots src names es = Inr snaps" "write_snapshots run transient ended snaps (of_batch flags) w = (n, None, w1)"
    "epoch_outcomes ops holders_of gomaxprocs names snaps es = Some (Inr rs)" "rs \<noteq> []"
    "write_outcomes run transient ended (sk_count ops) (of_batch flags) rs w1 = (None, w')"
    by (rule observatory_steps_cases [OF assms(3,2)])
  have "rows_in w' = rows_in w \<union> observatory_rows (sk_count ops) snaps rs"
    unfolding merge_store.write_outcomes_rows [OF assms(1) s(5)] merge_store.write_snapshots_rows [OF assms(1) s(2)] observatory_rows_def
    by (simp only: Un_assoc)
  then show ?thesis using s(1,4) epoch_outcomes_each [OF s(3)] by blast
qed

text \<open>A graph in memory that fails nothing.\<close>

lemma mem_write_chunks:
  "mem_script w = [] \<Longrightarrow> batch > 0 \<Longrightarrow> \<exists>n. write_chunks mem_run transient ended stmt batch ntotal written rows w =
    (n, None, w\<lparr>mem_rows := mem_rows w @ List.map (Pair stmt) rows\<rparr>)"
proof (induction "length rows" arbitrary: rows written w rule: less_induct)
  case less
  show ?case
  proof (cases "rows = []")
    case True
    then show ?thesis by (simp add: write_chunks.simps)
  next
    case False
    let ?w = "w\<lparr>mem_rows := mem_rows w @ List.map (Pair stmt) (take batch rows)\<rparr>"
    have "run_chunk mem_run transient ended stmt (take batch rows) w = (None, ?w)"
      using less.prems(1) by (cases w) (simp add: run_chunk_def mem_run_def eval_nat_numeral)
    moreover have "length (drop batch rows) < length rows" using less.prems(2) False by simp
    moreover have "List.map (Pair stmt) (take batch rows) @ List.map (Pair stmt) (drop batch rows) = List.map (Pair stmt) rows"
      by (simp flip: map_append)
    ultimately show ?thesis
      using less.hyps [of "drop batch rows" ?w "written + length (take batch rows)"] less.prems False
      by (simp add: write_chunks.simps [of _ _ _ _ _ _ _ rows] Let_def)
  qed
qed

lemma mem_write_batch:
  "mem_script w = [] \<Longrightarrow> batch \<le> max_batch \<Longrightarrow> \<exists>n. write_batch mem_run transient ended stmt rows batch w =
    (n, None, w\<lparr>mem_rows := mem_rows w @ List.map (Pair stmt) rows\<rparr>)"
  using mem_write_chunks [of w "nat (if batch \<le> 0 then default_batch else batch)" transient ended stmt "length rows" 0 rows]
  by (auto simp: write_batch_def Let_def default_batch_def max_batch_def)

lemma mem_write_ok:
  assumes "mem_script w = []" "batch \<le> max_batch"
  obtains n w' where "write_batch mem_run transient ended stmt rows batch w = (n, None, w')" "mem_script w' = []"
  using mem_write_batch [OF assms, of transient ended stmt rows] assms(1) by auto

lemma mem_write_histories:
  "mem_script w = [] \<Longrightarrow> batch \<le> max_batch \<Longrightarrow> \<exists>w'. write_histories mem_run transient ended cnt batch rs w = (None, w') \<and> mem_script w' = []"
proof (induction rs arbitrary: w)
  case (Cons r rs)
  obtain n1 w1 where 1: "write_kri_history mem_run transient ended cnt (eo_packages r) (eo_orphaned r) (eo_epoch r) ''Package'' npm_package_of batch w
      = (n1, None, w1)" "mem_script w1 = []"
    unfolding write_kri_history_def by (rule mem_write_ok [OF Cons.prems])
  obtain n2 w2 where 2: "write_kri_history mem_run transient ended cnt (eo_maintainers r) [] (eo_epoch r) ''Maintainer'' npm_maintainer_of batch w1
      = (n2, None, w2)" "mem_script w2 = []"
    unfolding write_kri_history_def by (rule mem_write_ok [OF 1(2) Cons.prems(2)])
  from Cons.IH [OF 2(2) Cons.prems(2)] show ?case by (simp add: 1 2)
qed simp

lemma mem_write_outcomes:
  assumes "mem_script w = []" "batch \<le> max_batch"
  shows "\<exists>w'. write_outcomes mem_run transient ended cnt batch rs w = (None, w')"
proof -
  let ?l = "last rs"
  obtain n1 w1 where 1: "write_back mem_run transient ended cnt (eo_packages ?l) (eo_epoch ?l) ''Package'' npm_package_of batch w = (n1, None, w1)"
    "mem_script w1 = []" unfolding write_back_def Let_def by (rule mem_write_ok [OF assms])
  obtain n2 w2 where 2: "write_back mem_run transient ended cnt (eo_maintainers ?l) (eo_epoch ?l) ''Maintainer'' npm_maintainer_of batch w1 = (n2, None, w2)"
    "mem_script w2 = []" unfolding write_back_def Let_def by (rule mem_write_ok [OF 1(2) assms(2)])
  obtain w3 where 3: "write_histories mem_run transient ended cnt batch rs w2 = (None, w3)"
    using mem_write_histories [OF 2(2) assms(2)] by blast
  show ?thesis by (simp add: write_outcomes_def Let_def 1 2 3)
qed

lemma epoch_outcomes_return:
  assumes "\<And>n. H n \<noteq> []"
  shows "\<exists>rs. epoch_outcomes exact_ops (\<lambda>n _. Inr (H n)) gomaxprocs nodes snaps es = Some (Inr rs) \<and> (\<forall>r \<in> set rs. eo_orphaned r = [])"
proof (induction es)
  case (Cons e es)
  obtain out where out: "run_epoch exact_ops 0 gomaxprocs nodes (getd [] snaps e) = Some (Inr out)"
    "exact.holds out (epoch_nodes nodes (getd [] snaps e)) (\<lambda>v. {u. (u, v) \<in> (arcs (getd [] snaps e))\<^sup>*})"
    using exact.epoch_exact by blast
  obtain ms where ms: "aggregate exact_ops (\<lambda>n _. Inr (H n)) out e = Inr (ms, List.filter (\<lambda>n. H n = []) (keys out))"
    using exact.aggregate_holds [OF out(2)] by blast
  then have "aggregate exact_ops (\<lambda>n _. Inr (H n)) out e = Inr (ms, [])" using assms by simp
  then have "epoch_outcome exact_ops (\<lambda>n _. Inr (H n)) gomaxprocs nodes snaps e =
      Some (Inr \<lparr>eo_epoch = e, eo_packages = out, eo_maintainers = ms, eo_orphaned = []\<rparr>)"
    by (simp add: epoch_outcome_def out(1))
  then show ?case using Cons.IH by auto
qed simp

text \<open>Three epochs of one package, which depends on another from the second on.\<close>

theorem observatory_writes_epochs_witness:
  "\<exists>rs rep w'. observatory_steps exact_ops sample_source (\<lambda>_ _. Inr [''ann'']) 1 mem_run (\<lambda>_. False) (\<lambda>_. None)
       \<lparr>of_limit = 0, of_epochs = 3, of_batch = 0, of_top = 20, of_validate = 0, of_write = True\<rparr> [''a''] [5, 25, 30]
       \<lparr>mem_script = [], mem_rows = []\<rparr> = (Some (Inr (rs, rep)), w')
     \<and> List.map eo_epoch rs = [5, 25, 30]
     \<and> (link_pkg_resolves, snapshot_row 25 \<lparr>pe_from = ''a'', pe_to = ''old''\<rparr>) \<in> set (mem_rows w')"
proof -
  let ?flags = "\<lparr>of_limit = 0, of_epochs = 3, of_batch = 0, of_top = 20, of_validate = 0, of_write = True\<rparr>"
  let ?w = "\<lparr>mem_script = [], mem_rows = []\<rparr>"
  let ?snaps = "[(5, []), (25, [\<lparr>pe_from = ''a'', pe_to = ''old''\<rparr>]), (30, [\<lparr>pe_from = ''a'', pe_to = ''new''\<rparr>])]"
  obtain n w1 where ws: "write_snapshots mem_run (\<lambda>_. False) (\<lambda>_. None) ?snaps 0 ?w = (n, None, w1)" "mem_script w1 = []"
    unfolding write_snapshots_def by (rule mem_write_ok [of ?w 0]) (simp_all add: max_batch_def)
  obtain rs where rs: "epoch_outcomes exact_ops (\<lambda>_ _. Inr [''ann'']) 1 [''a''] ?snaps [5, 25, 30] = Some (Inr rs)"
    "\<forall>r \<in> set rs. eo_orphaned r = []"
    using epoch_outcomes_return [of "\<lambda>_. [''ann'']"] by blast
  have each: "list_all2 (outcome_of exact_ops (\<lambda>_ _. Inr [''ann'']) 1 [''a''] ?snaps) [5, 25, 30] rs" by (rule epoch_outcomes_each [OF rs(1)])
  then have ne: "rs \<noteq> []" and es: "List.map eo_epoch rs = [5, 25, 30]"
    by (auto simp: outcome_of_def list_all2_Cons1)
  have last_orphans: "eo_orphaned (last rs) = []" using rs(2) ne by simp
  obtain w' where wo: "write_outcomes mem_run (\<lambda>_. False) (\<lambda>_. None) (sk_count exact_ops) 0 rs w1 = (None, w')"
    using mem_write_outcomes [OF ws(2), of 0 "\<lambda>_. False" "\<lambda>_. None" "sk_count exact_ops" rs] by (auto simp: max_batch_def)
  obtain rep where rep: "report_boards exact_ops 1 [''a''] ?snaps rs 20 0 = Some (Inr rep)"
    using last_orphans by (simp add: report_boards_def Let_def orphaned_board_def)
  have run: "observatory_steps exact_ops sample_source (\<lambda>_ _. Inr [''ann'']) 1 mem_run (\<lambda>_. False) (\<lambda>_. None)
       ?flags [''a''] [5, 25, 30] ?w = (Some (Inr (rs, rep)), w')"
    using ne by (simp add: observatory_steps_def sample_snapshots ws(1) rs(1) wo rep del: epoch_outcomes.simps)
  have "set (mem_rows w') = set (mem_rows ?w) \<union> observatory_rows (sk_count exact_ops) ?snaps rs"
    using observatory_writes_epochs [OF mem.merge_store_axioms _ run] by (auto simp: sample_snapshots)
  moreover have "(link_pkg_resolves, snapshot_row 25 \<lparr>pe_from = ''a'', pe_to = ''old''\<rparr>) \<in> observatory_rows (sk_count exact_ops) ?snaps rs"
    unfolding observatory_rows_def by (intro UnI1) force
  ultimately show ?thesis using run es by (intro exI [of _ rs] exI [of _ rep] exI [of _ w']) simp
qed

text \<open>Asked for no epochs, the command reads every timeline and then looks for the newest of none.\<close>

theorem observatory_without_epochs:
  assumes "names_for path (of_limit flags) file = Inr names" "snapshots src names [] = Inr snaps" "of_epochs flags = 0" "\<not> of_write flags"
  shows "observatory_command ops src holders_of gomaxprocs run transient ended date month_of now flags path file None w = (Some (Inl index_panic), w)"
  using assms by (simp add: observatory_command_def observatory_steps_def epochs_def)

text \<open>The rank of a name is its place in the list.\<close>

lemma ranks_fold:
  "distinct names \<Longrightarrow> getd d (foldl (\<lambda>m (n, k). put n k m) m (ranked_names k names)) n =
     (if n \<in> set names then k + int (length (takeWhile (\<lambda>x. x \<noteq> n) names)) else getd d m n)"
proof (induction names arbitrary: m k)
  case (Cons x names)
  show ?case
  proof (cases "x = n")
    case True
    then have "n \<notin> set names" using Cons.prems by simp
    then show ?thesis using Cons True by simp
  next
    case False
    then show ?thesis using Cons by simp
  qed
qed simp

lemma ranks_of_place:
  assumes "distinct names" "i < length names"
  shows "getd d (ranks_of names) (names ! i) = int i + 1"
proof -
  have "takeWhile (\<lambda>x. x \<noteq> names ! i) names = take i names"
    by (rule takeWhile_eq_take_P_nth) (use assms in \<open>simp_all add: nth_eq_iff_index_eq\<close>)
  then show ?thesis using ranks_fold [OF assms(1), of d "[]" 1 "names ! i"] assms(2) by (simp add: ranks_of_def)
qed

end
