(* ===== verification/Report.thy ===== *)
theory Report
  imports Commands Batch
begin

text \<open>
  What the commands of \<open>cmd/keyholders\<close> print, from the results theories \<open>Commands\<close> and \<open>Batch\<close> compute: lines of text,
  and tables as the rows of cells that \<open>tabwriter\<close> aligns. \<open>fixed n x\<close> is the decimal text of a real number with \<open>n\<close>
  digits, as \<open>%.nf\<close> gives it; durations are texts. At the end, the choice of a command and the exit status of the process.
\<close>

datatype printed = Line string | Table "string list list"

definition rule_line :: printed where
  "rule_line = Line (replicate 64 (CHR ''-''))"

definition bare_name :: "string \<Rightarrow> string" where
  "bare_name urn = trim_prefix ''pkg:npm/'' urn"

definition day_text :: "int \<Rightarrow> string" where
  "day_text t = (if t \<le> 0 then ''-'' else date_text t)"

definition open_or_date :: "int \<Rightarrow> string" where
  "open_or_date t = (if t \<ge> open_interval then ''now'' else date_text t)"

definition right_padded :: "nat \<Rightarrow> string \<Rightarrow> string" where
  "right_padded n s = s @ replicate (n - length s) (CHR '' '')"

definition left_padded :: "nat \<Rightarrow> string \<Rightarrow> string" where
  "left_padded n s = replicate (n - length s) (CHR '' '') @ s"

definition percent :: "(nat \<Rightarrow> real \<Rightarrow> string) \<Rightarrow> int \<Rightarrow> int \<Rightarrow> string" where
  "percent fixed part whole = (if whole = 0 then ''0%'' else fixed 1 (100 * of_int part / of_int whole) @ ''%'')"

text \<open>The loop of every table that is cut short: the rows before \<open>shown\<close>, then a row for the rest.\<close>

fun limited :: "int \<Rightarrow> nat \<Rightarrow> nat \<Rightarrow> ('a \<Rightarrow> 'b) \<Rightarrow> (int \<Rightarrow> 'b) \<Rightarrow> 'a list \<Rightarrow> 'b list" where
  "limited shown whole i f rest [] = []"
| "limited shown whole i f rest (x # xs) =
     (if int i \<ge> shown then [rest (int whole - shown)] else f x # limited shown whole (i + 1) f rest xs)"

definition limited_rows :: "int \<Rightarrow> ('a \<Rightarrow> 'b) \<Rightarrow> (int \<Rightarrow> 'b) \<Rightarrow> 'a list \<Rightarrow> 'b list" where
  "limited_rows shown f rest xs = limited shown (length xs) 0 f rest xs"

definition rest_row :: "nat \<Rightarrow> int \<Rightarrow> string list" where
  "rest_row cells n = (''  ... and '' @ itoa n @ '' more'') # replicate cells []"

subsection \<open>The gate\<close>

definition exposure_lines :: "reached_advisory \<Rightarrow> printed list" where
  "exposure_lines e =
     Line (''    '' @ bare_name (ra_version e))
     # List.map (\<lambda>a. Line (''      '' @ ai_id a @ ''  '' @ ai_severity a @ ''  '' @ ai_summary a)) (ra_advisories e)"

definition report_ci_check :: "string \<Rightarrow> string \<Rightarrow> reached_advisory list \<Rightarrow> string list \<Rightarrow> printed list" where
  "report_ci_check path base exposures new =
     [Line [], Line (''keyholders ci-check  '' @ path), rule_line]
     @ (if length exposures = 0 then [Line [], Line ''  no reached version carries a live advisory'']
        else [Line [], Line (''  '' @ utoa (length exposures) @ '' reached version(s) carry a live advisory:''), Line []]
          @ concat (List.map exposure_lines exposures))
     @ (if base \<noteq> [] then
          (if length new = 0 then [Line [], Line (''  no new keyholder relative to '' @ base)]
           else [Line [], Line (''  '' @ utoa (length new) @ '' new keyholder(s) relative to '' @ base @ '':''), Line []]
             @ List.map (\<lambda>h. Line (''    '' @ h)) new)
        else [])
     @ [Line []]"

subsection \<open>The incident\<close>

definition heading :: "string \<Rightarrow> printed list" where
  "heading s = [Line [], Line (''  '' @ s), Line []]"

definition report_advisories_found :: "(string \<Rightarrow> string) \<Rightarrow> advisory_info list \<Rightarrow> printed list" where
  "report_advisories_found upper advisories =
     heading ''advisories''
     @ (if length advisories = 0 then [Line ''  none found affecting this exact version'']
        else [Table ([''  id'', ''severity'', ''summary'']
          # List.map (\<lambda>a. [''  '' @ ai_id a, or_dash (ai_severity a), truncate_summary (ai_summary a) 70]) (by_severity upper advisories))])"

definition report_introductions :: "introduction list \<Rightarrow> printed list" where
  "report_introductions introductions =
     (if length introductions = 0 then []
      else heading ''introduced'' @ [Table ([''  version'', ''published'', ''previous'', ''dependency changes'']
        # List.map (\<lambda>n. [''  '' @ in_first_affected n, day_text (in_published_at n), or_dash (in_previous n), summarize_diff (in_diff n)]) introductions)])"

definition report_exposed :: "recorded_project list \<Rightarrow> printed list" where
  "report_exposed exposed =
     heading ''transitively exposed''
     @ (if length exposed = 0 then [Line ''  none of the recorded projects reach this version'']
        else [Table ([''  project'', ''locked at''] # List.map (\<lambda>e. [''  '' @ rp_name e, day_text (rp_locked_at e)]) exposed)])"

definition report_live :: "exposure list \<Rightarrow> printed list" where
  "report_live live =
     heading ''resolved the compromised version while it was live''
     @ (if length live = 0 then [Line ''  no recorded project locked a dependent whose resolution into this version was live at the time'']
        else [Table ([''  project'', ''locked at'', ''through'', ''live from'', ''live to'']
          # List.map (\<lambda>l. [''  '' @ x_project l, day_text (x_locked_at l), x_dependent l, day_text (x_from l), open_or_date (x_to l)]) live)])"

definition report_shared :: "shared_maintainer list \<Rightarrow> int \<Rightarrow> printed list" where
  "report_shared shared shown =
     heading ''shares a maintainer with''
     @ (if length shared = 0 then [Line ''  no other package shares a maintainer with this one'']
        else [Table ([''  package'', ''through''] # limited_rows shown (\<lambda>s. [''  '' @ sm_package s, sm_maintainer s]) (rest_row 1) shared)])"

text \<open>\<open>whole\<close> is the text of a float without decimals, given by its bits.\<close>

definition report_neighbors :: "(nat \<Rightarrow> string) \<Rightarrow> typosquat_neighbor list \<Rightarrow> int \<Rightarrow> printed list" where
  "report_neighbors whole nearby shown =
     heading ''likely typosquats nearby''
     @ (if length nearby = 0 then [Line ''  none materialized against this package'']
        else [Table ([''  name'', ''relation'', ''distance'', ''popularity ratio'']
          # limited_rows shown (\<lambda>n. [''  '' @ tn_name n, tn_direction n, itoa (tn_distance n), whole (tn_ratio n) @ ''x'']) (rest_row 3) nearby)])"

definition report_incident :: "(string \<Rightarrow> string) \<Rightarrow> (nat \<Rightarrow> string) \<Rightarrow> string \<Rightarrow> string \<Rightarrow> incident_report \<Rightarrow> int \<Rightarrow> printed list" where
  "report_incident upper whole name ver rep shown =
     [Line [], Line (''incident: '' @ name @ ''@'' @ ver), rule_line]
     @ report_advisories_found upper (ip_advisories rep) @ report_introductions (ip_introductions rep) @ report_exposed (ip_exposed rep)
     @ report_live (ip_live rep) @ report_shared (ip_shared rep) shown @ report_neighbors whole (ip_typosquats rep) shown"


subsection \<open>The audit\<close>

definition roster_header :: "string list" where
  "roster_header = [''  account'', ''risk'', ''packages'', ''solo'', ''no prov'', ''install'', ''last publish'', ''since'']"

text \<open>The zero values of Go for an account without signals or score.\<close>

definition no_signals :: signals where
  "no_signals = \<lparr>s_solo = no_fraction, s_no_provenance = no_fraction, s_install_script = no_fraction, s_last_publish = 0, s_last_release = 0\<rparr>"

definition no_score :: score where
  "no_score = \<lparr>sc_total = 0, sc_terms = []\<rparr>"

definition roster_row :: "(nat \<Rightarrow> real \<Rightarrow> string) \<Rightarrow> audit_result \<Rightarrow> keyholder \<Rightarrow> string list" where
  "roster_row fixed a k =
     (let s = getd no_signals (a_signals a) (k_handle k) in
      [''  '' @ k_handle k, fixed 2 (sc_total (getd no_score (a_scores a) (k_handle k))), utoa (packages_held k),
       fraction_text (s_solo s), fraction_text (s_no_provenance s), fraction_text (s_install_script s),
       day_text (s_last_publish s), day_text (k_since k)])"

definition report_roster :: "(nat \<Rightarrow> real \<Rightarrow> string) \<Rightarrow> audit_result \<Rightarrow> int \<Rightarrow> printed list" where
  "report_roster fixed a shown =
     heading ''keyholders by risk'' @ [Table (roster_header # limited_rows shown (roster_row fixed a) (rest_row 7) (a_keyholders a))]"

definition report_irreplaceable :: "audit_result \<Rightarrow> printed list" where
  "report_irreplaceable a =
     (let cs = chokepoints a in
      if length cs = 0 then [Line [], Line ''  no account is the only route to a package it does not already control'']
      else heading ''irreplaceable: removing these costs reach you cannot get back another way''
        @ [Table ([''  account'', ''controls'', ''packages lost'', ''of which downstream'']
          # limited_rows 10 (\<lambda>c. [''  '' @ c_handle c, utoa (c_controls c), utoa (c_packages c), bare_name (join_str '', '' (short_names (c_orphaned c) 3))])
              (rest_row 3) cs)])"

definition report_weights :: "(nat \<Rightarrow> real \<Rightarrow> string) \<Rightarrow> weights \<Rightarrow> printed list" where
  "report_weights fixed w =
     [Line [],
      Line (''  risk = '' @ fixed 2 (w_reach w) @ '' reach + '' @ fixed 2 (w_staleness w) @ '' staleness + '' @ fixed 2 (w_solo w) @ '' solo + ''
        @ fixed 2 (w_no_provenance w) @ '' no-provenance + '' @ fixed 2 (w_install_script w) @ '' install-script''),
      Line ''  terms with nothing measured are dropped and their weight shared out, so a score'',
      Line ''  built from fewer terms is not the same as a low score'']"

definition instant_text :: "string \<Rightarrow> string" where
  "instant_text at_date = (if at_date \<noteq> [] then ''as of '' @ at_date else ''at any instant'')"

definition scan_title :: "audit_result \<Rightarrow> string \<Rightarrow> printed list" where
  "scan_title a at_date =
     [Line [], Line (a_project a @ ''  ('' @ a_format a @ '', '' @ instant_text at_date @ '')''), rule_line]"

definition count_line :: "string \<Rightarrow> int \<Rightarrow> int \<Rightarrow> int \<Rightarrow> string" where
  "count_line label k p v = ''  '' @ label @ ''   '' @ left_padded 8 (itoa k) @ '' '' @ left_padded 10 (itoa p) @ '' '' @ left_padded 9 (itoa v)"

definition scan_counts :: "(nat \<Rightarrow> real \<Rightarrow> string) \<Rightarrow> audit_result \<Rightarrow> printed list" where
  "scan_counts fixed a =
     (let r = counts_of a; cp = int (ct_coexistence_packages r); cv = int (ct_coexistence_versions r);
          up = int (ct_union_packages r); uv = int (ct_union_versions r) in
      [Line (''  '' @ right_padded 13 [] @ '' '' @ left_padded 8 ''keyholders'' @ '' '' @ left_padded 10 ''packages'' @ '' '' @ left_padded 9 ''versions''),
       Line (count_line ''coexistence'' (int (length (a_keyholders a))) cp cv),
       Line (count_line ''union graph'' (int (a_union_keyholders a)) up uv),
       Line (count_line ''phantom    '' (phantom_keyholders a) (up - cp) (uv - cv) @ ''   ('' @ percent fixed (uv - cv) uv @ '' of versions)'')])"

definition not_ingested_line :: printed where
  "not_ingested_line = Line ''                the rest were not ingested, so this is a lower bound''"

definition depth_bound_line :: printed where
  "depth_bound_line = Line ''                traversal stopped at the depth bound, so this is a lower bound''"

definition audit_truncated :: "audit_result \<Rightarrow> bool" where
  "audit_truncated a = (case a_reach a of None \<Rightarrow> False | Some r \<Rightarrow> truncated r)"

definition scan_coverage :: "(nat \<Rightarrow> real \<Rightarrow> string) \<Rightarrow> audit_result \<Rightarrow> string \<Rightarrow> nat \<Rightarrow> printed list" where
  "scan_coverage fixed a elapsed reads =
     [Line [], Line (''  coverage      '' @ utoa (a_sources a) @ '' of '' @ utoa (a_pins a) @ '' locked packages are in the graph'')]
     @ (if a_sources a < a_pins a then [not_ingested_line] else [])
     @ (if audit_truncated a then [depth_bound_line] else [])
     @ [Line (''  search        depth '' @ utoa (case a_reach a of None \<Rightarrow> 0 | Some r \<Rightarrow> depth_reached r) @ '', kappa ''
         @ fixed 2 (case a_reach a of None \<Rightarrow> 0 | Some r \<Rightarrow> of_rat (kappa r)) @ '' intervals per node, '' @ utoa reads @ '' graph reads, '' @ elapsed)]"

definition report_scan :: "(nat \<Rightarrow> real \<Rightarrow> string) \<Rightarrow> audit_result \<Rightarrow> string \<Rightarrow> nat \<Rightarrow> int \<Rightarrow> string \<Rightarrow> printed list" where
  "report_scan fixed a elapsed reads shown at_date =
     scan_title a at_date
     @ (if a_sources a = 0
        then [Line (''None of the '' @ utoa (a_pins a) @ '' locked packages are in the graph, so there is nothing to report.''),
              Line ''Ingest the packages this project depends on first.'']
        else [Line [], Line (''  '' @ utoa (length (a_keyholders a)) @ '' people can execute code in this project''), Line []]
          @ scan_counts fixed a @ scan_coverage fixed a elapsed reads
          @ (if length (a_keyholders a) = 0 then []
             else report_roster fixed a shown @ report_irreplaceable a @ report_weights fixed (a_weights a)))"

subsection \<open>Proofs and accounts\<close>

text \<open>The nodes of a chain, the first one at \<open>outer\<close> and the others behind an arrow at \<open>inner\<close>, with the range of the hop.\<close>

definition chain_lines :: "string \<Rightarrow> string \<Rightarrow> chain \<Rightarrow> printed list" where
  "chain_lines outer inner c =
     (case chain_nodes c of
        [] \<Rightarrow> []
      | n # ns \<Rightarrow> Line (outer @ bare_name n)
          # List.map2 (\<lambda>m h. Line (inner @ ''-> '' @ bare_name m @ ''   (declared '' @ ph_range h @ '')'')) ns (ch_hops c))"

definition report_proof :: "string \<times> chain option \<Rightarrow> printed list" where
  "report_proof p =
     (case snd p of
        None \<Rightarrow> [Line [], Line (''  no coexistence path to '' @ fst p)]
      | Some c \<Rightarrow>
          [Line [], Line (''  proof path to '' @ fst p),
           Line (''  every edge below was valid from '' @ date_text (ifrom (ch_valid c)) @ '' to '' @ open_or_date (ito (ch_valid c))), Line []]
          @ chain_lines ''    '' ''      '' c)"

definition path_lines :: "package_chain \<Rightarrow> printed list" where
  "path_lines pc =
     (let name = bare_name (pc_package pc) in
      case pc_chain pc of
        None \<Rightarrow> [Line [], Line (''  '' @ name), Line ''    no coexistence path found within the depth bound'']
      | Some c \<Rightarrow>
          [Line [], Line (''  '' @ name),
           Line (''    every edge below held from '' @ day_text (ifrom (ch_valid c)) @ '' to '' @ open_or_date (ito (ch_valid c))), Line []]
          @ chain_lines ''      '' ''        '' c)"

definition report_paths :: "string \<Rightarrow> string \<Rightarrow> string list \<Rightarrow> package_chain list \<Rightarrow> printed list" where
  "report_paths handle project held found =
     [Line [], Line (handle @ '' -> '' @ project), rule_line, Line [],
      Line (''  '' @ handle @ '' can publish to '' @ utoa (length held) @ '' of the packages this project reaches'')]
     @ (if length found < length held
        then [Line (''  showing the chain to '' @ bare_name (pc_package (found ! 0)) @ '', pass -all for the rest'')] else [])
     @ concat (List.map path_lines found)"

definition no_key_lines :: "audit_result \<Rightarrow> string \<Rightarrow> printed list" where
  "no_key_lines a handle =
     [Line [], Line (''  '' @ handle @ '' holds no key to this project.'')]
     @ (if a_sources a = 0
        then [Line (''  None of the '' @ utoa (a_pins a) @ '' locked packages are in the graph, so nothing was searched.'')] else [])"

definition spells_text :: "iset \<Rightarrow> string" where
  "spells_text s = (if length s = 0 then ''-'' else join_str '', '' (List.map (\<lambda>i. day_text (ifrom i) @ '' to '' @ open_or_date (ito i)) s))"

definition who_counts :: "who_result \<Rightarrow> printed list" where
  "who_counts w =
     (let co = (case wh_reach w of None \<Rightarrow> 0 | Some r \<Rightarrow> int (length (coexistence r)));
          un = (case wh_reach w of None \<Rightarrow> 0 | Some r \<Rightarrow> int (length (union_set r)));
          row = (\<lambda>label p v. Line (''  '' @ label @ ''   '' @ left_padded 10 (itoa p) @ '' '' @ left_padded 10 (itoa v))) in
      [Line (''  '' @ right_padded 13 [] @ '' '' @ left_padded 10 ''packages'' @ '' '' @ left_padded 10 ''versions''),
       row ''coexistence'' (int (length (wh_dependents w))) co,
       row ''union graph'' (int (wh_union_dependents w)) un,
       row ''phantom    '' (int (wh_union_dependents w) - int (length (wh_dependents w))) (un - co)])"

definition report_who :: "(nat \<Rightarrow> real \<Rightarrow> string) \<Rightarrow> who_result \<Rightarrow> string \<Rightarrow> nat \<Rightarrow> int \<Rightarrow> string \<Rightarrow> printed list" where
  "report_who fixed w elapsed reads shown at_date =
     [Line [], Line (wh_handle w @ ''  ('' @ instant_text at_date @ '')''), rule_line]
     @ (if length (wh_holds w) = 0 then [Line [], Line (''  '' @ wh_handle w @ '' holds no packages in the ingested graph.'')]
        else
          [Line [], Line (''  '' @ wh_handle w @ '' can publish to '' @ utoa (length (wh_holds w)) @ '' packages, ''
             @ utoa (foldl (\<lambda>n h. n + hd_versions h) 0 (wh_holds w)) @ '' versions deep''),
           Line (''  and reaches '' @ utoa (length (wh_dependents w)) @ '' further packages through them''), Line []]
          @ who_counts w
          @ (if (case wh_reach w of None \<Rightarrow> False | Some r \<Rightarrow> truncated r)
             then [Line [], Line ''  traversal stopped at the depth bound, so these are lower bounds''] else [])
          @ [Line [], Line (''  search        depth '' @ utoa (case wh_reach w of None \<Rightarrow> 0 | Some r \<Rightarrow> depth_reached r) @ '', kappa ''
               @ fixed 2 (case wh_reach w of None \<Rightarrow> 0 | Some r \<Rightarrow> of_rat (kappa r)) @ '' intervals per node, '' @ utoa reads @ '' graph reads, '' @ elapsed)]
          @ heading (''packages '' @ wh_handle w @ '' can publish to'')
          @ [Table ([''  package'', ''versions'', ''held'']
              # limited_rows shown (\<lambda>h. [''  '' @ bare_name (hd_package h), utoa (hd_versions h), spells_text (hd_spans h)]) (rest_row 2) (wh_holds w))]
          @ (if length (wh_dependents w) = 0 then []
             else heading ''packages that would be running their code''
               @ limited_rows shown (\<lambda>p. Line (''    '' @ bare_name p)) (\<lambda>n. Line (''    ... and '' @ itoa n @ '' more'')) (wh_dependents w)))"


subsection \<open>The observatory\<close>

definition board_table :: "leader list \<Rightarrow> printed" where
  "board_table entries =
     Table ([''  rank'', ''name'', ''kri'']
       # List.map (\<lambda>(i, e). [''  '' @ utoa (i + 1), lb_name e, itoa (lb_kri e)]) (List.enumerate 0 entries))"

definition curve_lines :: "int list \<Rightarrow> (string \<times> int option list) list \<Rightarrow> printed list" where
  "curve_lines epochs_run curve =
     (if curve = [] then []
      else heading ''maintainer reach over time''
        @ [Table ((''  name'' # List.map date_text epochs_run)
            # List.map (\<lambda>(name, ks). (''  '' @ name) # List.map (\<lambda>k. case k of None \<Rightarrow> ''-'' | Some n \<Rightarrow> itoa n) ks) curve)])"

text \<open>\<open>count\<close> is the number of packages covered.\<close>

definition report_observatory :: "(nat \<Rightarrow> real \<Rightarrow> string) \<Rightarrow> string \<Rightarrow> nat \<Rightarrow> 's epoch_outcome list \<Rightarrow> board_report \<Rightarrow> printed list" where
  "report_observatory fixed elapsed covered rs rep =
     (let latest = last rs; as_of = date_text (eo_epoch latest); orphans = length (eo_orphaned latest) in
      [Line [], Line (''observatory  '' @ utoa covered @ '' packages, '' @ utoa (length rs) @ '' epochs, '' @ elapsed), rule_line]
      @ heading (''maintainer reach, as of '' @ as_of) @ [board_table (br_maintainers rep)]
      @ curve_lines (List.map eo_epoch rs) (br_curve rep)
      @ heading (''package reach, as of '' @ as_of) @ [board_table (br_packages rep)]
      @ heading (''orphaned but load bearing: no maintainer at all, as of '' @ as_of)
      @ (if orphans = 0 then [Line ''  every package in this run has at least one maintainer'']
         else [Line (''  '' @ utoa orphans @ '' of '' @ utoa covered @ '' packages, '' @ percent fixed (int orphans) (int covered) @ '', have no maintainer''),
           Line [], board_table (br_orphans rep)]))"

definition report_validation :: "(nat \<Rightarrow> real \<Rightarrow> string) \<Rightarrow> validation list \<Rightarrow> printed list" where
  "report_validation fixed results =
     heading (''validation: exact fixpoint vs the estimate, top '' @ utoa (length results) @ '' packages'')
     @ [Table ([''  package'', ''exact'', ''estimate'', ''relative error'']
         # List.map (\<lambda>v. [''  '' @ va_package v, itoa (va_exact v), itoa (va_estimate v), fixed 1 (of_rat (100 * relative_error v)) @ ''%'']) results)]"

subsection \<open>Building\<close>

definition report_typosquats :: "(nat \<Rightarrow> real \<Rightarrow> string) \<Rightarrow> squat_pair list \<Rightarrow> nat \<Rightarrow> int \<Rightarrow> printed list" where
  "report_typosquats fixed cands written shown =
     [Line [], Line (utoa (length cands) @ '' candidates found, '' @ utoa written @ '' written as TYPOSQUAT_OF edges''), Line []]
     @ (if length cands = 0 then []
        else [Table ([''  lookalike'', ''resembles'', ''distance'', ''popularity ratio'']
          # limited_rows shown (\<lambda>c. [''  '' @ lookalike c, popular c, utoa (cand_distance c), fixed 0 (of_rat (popularity_ratio c)) @ ''x''])
              (rest_row 3) cands)])"

text \<open>\<open>value_text\<close> is \<open>%v\<close> of what the database returned.\<close>

definition report_checked :: "(prim \<Rightarrow> string) \<Rightarrow> checked_package list \<Rightarrow> printed list" where
  "report_checked value_text checked =
     [Table ([''package'', ''in graph'', ''at deps.dev'']
        # List.map (\<lambda>c. [cp_name c, value_text (cp_in_graph c), utoa (cp_dated c), if cp_agrees c then [] else ''  <- differs'']) checked),
      Line [], Line (utoa (agreed checked) @ '' of '' @ utoa (length checked) @ '' packages match the source version count''), Line []]"

definition report_ranking :: "(prim \<Rightarrow> string) \<Rightarrow> (prim \<times> prim) list \<Rightarrow> printed list" where
  "report_ranking value_text rows_found =
     [Table ([''maintainer'', ''packages held''] # List.map (\<lambda>(h, n). [value_text h, value_text n]) rows_found)]"

text \<open>A run of no time counts as a second.\<close>

definition seconds_of :: "real \<Rightarrow> real" where
  "seconds_of el = (if el \<le> 0 then 1 else el)"

definition report_ingest :: "(nat \<Rightarrow> real \<Rightarrow> string) \<Rightarrow> ingest_stats \<Rightarrow> real \<Rightarrow> string \<Rightarrow> printed list" where
  "report_ingest fixed s el elapsed =
     [Line [],
      Line (''packages   '' @ utoa (is_packages s) @ '' ingested, '' @ utoa (is_skipped s) @ '' already done, '' @ utoa (is_missing s) @ '' unavailable''),
      Line (''graph      '' @ utoa (is_nodes s) @ '' nodes, '' @ utoa (is_edges s) @ '' edges''),
      Line (''requests   '' @ utoa (is_requests s) @ '' at '' @ fixed 1 (real (is_requests s) / seconds_of el) @ ''/s''),
      Line (''elapsed    '' @ elapsed @ '' at '' @ fixed 0 (real (is_edges s) / seconds_of el) @ '' edges/s'')]"

definition report_resolve :: "(nat \<Rightarrow> real \<Rightarrow> string) \<Rightarrow> resolve_stats \<Rightarrow> real \<Rightarrow> string \<Rightarrow> printed list" where
  "report_resolve fixed s el elapsed =
     [Line [],
      Line (''packages     '' @ utoa (rs_packages s) @ '' resolved, '' @ utoa (rs_skipped s) @ '' already done''),
      Line (''declarations '' @ utoa (rs_declarations s) @ '', of which '' @ utoa (rs_unsatisfied s) @ '' never satisfiable, '' @ utoa (rs_unparseable s) @ '' unparseable,''),
      Line (''             '' @ utoa (rs_no_timeline s) @ '' pointing outside the ingested set''),
      Line (''edges        '' @ utoa (rs_edges s) @ '' RESOLVES_TO, ''
        @ fixed 2 (if rs_declarations s > 0 then real (rs_edges s) / real (rs_declarations s) else 0) @ '' windows per declaration''),
      Line (''elapsed      '' @ elapsed @ '' at '' @ fixed 0 (real (rs_edges s) / seconds_of el) @ '' edges/s'')]"

definition report_advisories :: "adv_stats \<Rightarrow> string \<Rightarrow> printed list" where
  "report_advisories s elapsed =
     [Line [],
      Line (''advisories  '' @ utoa (as_advisories s) @ '' written''),
      Line (''affected    '' @ utoa (as_affected s) @ '' package mentions, '' @ utoa (as_no_timeline s) @ '' with no ingested timeline to attach to''),
      Line (''edges       '' @ utoa (as_edges s) @ '' AFFECTS''),
      Line (''elapsed     '' @ elapsed)]"

subsection \<open>The process\<close>

definition command_names :: "string list" where
  "command_names = [''packages'', ''ingest'', ''scan'', ''who'', ''path'', ''resolve'', ''verify'', ''observatory'', ''advisories'', ''typosquats'',
     ''incident'', ''serve'', ''ci-check'']"

text \<open>\<open>run\<close> gives the error of a command on its arguments; the list of words starts with the program. The result is the exit
  status and whether the usage is printed.\<close>

definition main_exit :: "(string \<Rightarrow> string list \<Rightarrow> err option) \<Rightarrow> string list \<Rightarrow> nat \<times> bool" where
  "main_exit run words =
     (if length words < 2 then (2, True)
      else let c = words ! 1 in
        if c \<in> set command_names then (if run c (drop 2 words) \<noteq> None then (1, False) else (0, False))
        else if c \<in> {''-h'', ''--help'', ''help''} then (0, True)
        else (2, True))"

text \<open>\<open>serve\<close>: a server closed by the interrupt is no error.\<close>

definition server_closed :: err where
  "server_closed = Sentinel ''http: Server closed''"

definition serve_command :: "err option \<Rightarrow> err \<Rightarrow> err option" where
  "serve_command setup stopped = (case setup of Some e \<Rightarrow> Some e | None \<Rightarrow> if stopped = server_closed then None else Some stopped)"

subsection \<open>The size of the graph\<close>

text \<open>\<open>cmd/bench-graph-size\<close>: a count that cannot be read is a line of its own, an answer without records is an index out of range.\<close>

definition label_count_stmt :: "string \<Rightarrow> string" where
  "label_count_stmt label = ''MATCH (n:'' @ label @ '') RETURN count(*) AS c''"

fun size_lines :: "query_fun \<Rightarrow> (prim \<Rightarrow> string) \<Rightarrow> string list \<Rightarrow> printed list res" where
  "size_lines query value_text [] = Inr []"
| "size_lines query value_text (label # labels) =
     (case (case query (label_count_stmt label) of
              Inl e \<Rightarrow> Inr (Line (right_padded 12 label @ '' error: '' @ err_text e))
            | Inr [] \<Rightarrow> Inl (Msg ''index out of range [0] with length 0'')
            | Inr (rec # recs) \<Rightarrow> Inr (Line (right_padded 12 label @ '' '' @ value_text (column rec ''c'')))) of
        Inl e \<Rightarrow> Inl e
      | Inr l \<Rightarrow> (case size_lines query value_text labels of Inl e \<Rightarrow> Inl e | Inr ls \<Rightarrow> Inr (l # ls)))"

definition graph_size_command :: "query_fun \<Rightarrow> (prim \<Rightarrow> string) \<Rightarrow> err option \<Rightarrow> printed list res" where
  "graph_size_command query value_text setup =
     (case setup of
        Some e \<Rightarrow> Inl e
      | None \<Rightarrow>
          (case size_lines query value_text [''Package'', ''Maintainer'', ''Advisory''] of
             Inl e \<Rightarrow> Inl e
           | Inr ls \<Rightarrow> Inr (ls @
               [Line ''Version      not measurable: full label scan exceeds the 250,000 candidate cap (finding 10)'',
                Line (''AFFECTS      not measurable: full edge type count exceeds the query timeout (finding 11); ''
                  @ ''docs/BENCHMARKS.md reports the count recorded at ingest time instead'')])))"

subsection \<open>What a report tells\<close>

lemma limited_split:
  "limited shown whole i f rest xs =
     List.map f (take (nat (shown - int i)) xs) @ (if xs \<noteq> [] \<and> shown - int i < int (length xs) then [rest (int whole - shown)] else [])"
proof (induction xs arbitrary: i)
  case (Cons x xs)
  show ?case
  proof (cases "int i \<ge> shown")
    case False
    then have "nat (shown - int i) = Suc (nat (shown - int (i + 1)))" by simp
    then show ?thesis using False Cons.IH [of "i + 1"] by auto
  qed simp
qed simp

text \<open>A table cut short has its first rows and the number of those left out; a whole one has no such row.\<close>

lemma limited_rows_split:
  "0 \<le> shown \<Longrightarrow> limited_rows shown f rest xs =
     List.map f (take (nat shown) xs) @ (if nat shown < length xs then [rest (int (length xs - nat shown))] else [])"
  unfolding limited_rows_def limited_split by (auto simp: of_nat_diff)

lemma limited_rows_negative: "shown < 0 \<Longrightarrow> xs \<noteq> [] \<Longrightarrow> limited_rows shown f rest xs = [rest (int (length xs) - shown)]"
  by (cases xs) (simp_all add: limited_rows_def)


lemma whole_board: "0 \<le> shown \<Longrightarrow> length xs \<le> nat shown \<Longrightarrow> limited_rows shown f rest xs = List.map f xs"
  by (simp add: limited_rows_split)

text \<open>Neither bound can be missed: a line of a scan names it exactly when packages are missing from the graph, or the search
  stopped at its depth.\<close>

definition bound_lines :: "printed set" where
  "bound_lines = {not_ingested_line, depth_bound_line}"

lemma bound_lines_text: "Line s \<in> bound_lines \<Longrightarrow> \<exists>r. s = ''                t'' @ r \<and> last s = CHR ''d''"
  by (auto simp: bound_lines_def not_ingested_line_def depth_bound_line_def)

lemma bound_lines_other:
  "Table rows \<notin> bound_lines" "Line [] \<notin> bound_lines" "Line (CHR '' '' # CHR '' '' # c # s) \<in> bound_lines \<Longrightarrow> c = CHR '' ''"
  by (auto simp: bound_lines_def not_ingested_line_def depth_bound_line_def)

lemma scan_title_apart: "set (scan_title a at_date) \<inter> bound_lines = {}"
proof -
  have "Line (a_project a @ ''  ('' @ a_format a @ '', '' @ instant_text at_date @ '')'') \<notin> bound_lines"
  proof
    assume "Line (a_project a @ ''  ('' @ a_format a @ '', '' @ instant_text at_date @ '')'') \<in> bound_lines"
    from bound_lines_text [OF this] show False by simp
  qed
  moreover have "rule_line \<notin> bound_lines" using bound_lines_text by (fastforce simp: rule_line_def numeral_eq_Suc)
  ultimately show ?thesis using bound_lines_other by (auto simp: scan_title_def)
qed

lemma scan_counts_apart: "set (scan_counts fixed a) \<inter> bound_lines = {}"
  using bound_lines_other(3)
  by (auto simp: scan_counts_def count_line_def Let_def right_padded_def left_padded_def bound_lines_def not_ingested_line_def depth_bound_line_def
      numeral_eq_Suc)

lemma rankings_apart:
  "set (report_roster fixed a shown) \<inter> bound_lines = {}" "set (report_irreplaceable a) \<inter> bound_lines = {}"
  "set (report_weights fixed w) \<inter> bound_lines = {}"
  using bound_lines_other
  by (auto simp: report_roster_def report_irreplaceable_def report_weights_def heading_def Let_def)



text \<open>Two locked packages of which one is in the graph, with two accounts, shown one.\<close>

definition small_audit :: audit_result where
  "small_audit = \<lparr>a_project = ''app'', a_format = ''yarn.lock'', a_pins = 2, a_sources = 1, a_reach = None,
     a_keyholders = [\<lparr>k_handle = ''ann'', k_through = [], k_since = 0\<rparr>, \<lparr>k_handle = ''bob'', k_through = [], k_since = 0\<rparr>],
     a_union_keyholders = 2, a_signals = [], a_scores = [], a_weights = default_weights, a_cuts = []\<rparr>"


end
