(* ===== verification/Api.thy ===== *)
theory Api
  imports Commands
begin

text \<open>
  The web API, \<open>internal/api\<close>: the request a handler reads, one definition per handler, the routes and the headers
  for other origins. A request is what the handlers ask of it; a reply is a status with a body, a refusal, a stream of
  events or a panic, which the server of the standard library turns into a broken connection. JSON and logging are left out.
\<close>

subsection \<open>Requests and replies\<close>

text \<open>\<open>rq_query\<close> gives the empty text for an absent parameter, \<open>rq_path\<close> the wildcards of the route. \<open>rq_flushes\<close> says
  whether the connection can stream.\<close>

record request =
  rq_method :: string
  rq_segments :: "string list"
  rq_query :: "string \<Rightarrow> string"
  rq_path :: "string \<Rightarrow> string"
  rq_lockfile_name :: string
  rq_body :: "string res"
  rq_flushes :: bool

text \<open>The time of day as a date in UTC and the seconds since its midnight.\<close>

record civil =
  cv_year :: int
  cv_month :: int
  cv_day :: int
  cv_second :: int

text \<open>\<open>sv_params\<close> answers the statements that take parameters; \<open>sv_elapsed\<close> is the duration of the search in milliseconds.\<close>

record server =
  sv_env :: command_env
  sv_params :: "string \<Rightarrow> props \<Rightarrow> grecord list res"
  sv_clock :: civil
  sv_elapsed :: int

record sample =
  sm_at :: int
  sm_keyholders :: nat
  sm_union_keyholders :: nat

record held_view =
  hw_package :: string
  hw_versions :: nat

record who_view =
  ww_handle :: string
  ww_holds :: "held_view list"
  ww_dependents :: "string list"
  ww_dependent_count :: nat
  ww_union_dependents :: nat

record board_entry =
  be_name :: string
  be_kri :: int
  be_at :: int
  be_error_band :: rat

record observatory_view =
  ov_maintainers :: "board_entry list"
  ov_packages :: "board_entry list"

record history_point =
  hp_epoch :: int
  hp_kri :: int

record orphaned_view =
  or_epoch :: int
  or_entries :: "board_entry list"

record incident_view =
  nv_package :: string
  nv_version :: string
  nv_report :: incident_report

datatype answer =
    AuditAnswer audit_view
  | TimelineAnswer "sample list"
  | PathAnswer path_view
  | WhoAnswer who_view
  | ObservatoryAnswer observatory_view
  | HistoryAnswer "history_point list"
  | OrphanedAnswer orphaned_view
  | ProjectsAnswer "recorded_project list"
  | IncidentAnswer incident_view
  | NoBody

datatype event =
    FrontierEvent nat "string list"
  | ErrorEvent err
  | DoneAudit audit_view
  | DoneIncident audit_view string bool

datatype reply =
    Answer nat answer
  | Refusal nat err
  | Stream "event list"
  | Panicked err

subsection \<open>Reading a request\<close>

text \<open>\<open>strconv.Atoi\<close> on a 64 bit machine.\<close>

definition syntax_error :: "string \<Rightarrow> err" where
  "syntax_error s = Msg (''strconv.Atoi: parsing '' @ go_quote s @ '': invalid syntax'')"

definition range_error :: "string \<Rightarrow> err" where
  "range_error s = Msg (''strconv.Atoi: parsing '' @ go_quote s @ '': value out of range'')"

definition go_atoi :: "string \<Rightarrow> int res" where
  "go_atoi s =
     (let negative = has_prefix ''-'' s; body = (if has_prefix ''-'' s \<or> has_prefix ''+'' s then tl s else s) in
      case digits_value body of
        None \<Rightarrow> Inl (syntax_error s)
      | Some n \<Rightarrow>
          (let v = (if negative then - n else n) in
           if v < - (2 ^ 63) \<or> v \<ge> 2 ^ 63 then Inl (range_error s) else Inr v))"

definition audit_options :: "request \<Rightarrow> options res" where
  "audit_options rq =
     (let at_date = rq_query rq ''at''; depth = rq_query rq ''depth'' in
      case (if at_date = [] then Inr always else case parse_date at_date of Inl e \<Rightarrow> Inl (Wrap ''parse at'' e) | Inr t \<Rightarrow> Inr (at_instant t)) of
        Inl e \<Rightarrow> Inl e
      | Inr w \<Rightarrow>
          if depth = [] then Inr \<lparr>owithin = w, max_depth = 12\<rparr>
          else (case go_atoi depth of
             Inl e \<Rightarrow> Inl (Wrap ''parse depth'' e)
           | Inr d \<Rightarrow> Inr \<lparr>owithin = w, max_depth = d\<rparr>))"

definition upload_limit :: nat where
  "upload_limit = 64 * 2 ^ 20"

definition upload_name :: "request \<Rightarrow> string" where
  "upload_name rq = (if rq_lockfile_name rq = [] then ''package-lock.json'' else rq_lockfile_name rq)"

definition parse_uploaded :: "server \<Rightarrow> request \<Rightarrow> lockfile res" where
  "parse_uploaded sv rq =
     (let name = upload_name rq in
      case rq_body rq of
        Inl e \<Rightarrow> Inl (Wrap ''read body'' e)
      | Inr body \<Rightarrow>
          (case parse_lockfile (ce_unmarshal (sv_env sv)) (ce_decode (sv_env sv)) name (take upload_limit body) of
             Inl e \<Rightarrow> Inl e
           | Inr lf \<Rightarrow> Inr (if lf_project lf = [] then lf\<lparr>lf_project := name\<rparr> else lf)))"

text \<open>A handler that needs an upload and the options of a query: a refusal for either is a bad request.\<close>

definition with_upload :: "server \<Rightarrow> request \<Rightarrow> (lockfile \<Rightarrow> reply) \<Rightarrow> reply" where
  "with_upload sv rq k = (case parse_uploaded sv rq of Inl e \<Rightarrow> Refusal 400 e | Inr lf \<Rightarrow> k lf)"

definition with_options :: "request \<Rightarrow> (options \<Rightarrow> reply) \<Rightarrow> reply" where
  "with_options rq k = (case audit_options rq of Inl e \<Rightarrow> Refusal 400 e | Inr opts \<Rightarrow> k opts)"

definition answered :: "'a res \<Rightarrow> ('a \<Rightarrow> reply) \<Rightarrow> reply" where
  "answered r k = (case r of Inl e \<Rightarrow> Refusal 500 e | Inr x \<Rightarrow> k x)"

subsection \<open>Audits\<close>

definition handle_audit :: "server \<Rightarrow> request \<Rightarrow> reply" where
  "handle_audit sv rq =
     with_upload sv rq (\<lambda>lf. with_options rq (\<lambda>opts. answered (audit_of_lock (sv_env sv) lf opts) (\<lambda>a.
       Answer 200 (AuditAnswer (new_audit_view a (sv_elapsed sv))))))"

text \<open>The wavefronts an audit reports while it searches, one for every depth at which something new is reached.\<close>

definition audit_frontiers :: "query_fun \<Rightarrow> (string \<times> string) list \<Rightarrow> options \<Rightarrow> frontier list" where
  "audit_frontiers query pins opts =
     (case known_versions query pins of
        Inl e \<Rightarrow> []
      | Inr srcs \<Rightarrow>
          if srcs = [] then []
          else (case reach (graph_out query ''RESOLVES_TO'' ''outgoing'') srcs opts of Inl e \<Rightarrow> [] | Inr (r, seen) \<Rightarrow> seen))"

definition frontier_event :: "frontier \<Rightarrow> event" where
  "frontier_event f = FrontierEvent (fdepth f) (List.map eurn (fentries f))"

definition stream_audit :: "server \<Rightarrow> lockfile \<Rightarrow> options \<Rightarrow> (audit_result \<Rightarrow> event) \<Rightarrow> reply" where
  "stream_audit sv lf opts finish =
     Stream (List.map frontier_event (audit_frontiers (ce_query (sv_env sv)) (List.map pin_pair (lf_pins lf)) opts) @
       [case audit_of_lock (sv_env sv) lf opts of Inl e \<Rightarrow> ErrorEvent e | Inr a \<Rightarrow> finish a])"

definition err_no_streaming :: err where
  "err_no_streaming = Msg ''streaming not supported by this connection''"

definition handle_audit_stream :: "server \<Rightarrow> request \<Rightarrow> reply" where
  "handle_audit_stream sv rq =
     with_upload sv rq (\<lambda>lf. with_options rq (\<lambda>opts.
       if \<not> rq_flushes rq then Refusal 500 err_no_streaming
       else stream_audit sv lf opts (\<lambda>a. DoneAudit (new_audit_view a (sv_elapsed sv)))))"

text \<open>\<open>AddDate(0, k, 0)\<close> on the clock: the day of the month is kept, and what is beyond the end of the month runs
  into the next.\<close>

definition months_later :: "civil \<Rightarrow> int \<Rightarrow> int" where
  "months_later c k =
     (let m = cv_year c * 12 + (cv_month c - 1) + k in
      86400 * (day_number (m div 12) (m mod 12 + 1) 1 + cv_day c - 1) + cv_second c)"

definition timeline_months :: "request \<Rightarrow> nat" where
  "timeline_months rq =
     (let m = rq_query rq ''months'' in
      if m = [] then 24 else case go_atoi m of Inl e \<Rightarrow> 24 | Inr n \<Rightarrow> if n > 0 then nat n else 24)"

fun sample_loop :: "command_env \<Rightarrow> lockfile \<Rightarrow> int list \<Rightarrow> sample list res" where
  "sample_loop env lf [] = Inr []"
| "sample_loop env lf (t # ts) =
     (case audit_of_lock env lf \<lparr>owithin = at_instant t, max_depth = 12\<rparr> of
        Inl e \<Rightarrow> Inl e
      | Inr a \<Rightarrow>
          (case sample_loop env lf ts of
             Inl e \<Rightarrow> Inl e
           | Inr out \<Rightarrow> Inr (\<lparr>sm_at = t, sm_keyholders = length (a_keyholders a), sm_union_keyholders = a_union_keyholders a\<rparr> # out)))"

definition timeline_instants :: "civil \<Rightarrow> nat \<Rightarrow> int list" where
  "timeline_instants c months = List.map (\<lambda>i. months_later c (- int i)) (rev [0..<months + 1])"

definition handle_audit_timeline :: "server \<Rightarrow> request \<Rightarrow> reply" where
  "handle_audit_timeline sv rq =
     with_upload sv rq (\<lambda>lf.
       answered (sample_loop (sv_env sv) lf (timeline_instants (sv_clock sv) (timeline_months rq))) (\<lambda>samples.
         Answer 200 (TimelineAnswer samples)))"
subsection \<open>Paths and accounts\<close>

fun match_held :: "string list \<Rightarrow> string \<Rightarrow> string option" where
  "match_held [] want = None"
| "match_held (h # hs) want = (if h = want \<or> h = ''pkg:npm/'' @ want then Some h else match_held hs want)"

definition parse_bool :: "string \<Rightarrow> bool" where
  "parse_bool v \<longleftrightarrow> v = ''1'' \<or> v = ''true''"

text \<open>The packages to prove: all of them, the one asked for when the account holds it, or else the first.\<close>

definition path_targets :: "request \<Rightarrow> string list \<Rightarrow> string list" where
  "path_targets rq held =
     (if parse_bool (rq_query rq ''all'') then held
      else let want = rq_query rq ''package'' in
        if want = [] then take 1 held
        else (case match_held held want of Some urn \<Rightarrow> [urn] | None \<Rightarrow> take 1 held))"

definition handle_path :: "server \<Rightarrow> request \<Rightarrow> reply" where
  "handle_path sv rq =
     (let handle = trim_prefix ''@'' (rq_query rq ''handle'') in
      if handle = [] then Refusal 400 (Msg ''handle is required'')
      else with_upload sv rq (\<lambda>lf. with_options rq (\<lambda>opts. answered (audit_of_lock (sv_env sv) lf opts) (\<lambda>a.
        case held_packages a handle of
          (held, ok) \<Rightarrow>
            if \<not> ok then Answer 200 (PathAnswer (new_path_view handle [] []))
            else answered (holder_chains (ce_query (sv_env sv)) a (path_targets rq held) (max_depth opts)) (\<lambda>found.
              Answer 200 (PathAnswer (new_path_view handle held found)))))))"

definition new_who_view :: "who_result \<Rightarrow> who_view" where
  "new_who_view w =
     \<lparr>ww_handle = wh_handle w, ww_holds = List.map (\<lambda>h. \<lparr>hw_package = hd_package h, hw_versions = hd_versions h\<rparr>) (wh_holds w),
      ww_dependents = wh_dependents w, ww_dependent_count = length (wh_dependents w), ww_union_dependents = wh_union_dependents w\<rparr>"

definition handle_who :: "server \<Rightarrow> request \<Rightarrow> reply" where
  "handle_who sv rq =
     with_options rq (\<lambda>opts. answered (who_is (ce_query (sv_env sv)) (rq_path rq ''handle'') opts) (\<lambda>w.
       Answer 200 (WhoAnswer (new_who_view w))))"

subsection \<open>Incidents\<close>

definition handle_incident :: "server \<Rightarrow> request \<Rightarrow> reply" where
  "handle_incident sv rq =
     (let name = rq_path rq ''name''; ver = rq_path rq ''version'' in
      answered (blast_radius (\<lambda>what e. e) (sv_env sv) name ver (ce_now (sv_env sv))) (\<lambda>rep.
        Answer 200 (IncidentAnswer \<lparr>nv_package = name, nv_version = ver, nv_report = rep\<rparr>)))"

text \<open>The audit of a recorded project, streamed, and whether it reaches the version.\<close>

definition handle_incident_stream :: "server \<Rightarrow> request \<Rightarrow> reply" where
  "handle_incident_stream sv rq =
     (let name = rq_path rq ''name''; ver = rq_path rq ''version''; project = rq_query rq ''project'' in
      if project = [] then Refusal 400 (Msg ''project query parameter is required'')
      else answered (es_pins (graph_exposure_source (ce_query (sv_env sv))) project) (\<lambda>pins.
        if pins = [] then Refusal 404 (Msg (''no recorded pins for project '' @ go_quote project))
        else if \<not> rq_flushes rq then Refusal 500 err_no_streaming
        else let target = version_urn ''npm'' name ver in
          stream_audit sv \<lparr>lf_project = project, lf_format = [], lf_pins = pins\<rparr> \<lparr>owithin = always, max_depth = 12\<rparr>
            (\<lambda>a. DoneIncident (new_audit_view a (sv_elapsed sv)) target (has_key (audit_coexistence a) target))))"

subsection \<open>The observatory and the projects\<close>

text \<open>The standard error of HyperLogLog at the precision the observatory runs at unless told otherwise.\<close>

definition nominal_error_band :: rat where
  "nominal_error_band = 104 / 100 / 16"

definition entry_from :: "grecord \<Rightarrow> board_entry" where
  "entry_from rec = \<lparr>be_name = as_str (column rec ''name''), be_kri = as_int (column rec ''kri''), be_at = as_int (column rec ''at''),
     be_error_band = nominal_error_band\<rparr>"

definition board_stmt :: "string \<Rightarrow> string \<Rightarrow> int \<Rightarrow> string" where
  "board_stmt label name_property n =
     ''MATCH (n:'' @ label @ '') WHERE n.kri > 0 RETURN n.'' @ name_property @ '' AS name, n.kri AS kri, n.kri_at AS at ''
     @ ''ORDER BY n.kri DESC LIMIT '' @ itoa n"

definition api_leaderboard :: "server \<Rightarrow> string \<Rightarrow> string \<Rightarrow> int \<Rightarrow> board_entry list res" where
  "api_leaderboard sv label name_property n =
     (case ce_query (sv_env sv) (board_stmt label name_property n) of
        Inl e \<Rightarrow> Inl e
      | Inr recs \<Rightarrow> Inr (List.map entry_from recs))"

definition handle_observatory :: "server \<Rightarrow> request \<Rightarrow> reply" where
  "handle_observatory sv rq =
     answered (api_leaderboard sv ''Maintainer'' ''handle'' 50) (\<lambda>ms.
       answered (api_leaderboard sv ''Package'' ''name'' 50) (\<lambda>ps.
         Answer 200 (ObservatoryAnswer \<lparr>ov_maintainers = ms, ov_packages = ps\<rparr>)))"

definition target_label :: "string \<Rightarrow> (string \<times> string) res" where
  "target_label target =
     (if target = ''package'' then Inr (''Package'', ''name'')
      else if target = ''maintainer'' then Inr (''Maintainer'', ''handle'')
      else Inl (Msg (''target must be package or maintainer, got '' @ go_quote target)))"

definition history_stmt :: "string \<Rightarrow> string \<Rightarrow> string" where
  "history_stmt label name_property =
     ''MATCH (n:'' @ label @ '' {'' @ name_property @ '': $name})-[r:KRI_AT]->(n) RETURN r.epoch AS epoch, r.kri AS kri ORDER BY r.epoch''"

definition handle_history :: "server \<Rightarrow> request \<Rightarrow> reply" where
  "handle_history sv rq =
     (case target_label (rq_query rq ''target'') of
        Inl e \<Rightarrow> Refusal 400 e
      | Inr (label, name_property) \<Rightarrow>
          (let name = rq_query rq ''name'' in
           if name = [] then Refusal 400 (Msg ''name is required'')
           else answered (sv_params sv (history_stmt label name_property) [(''name'', PStr name)]) (\<lambda>recs.
             Answer 200 (HistoryAnswer (List.map (\<lambda>rec. \<lparr>hp_epoch = as_int (column rec ''epoch''), hp_kri = as_int (column rec ''kri'')\<rparr>) recs)))))"

definition last_epoch_stmt :: string where
  "last_epoch_stmt = ''MATCH (n:Package)-[r:KRI_AT]->(n) RETURN r.epoch AS epoch ORDER BY r.epoch DESC LIMIT 1''"

definition orphaned_stmt :: string where
  "orphaned_stmt = ''MATCH (n:Package)-[r:KRI_AT {epoch: $epoch}]->(n) WHERE r.orphaned = true ''
     @ ''RETURN n.name AS name, r.kri AS kri, r.epoch AS at ORDER BY r.kri DESC LIMIT $n''"

text \<open>The epoch goes into the second statement as it came; only when the reply is built is it asserted to be an integer.\<close>

definition handle_orphaned :: "server \<Rightarrow> request \<Rightarrow> reply" where
  "handle_orphaned sv rq =
     (let limit = rq_query rq ''limit'' in
      case (if limit = [] then Inr 50 else go_atoi limit) of
        Inl e \<Rightarrow> Refusal 400 (Wrap ''parse limit'' e)
      | Inr n \<Rightarrow>
          answered (ce_query (sv_env sv) last_epoch_stmt) (\<lambda>epoch_recs.
            case epoch_recs of
              [] \<Rightarrow> Answer 200 (OrphanedAnswer \<lparr>or_epoch = 0, or_entries = []\<rparr>)
            | rec # rest \<Rightarrow>
                (let epoch = column rec ''epoch'' in
                 answered (sv_params sv orphaned_stmt [(''epoch'', epoch), (''n'', PInt n)]) (\<lambda>recs.
                   case epoch of
                     PInt i \<Rightarrow> Answer 200 (OrphanedAnswer \<lparr>or_epoch = i, or_entries = List.map entry_from recs\<rparr>)
                   | _ \<Rightarrow> Panicked (Msg ''interface conversion: interface {} is not int64'')))))"

definition handle_projects :: "server \<Rightarrow> reply" where
  "handle_projects sv = answered (es_projects (graph_exposure_source (ce_query (sv_env sv)))) (\<lambda>ps. Answer 200 (ProjectsAnswer ps))"

subsection \<open>Routes\<close>

datatype endpoint =
    AuditEndpoint | AuditStreamEndpoint | AuditTimelineEndpoint | PathEndpoint | WhoEndpoint | ObservatoryEndpoint
  | HistoryEndpoint | OrphanedEndpoint | ProjectsEndpoint | IncidentEndpoint | IncidentStreamEndpoint | HealthEndpoint

datatype segment = Literal string | Wildcard string

definition routes :: "(string \<times> segment list \<times> endpoint) list" where
  "routes =
     [(''POST'', [Literal ''api'', Literal ''audit''], AuditEndpoint),
      (''POST'', [Literal ''api'', Literal ''audit'', Literal ''stream''], AuditStreamEndpoint),
      (''POST'', [Literal ''api'', Literal ''audit'', Literal ''timeline''], AuditTimelineEndpoint),
      (''POST'', [Literal ''api'', Literal ''audit'', Literal ''path''], PathEndpoint),
      (''GET'', [Literal ''api'', Literal ''who'', Wildcard ''handle''], WhoEndpoint),
      (''GET'', [Literal ''api'', Literal ''observatory''], ObservatoryEndpoint),
      (''GET'', [Literal ''api'', Literal ''observatory'', Literal ''history''], HistoryEndpoint),
      (''GET'', [Literal ''api'', Literal ''observatory'', Literal ''orphaned''], OrphanedEndpoint),
      (''GET'', [Literal ''api'', Literal ''projects''], ProjectsEndpoint),
      (''GET'', [Literal ''api'', Literal ''incident'', Wildcard ''name'', Wildcard ''version''], IncidentEndpoint),
      (''GET'', [Literal ''api'', Literal ''incident'', Wildcard ''name'', Wildcard ''version'', Literal ''stream''], IncidentStreamEndpoint),
      (''GET'', [Literal ''api'', Literal ''healthz''], HealthEndpoint)]"

text \<open>Matching a path against a pattern binds its wildcards. No path matches two of the patterns of one method.\<close>

fun match_segments :: "segment list \<Rightarrow> string list \<Rightarrow> (string \<times> string) list option" where
  "match_segments [] [] = Some []"
| "match_segments (Literal l # ps) (s # ss) = (if s = l then match_segments ps ss else None)"
| "match_segments (Wildcard v # ps) (s # ss) = (if s = [] then None else map_option (Cons (v, s)) (match_segments ps ss))"
| "match_segments ps ss = None"

fun find_route :: "string \<Rightarrow> string list \<Rightarrow> (string \<times> segment list \<times> endpoint) list \<Rightarrow> (endpoint \<times> (string \<times> string) list) option" where
  "find_route m ss [] = None"
| "find_route m ss ((verb, pattern, e) # rs) =
     (if m = verb \<or> m = ''HEAD'' \<and> verb = ''GET'' then (case match_segments pattern ss of Some b \<Rightarrow> Some (e, b) | None \<Rightarrow> find_route m ss rs)
      else find_route m ss rs)"

text \<open>A path that some other method serves is a 405, any other a 404.\<close>

definition known_path :: "string list \<Rightarrow> bool" where
  "known_path ss \<longleftrightarrow> list_ex (\<lambda>(verb, pattern, e). match_segments pattern ss \<noteq> None) routes"

definition dispatch :: "server \<Rightarrow> endpoint \<Rightarrow> request \<Rightarrow> reply" where
  "dispatch sv e rq =
     (case e of
        AuditEndpoint \<Rightarrow> handle_audit sv rq
      | AuditStreamEndpoint \<Rightarrow> handle_audit_stream sv rq
      | AuditTimelineEndpoint \<Rightarrow> handle_audit_timeline sv rq
      | PathEndpoint \<Rightarrow> handle_path sv rq
      | WhoEndpoint \<Rightarrow> handle_who sv rq
      | ObservatoryEndpoint \<Rightarrow> handle_observatory sv rq
      | HistoryEndpoint \<Rightarrow> handle_history sv rq
      | OrphanedEndpoint \<Rightarrow> handle_orphaned sv rq
      | ProjectsEndpoint \<Rightarrow> handle_projects sv
      | IncidentEndpoint \<Rightarrow> handle_incident sv rq
      | IncidentStreamEndpoint \<Rightarrow> handle_incident_stream sv rq
      | HealthEndpoint \<Rightarrow> Answer 200 NoBody)"

definition mux :: "server \<Rightarrow> request \<Rightarrow> reply" where
  "mux sv rq =
     (case find_route (rq_method rq) (rq_segments rq) routes of
        Some (e, b) \<Rightarrow> dispatch sv e (rq\<lparr>rq_path := (\<lambda>v. getd [] b v)\<rparr>)
      | None \<Rightarrow> if known_path (rq_segments rq) then Refusal 405 (Msg ''Method Not Allowed'') else Refusal 404 (Msg ''404 page not found''))"

text \<open>The headers for other origins come with every reply, and an \<open>OPTIONS\<close> request goes no further.\<close>

definition cors_headers :: "(string \<times> string) list" where
  "cors_headers = [(''Access-Control-Allow-Origin'', ''*''), (''Access-Control-Allow-Methods'', ''GET, POST, OPTIONS''),
     (''Access-Control-Allow-Headers'', ''Content-Type, X-Lockfile-Name'')]"

definition serve :: "server \<Rightarrow> request \<Rightarrow> (string \<times> string) list \<times> reply" where
  "serve sv rq = (cors_headers, if rq_method rq = ''OPTIONS'' then Answer 204 NoBody else mux sv rq)"

subsection \<open>The endpoints and the commands\<close>

lemma blast_radius_wrap:
  "(blast_radius f env name ver t = Inr rep) = (blast_radius g env name ver t = Inr rep)"
  by (simp add: blast_radius_def Let_def split: sum.splits)

lemma incident_target_name:
  "CHR ''@'' \<notin> set name \<Longrightarrow> name \<noteq> [] \<Longrightarrow> ver \<noteq> [] \<Longrightarrow> incident_target (name @ ''@'' @ ver) = Inr (name, ver)"
  using index_byte_append [of "CHR ''@''" name ver] by (simp add: incident_target_def)

text \<open>For a package outside any scope, the incident endpoint answers exactly what the \<open>incident\<close> command of the same
  moment finds, and refuses exactly when the command fails.\<close>

theorem incident_endpoint_agrees:
  assumes "CHR ''@'' \<notin> set (rq_path rq ''name'')" "rq_path rq ''name'' \<noteq> []" "rq_path rq ''version'' \<noteq> []"
  defines "name \<equiv> rq_path rq ''name''" and "ver \<equiv> rq_path rq ''version''"
  shows "(case run_incident (sv_env sv) (name @ ''@'' @ ver) [] of
      Inr (n, v, rep) \<Rightarrow> n = name \<and> v = ver \<and> handle_incident sv rq = Answer 200 (IncidentAnswer \<lparr>nv_package = name, nv_version = ver, nv_report = rep\<rparr>)
    | Inl e \<Rightarrow> \<exists>e'. handle_incident sv rq = Refusal 500 e')"
proof -
  have t: "incident_target (name @ ''@'' @ ver) = Inr (name, ver)" unfolding name_def ver_def by (rule incident_target_name [OF assms(1-3)])
  let ?b = "\<lambda>f. blast_radius f (sv_env sv) name ver (ce_now (sv_env sv))"
  show ?thesis
  proof (cases "?b Wrap")
    case (Inr rep)
    then have "?b (\<lambda>what e. e) = Inr rep" using blast_radius_wrap by blast
    then show ?thesis using Inr t by (simp add: run_incident_def handle_incident_def answered_def name_def ver_def)
  next
    case (Inl e)
    obtain e' where "?b (\<lambda>what e. e) = Inl e'"
    proof (cases "?b (\<lambda>what e. e)")
      case (Inr rep)
      then have "?b Wrap = Inr rep" using blast_radius_wrap by blast
      then show ?thesis using Inl by simp
    qed (rule that)
    then show ?thesis using Inl t by (simp add: run_incident_def handle_incident_def answered_def name_def ver_def)
  qed
qed

text \<open>A graph with nothing in it.\<close>

definition idle_server :: server where
  "idle_server = \<lparr>sv_env = bump_env\<lparr>ce_query := (\<lambda>_. Inr [])\<rparr>, sv_params = (\<lambda>_ _. Inr []),
     sv_clock = \<lparr>cv_year = 2026, cv_month = 3, cv_day = 31, cv_second = 0\<rparr>, sv_elapsed = 0\<rparr>"

definition plain_request :: request where
  "plain_request = \<lparr>rq_method = ''GET'', rq_segments = [''api'', ''incident'', ''a'', ''1.0.0''], rq_query = (\<lambda>_. []),
     rq_path = (\<lambda>v. if v = ''name'' then ''a'' else ''1.0.0''), rq_lockfile_name = ''yarn.lock'',
     rq_body = Inr (yarn_text [bump_entry]), rq_flushes = True\<rparr>"

theorem incident_endpoint_agrees_witness:
  "\<exists>rep. run_incident (sv_env idle_server) ''a@1.0.0'' [] = Inr (''a'', ''1.0.0'', rep)
     \<and> handle_incident idle_server plain_request = Answer 200 (IncidentAnswer \<lparr>nv_package = ''a'', nv_version = ''1.0.0'', nv_report = rep\<rparr>)"
proof -
  have p: "rq_path plain_request ''name'' = ''a''" "rq_path plain_request ''version'' = ''1.0.0''" by (simp_all add: plain_request_def)
  have "blast_radius Wrap (sv_env idle_server) ''a'' ''1.0.0'' t \<noteq> Inl e" for t e
    by (simp add: blast_radius_def idle_server_def advisories_affecting_def transitively_exposed_def graph_exposure_source_def
        resolved_while_live_def graph_live_source_def graph_resolvers_def graph_locking_def shared_maintainers_def
        graph_maintainer_source_def string_column_def typosquats_near_def typosquat_rows_def Let_def)
  then obtain rep where rep: "blast_radius Wrap (sv_env idle_server) ''a'' ''1.0.0'' (ce_now (sv_env idle_server)) = Inr rep"
    by (metis sum.exhaust)
  have run: "run_incident (sv_env idle_server) ''a@1.0.0'' [] = Inr (''a'', ''1.0.0'', rep)"
    using incident_target_name [of "''a''" "''1.0.0''"] rep by (simp add: run_incident_def)
  show ?thesis using incident_endpoint_agrees [of plain_request idle_server] run by (simp add: p)
qed

subsection \<open>What a stream shows\<close>

definition frontier_urns :: "frontier list \<Rightarrow> string set" where
  "frontier_urns fs = (\<Union>f \<in> set fs. eurn ` set (fentries f))"

lemma frontier_urns_simps [simp]:
  "frontier_urns [] = {}" "frontier_urns (f # fs) = eurn ` set (fentries f) \<union> frontier_urns fs" "frontier_urns (fs @ gs) = frontier_urns fs \<union> frontier_urns gs"
  by (auto simp: frontier_urns_def)

text \<open>A node enters what is reached exactly when it is queued for the next wavefront.\<close>

lemma offer_keys:
  "set (keys (fst st)) = B \<union> eurn ` set (snd st) \<Longrightarrow>
     set (keys (fst (offer blocked st c))) = B \<union> eurn ` set (snd (offer blocked st c))"
  by (cases st) (auto simp: offer_def Let_def split: prod.splits)

lemma foldl_offer_keys:
  assumes "\<And>st x. set (keys (fst st)) = B \<union> eurn ` set (snd st) \<Longrightarrow> set (keys (fst (f st x))) = B \<union> eurn ` set (snd (f st x))"
  shows "set (keys (fst st)) = B \<union> eurn ` set (snd st) \<Longrightarrow>
     set (keys (fst (foldl f st xs))) = B \<union> eurn ` set (snd (foldl f st xs))"
  using assms by (induction xs arbitrary: st) auto

lemma replay_round_keys:
  assumes "replay_round blocked es reached fr = (reached', fr')"
  shows "set (keys reached') = set (keys reached) \<union> eurn ` set fr'"
proof -
  let ?step = "\<lambda>st en. foldl (\<lambda>st e. offer blocked st (follow en e)) st (getd [] es (eurn en))"
  have "set (keys (fst (foldl ?step (reached, []) fr))) = set (keys reached) \<union> eurn ` set (snd (foldl ?step (reached, []) fr))"
    by (intro foldl_offer_keys) (auto intro!: foldl_offer_keys offer_keys)
  then show ?thesis using assms by (simp add: replay_round_def)
qed

lemma replay_loop_frontiers:
  "replay_loop blocked es k depth reached fr = (final, seen) \<Longrightarrow>
     set (keys final) = set (keys reached) \<union> frontier_urns seen \<and> List.map fdepth seen = [depth..<depth + length seen]
     \<and> (\<forall>f \<in> set seen. fentries f \<noteq> [])"
proof (induction k arbitrary: depth reached fr final seen)
  case (Suc k)
  show ?case
  proof (cases "fr = []")
    case False
    obtain reached' fr' where r: "replay_round blocked es reached fr = (reached', fr')" by (metis surj_pair)
    obtain final1 seen1 where l: "replay_loop blocked es k (Suc depth) reached' fr' = (final1, seen1)" by (metis surj_pair)
    have out: "final = final1" "seen = (if fr' \<noteq> [] then [\<lparr>fdepth = depth, fentries = fr'\<rparr>] else []) @ seen1"
      using Suc.prems False by (simp_all add: r l)
    note IH = Suc.IH [OF l] and K = replay_round_keys [OF r]
    show ?thesis
    proof (cases "fr' = []")
      case True
      then have "seen1 = []" "final1 = reached'" using l by (cases k; simp)+
      then show ?thesis using K out True by simp
    next
      case False
      have "[depth..<depth + length seen] = depth # [Suc depth..<Suc depth + length seen1]"
        using out(2) False by (subst upt_rec) simp
      then show ?thesis using IH K out False by auto
    qed
  qed (use Suc.prems in simp)
qed simp

lemma replay_frontiers:
  assumes "replay srcs opts es blocked = (final, seen)"
  shows "set (keys final) = frontier_urns seen \<and> List.map fdepth seen = [0..<length seen] \<and> (\<forall>f \<in> set seen. fentries f \<noteq> [])"
proof -
  obtain reached fr where s: "foldl (offer blocked) ([], []) (List.map (start_entry opts) srcs) = (reached, fr)" by (metis surj_pair)
  obtain final1 seen1 where l1: "replay_loop blocked es (nat (max_depth opts)) (Suc 0) reached fr = (final1, seen1)" by (metis surj_pair)
  have out: "final1 = final" "seen = (if fr \<noteq> [] then [\<lparr>fdepth = 0, fentries = fr\<rparr>] else []) @ seen1"
    using assms by (simp_all add: replay_def s l1)
  note l = l1 [unfolded out(1)] and seen = out(2)
  have "set (keys (fst (foldl (offer blocked) ([], []) (List.map (start_entry opts) srcs)))) =
      {} \<union> eurn ` set (snd (foldl (offer blocked) ([], []) (List.map (start_entry opts) srcs)))"
    by (rule foldl_offer_keys) (rule offer_keys, assumption, simp)
  then have K: "set (keys reached) = eurn ` set fr" by (simp add: s)
  show ?thesis
  proof (cases "fr = []")
    case True
    then have "seen1 = []" "final = reached" using l by (cases "nat (max_depth opts)"; simp)+
    then show ?thesis using K seen True by simp
  next
    case False
    have "[0..<length seen] = 0 # [Suc 0..<Suc 0 + length seen1]" using seen False by (subst upt_rec) simp
    then show ?thesis using replay_loop_frontiers [OF l] K seen False by auto
  qed
qed

lemma audit_frontiers_reach:
  assumes "audit query years w now project format pins opts = Inr a"
  shows "set (keys (audit_coexistence a)) = frontier_urns (audit_frontiers query pins opts)
    \<and> List.map fdepth (audit_frontiers query pins opts) = [0..<length (audit_frontiers query pins opts)]
    \<and> (\<forall>f \<in> set (audit_frontiers query pins opts). fentries f \<noteq> [])"
proof -
  obtain srcs where srcs: "known_versions query pins = Inr srcs" using assms by (auto simp: audit_def Let_def split: sum.splits)
  show ?thesis
  proof (cases "srcs = []")
    case True
    then show ?thesis using assms srcs by (auto simp: audit_def Let_def audit_frontiers_def audit_coexistence_def)
  next
    case False
    then obtain r seen where r: "reach (graph_out query ''RESOLVES_TO'' ''outgoing'') srcs opts = Inr (r, seen)" "a_reach a = Some r"
      using assms srcs by (auto simp: audit_def Let_def split: sum.splits prod.splits)
    have f: "audit_frontiers query pins opts = seen" using srcs False r(1) by (simp add: audit_frontiers_def)
    obtain es where "replay srcs (with_defaults opts) es [] = (coexistence r, seen)"
      using r(1) by (auto simp: reach_def Let_def split: sum.splits prod.splits)
    from replay_frontiers [OF this] show ?thesis by (simp add: f audit_coexistence_def r(2))
  qed
qed

text \<open>C35: The stream of an audit that succeeds sends the wavefronts in the order of their depths, from 0 on and none of them
  empty, together exactly the versions the audit reaches, and ends in the answer the plain endpoint gives to the same request.\<close>

theorem stream_shows_reach:
  assumes "parse_uploaded sv rq = Inr lf" "audit_options rq = Inr opts" "rq_flushes rq" "audit_of_lock (sv_env sv) lf opts = Inr a"
  shows "\<exists>waves. handle_audit_stream sv rq =
      Stream (List.map (\<lambda>(i, urns). FrontierEvent i urns) (List.enumerate 0 waves) @ [DoneAudit (new_audit_view a (sv_elapsed sv))])
    \<and> [] \<notin> set waves \<and> \<Union> (set ` set waves) = set (keys (audit_coexistence a))
    \<and> handle_audit sv rq = Answer 200 (AuditAnswer (new_audit_view a (sv_elapsed sv)))"
proof -
  let ?fs = "audit_frontiers (ce_query (sv_env sv)) (List.map pin_pair (lf_pins lf)) opts"
  let ?waves = "List.map (\<lambda>f. List.map eurn (fentries f)) ?fs"
  note F = audit_frontiers_reach [OF assms(4) [unfolded audit_of_lock_def]]
  have "List.map (\<lambda>(i, urns). FrontierEvent i urns) (List.enumerate 0 ?waves) = List.map frontier_event ?fs"
  proof (rule nth_equalityI)
    fix i assume "i < length (List.map (\<lambda>(i, urns). FrontierEvent i urns) (List.enumerate 0 ?waves))"
    then have i: "i < length ?fs" by simp
    then have "fdepth (?fs ! i) = i" using F by (metis add_0 length_map nth_map nth_upt)
    then show "List.map (\<lambda>(i, urns). FrontierEvent i urns) (List.enumerate 0 ?waves) ! i = List.map frontier_event ?fs ! i"
      using i by (simp add: nth_enumerate_eq frontier_event_def)
  qed simp
  moreover have "\<Union> (set ` set ?waves) = frontier_urns ?fs" by (auto simp: frontier_urns_def)
  moreover have "[] \<notin> set ?waves" using F by auto
  ultimately show ?thesis
    using F assms
    by (intro exI [of _ ?waves]) (simp add: handle_audit_stream_def handle_audit_def with_upload_def with_options_def stream_audit_def answered_def)
qed

text \<open>A server over the graph of the gate's example, asked about the lockfile of that example.\<close>

definition bump_server :: server where
  "bump_server = idle_server\<lparr>sv_env := bump_env\<rparr>"

lemma plain_upload:
  "parse_uploaded (sv\<lparr>sv_env := bump_env\<rparr>) plain_request = Inr (bump_lock\<lparr>lf_project := ''yarn.lock''\<rparr>)"
proof -
  obtain data where d: "ce_read bump_env ''yarn.lock'' = Inr data"
    "parse_lockfile (ce_unmarshal bump_env) (ce_decode bump_env) ''yarn.lock'' data = Inr bump_lock"
    using bump_locks(1) unfolding reads_lockfile_def by blast
  have "length (yarn_text [bump_entry]) \<le> upload_limit"
    by (simp add: upload_limit_def yarn_text_def yarn_lines_def yarn_header_def yarn_body_def bump_entry_def)
  then have "take upload_limit (yarn_text [bump_entry]) = yarn_text [bump_entry]" by (rule take_all)
  moreover have "data = yarn_text [bump_entry]" using d(1) by (simp add: bump_env_def)
  ultimately show ?thesis
    using d(2) by (simp add: parse_uploaded_def upload_name_def plain_request_def Let_def bump_lock_def)
qed

lemma plain_options: "audit_options plain_request = Inr \<lparr>owithin = always, max_depth = 12\<rparr>"
  by (simp add: audit_options_def plain_request_def)

lemma bump_audit_returns: "\<exists>a. audit_of_lock bump_env lf opts = Inr a"
  using audit_total [of "ce_query bump_env"] advised_db_answers unfolding audit_of_lock_def by (fastforce simp: bump_env_def)

theorem stream_shows_reach_witness:
  "\<exists>waves view. handle_audit_stream bump_server plain_request =
      Stream (List.map (\<lambda>(i, urns). FrontierEvent i urns) (List.enumerate 0 waves) @ [DoneAudit view])
    \<and> ''pkg:npm/b@2.0.0'' \<in> \<Union> (set ` set waves) \<and> handle_audit bump_server plain_request = Answer 200 (AuditAnswer view)"
proof -
  let ?lf = "bump_lock\<lparr>lf_project := ''yarn.lock''\<rparr>" and ?opts = "\<lparr>owithin = always, max_depth = 12\<rparr>"
  obtain a where a: "audit_of_lock (sv_env bump_server) ?lf ?opts = Inr a" using bump_audit_returns by (auto simp: bump_server_def)
  have f: "rq_flushes plain_request" by (simp add: plain_request_def)
  obtain waves where w: "handle_audit_stream bump_server plain_request =
      Stream (List.map (\<lambda>(i, urns). FrontierEvent i urns) (List.enumerate 0 waves) @ [DoneAudit (new_audit_view a (sv_elapsed bump_server))])"
    "\<Union> (set ` set waves) = set (keys (audit_coexistence a))"
    "handle_audit bump_server plain_request = Answer 200 (AuditAnswer (new_audit_view a (sv_elapsed bump_server)))"
    using stream_shows_reach [OF plain_upload [of idle_server, folded bump_server_def] plain_options f a] by blast
  have env: "sv_env bump_server = bump_env" "ce_query bump_env = advised_db bump_table" by (simp_all add: bump_server_def bump_env_def)
  have "lock_reaches (advised_db bump_table) (mspaths.reachable_edges (table_hops bump_table)) ?opts ?lf 6 ''pkg:npm/b@2.0.0''"
    using bump_reach [of ?opts] by (simp add: lock_reaches_def with_defaults_def always_def open_interval_def)
  moreover have "edge_source (graph_out (ce_query bump_env) ''RESOLVES_TO'' ''outgoing'') (mspaths.reachable_edges (table_hops bump_table))"
    unfolding env by (rule advised.edge_source_axioms)
  ultimately have "''pkg:npm/b@2.0.0'' \<in> set (keys (audit_coexistence a))"
    using audit_of_lock_reaches [of bump_env, OF _ a [unfolded env]] by (auto simp: env)
  then show ?thesis using w by blast
qed

subsection \<open>The timeline\<close>

lemma month_step:
  fixes m :: int
  shows "day_number (m div 12) (m mod 12 + 1) 1 < day_number ((m + 1) div 12) ((m + 1) mod 12 + 1) 1"
proof -
  define y r where "y = m div 12" and "r = m mod 12"
  have m: "m = 12 * y + r" "0 \<le> r" "r < 12" by (simp_all add: y_def r_def)
  show ?thesis
  proof (cases "r = 11")
    case True
    then have next_m: "m + 1 = 12 * (y + 1) + 0" using m by simp
    have "(m + 1) div 12 = y + 1" "(m + 1) mod 12 = 0" unfolding next_m by simp_all
    then show ?thesis using next_year [of y] True unfolding y_def [symmetric] r_def [symmetric] by simp
  next
    case False
    then have next_m: "m + 1 = 12 * y + (r + 1)" "0 \<le> r + 1" "r + 1 < 12" using m by simp_all
    have "(m + 1) div 12 = y" using next_m by (rule int_div_pos_eq)
    moreover have "(m + 1) mod 12 = r + 1" using next_m by (rule int_mod_pos_eq)
    moreover have "day_number y (r + 1) 1 < day_number y (r + 1 + 1) 1"
      using next_month [of "r + 1" y] month_length [of y "r + 1"] m(2) next_m by simp
    ultimately show ?thesis by (simp only: y_def [symmetric] r_def [symmetric])
  qed
qed

lemma months_later_step: "months_later c k < months_later c (k + 1)"
proof -
  have shift: "a < b \<Longrightarrow> 86400 * (a + d - 1) + e < 86400 * (b + d - 1) + e" for a b d e :: int by simp
  have "cv_year c * 12 + (cv_month c - 1) + (k + 1) = cv_year c * 12 + (cv_month c - 1) + k + 1" by simp
  then show ?thesis by (simp only: months_later_def Let_def) (rule shift [OF month_step])
qed

lemma timeline_instants_sorted: "sorted_wrt (<) (timeline_instants c n)"
  unfolding sorted_wrt_iff_nth_less
proof (intro allI impI)
  fix i j assume ij: "i < j" "j < length (timeline_instants c n)"
  then have len: "i < n + 1" "j < n + 1" by (simp_all add: timeline_instants_def)
  have "timeline_instants c n ! l = months_later c (int l - int n)" if "l < n + 1" for l
    using that by (simp add: timeline_instants_def rev_nth del: upt_Suc)
  moreover have "months_later c (int i - int n) < months_later c (int j - int n)"
  proof (rule lift_Suc_mono_less [OF _ ij(1)])
    show "months_later c (int l - int n) < months_later c (int (Suc l) - int n)" for l
      using months_later_step [of c "int l - int n"] by (simp add: algebra_simps)
  qed
  ultimately show "timeline_instants c n ! i < timeline_instants c n ! j" using len by simp
qed

lemma sample_loop_exact:
  "sample_loop env lf ts = Inr samples \<Longrightarrow> List.map sm_at samples = ts
     \<and> (\<forall>s \<in> set samples. \<exists>a. audit_of_lock env lf \<lparr>owithin = at_instant (sm_at s), max_depth = 12\<rparr> = Inr a
          \<and> sm_keyholders s = length (a_keyholders a) \<and> sm_union_keyholders s = a_union_keyholders a)"
proof (induction ts arbitrary: samples)
  case (Cons t ts)
  obtain a out where a: "audit_of_lock env lf \<lparr>owithin = at_instant t, max_depth = 12\<rparr> = Inr a" "sample_loop env lf ts = Inr out"
    "samples = \<lparr>sm_at = t, sm_keyholders = length (a_keyholders a), sm_union_keyholders = a_union_keyholders a\<rparr> # out"
    using Cons.prems by (auto split: sum.splits)
  show ?case unfolding a(3) using Cons.IH [OF a(2)] a(1) by auto
qed simp

text \<open>The days of a month are numbered from its first, so a month without the clock's day has no sample of its own: on the last
  of March there is one on the third of March and none in February.\<close>

lemma timeline_skips_february:
  "timeline_instants \<lparr>cv_year = 2026, cv_month = 3, cv_day = 31, cv_second = 0\<rparr> 2 =
     [86400 * day_number 2026 1 31, 86400 * day_number 2026 3 3, 86400 * day_number 2026 3 31]"
  by (simp add: timeline_instants_def upt_rec months_later_def day_number_def month_days_def leap_year_def Let_def upto.simps)

lemma audit_distinct_handles:
  assumes "audit query years w now project format pins opts = Inr a"
  shows "distinct (List.map k_handle (a_keyholders a))"
proof -
  obtain srcs where srcs: "known_versions query pins = Inr srcs" using assms by (auto simp: audit_def Let_def split: sum.splits)
  show ?thesis
  proof (cases "srcs = []")
    case True
    then show ?thesis using assms srcs by (auto simp: audit_def Let_def)
  next
    case False
    then obtain r ks ros scores where r: "keyholders query r = Inr (ks, ros)" "a_keyholders a = sort_slice (riskier scores) ks"
      using assms srcs by (auto simp: audit_def Let_def ranked_def split: sum.splits prod.splits)
    have "mset (List.map k_handle (a_keyholders a)) = mset (List.map k_handle ks)" by (simp add: r(2))
    then show ?thesis using keyholders_shape(1) [OF r(1)] by (metis mset_eq_imp_distinct_iff)
  qed
qed

text \<open>C36: The timeline has one sample more than the months asked for, at instants that strictly increase up to the moment of
  the request, and every sample counts exactly the accounts that held rights, at its instant, over the package of a version the
  lockfile reached then by resolutions all open then.\<close>

theorem timeline_counts_holders:
  assumes "edge_source (graph_out (ce_query (sv_env sv)) ''RESOLVES_TO'' ''outgoing'') G" "maintainers (ce_query (sv_env sv)) hops"
    "handle_audit_timeline sv rq = Answer 200 (TimelineAnswer samples)"
  shows "\<exists>lf. parse_uploaded sv rq = Inr lf \<and> length samples = timeline_months rq + 1
    \<and> sorted_wrt (<) (List.map sm_at samples) \<and> last (List.map sm_at samples) = months_later (sv_clock sv) 0
    \<and> (\<forall>s \<in> set samples. sm_keyholders s =
        card {h. lock_held_by (ce_query (sv_env sv)) G hops \<lparr>owithin = at_instant (sm_at s), max_depth = 12\<rparr> lf h})"
proof -
  let ?ts = "timeline_instants (sv_clock sv) (timeline_months rq)"
  obtain lf where lf: "parse_uploaded sv rq = Inr lf" "sample_loop (sv_env sv) lf ?ts = Inr samples"
    using assms(3) by (auto simp: handle_audit_timeline_def with_upload_def answered_def split: sum.splits)
  note S = sample_loop_exact [OF lf(2)]
  have at: "List.map sm_at samples = ?ts" using S by blast
  have "length samples = length (List.map sm_at samples)" by simp
  then have "length samples = timeline_months rq + 1" unfolding at by (simp add: timeline_instants_def)
  moreover have "last ?ts = months_later (sv_clock sv) 0" by (simp add: timeline_instants_def last_map last_rev del: upt_Suc)
  moreover have "sm_keyholders s = card {h. lock_held_by (ce_query (sv_env sv)) G hops \<lparr>owithin = at_instant (sm_at s), max_depth = 12\<rparr> lf h}"
    if s: "s \<in> set samples" for s
  proof -
    obtain a where a: "audit_of_lock (sv_env sv) lf \<lparr>owithin = at_instant (sm_at s), max_depth = 12\<rparr> = Inr a"
      "sm_keyholders s = length (a_keyholders a)" using S s by blast
    have "length (a_keyholders a) = card (k_handle ` set (a_keyholders a))"
      using distinct_card [OF audit_distinct_handles [OF a(1) [unfolded audit_of_lock_def]]] by simp
    moreover have "k_handle ` set (a_keyholders a) =
        {h. lock_held_by (ce_query (sv_env sv)) G hops \<lparr>owithin = at_instant (sm_at s), max_depth = 12\<rparr> lf h}"
      using audit_of_lock_holders [OF assms(1,2) a(1)] by blast
    ultimately show ?thesis using a(2) by simp
  qed
  ultimately show ?thesis using lf(1) timeline_instants_sorted unfolding at by (intro exI [of _ lf]) simp
qed

theorem timeline_counts_holders_witness:
  "\<exists>samples. handle_audit_timeline bump_server plain_request = Answer 200 (TimelineAnswer samples)
    \<and> length samples = 25 \<and> sorted_wrt (<) (List.map sm_at samples)"
proof -
  have "\<exists>samples. sample_loop bump_env lf ts = Inr samples" for lf ts
  proof (induction ts)
    case (Cons t ts)
    obtain a where "audit_of_lock bump_env lf \<lparr>owithin = at_instant t, max_depth = 12\<rparr> = Inr a" using bump_audit_returns by blast
    then show ?case using Cons.IH by auto
  qed simp
  then obtain samples where "handle_audit_timeline bump_server plain_request = Answer 200 (TimelineAnswer samples)"
    using plain_upload [of idle_server, folded bump_server_def]
    by (auto simp: handle_audit_timeline_def with_upload_def answered_def bump_server_def) (metis old.sum.simps(6))
  moreover have "edge_source (graph_out (ce_query (sv_env bump_server)) ''RESOLVES_TO'' ''outgoing'') (mspaths.reachable_edges (table_hops bump_table))"
    "maintainers (ce_query (sv_env bump_server)) (table_hops bump_table)"
    by (simp_all add: bump_server_def bump_env_def advised.edge_source_axioms advised_rights.maintainers_axioms)
  moreover have "timeline_months plain_request = 24" by (simp add: timeline_months_def plain_request_def)
  ultimately show ?thesis using timeline_counts_holders [of bump_server _ _ plain_request samples] by auto
qed

subsection \<open>The path of an account\<close>

lemma audit_project:
  "audit query years w now p f pins opts = Inr a \<Longrightarrow> audit query years w now p' f pins opts = Inr (a\<lparr>a_project := p'\<rparr>)"
  by (auto simp: audit_def Let_def split: sum.splits prod.splits if_splits)

lemma audit_project_error: "audit query years w now p f pins opts = Inl e \<Longrightarrow> audit query years w now p' f pins opts = Inl e"
  by (auto simp: audit_def Let_def split: sum.splits prod.splits if_splits)

lemma audit_of_lock_relabel:
  assumes "lf_format lf' = lf_format lf" "lf_pins lf' = lf_pins lf"
  shows "audit_of_lock env lf' opts = (case audit_of_lock env lf opts of Inl e \<Rightarrow> Inl e | Inr a \<Rightarrow> Inr (a\<lparr>a_project := lf_project lf'\<rparr>))"
proof (cases "audit_of_lock env lf opts")
  case (Inl e)
  from audit_project_error [OF Inl [unfolded audit_of_lock_def], of "lf_project lf'"]
  show ?thesis unfolding Inl by (simp add: audit_of_lock_def assms)
next
  case (Inr a)
  from audit_project [OF Inr [unfolded audit_of_lock_def], of "lf_project lf'"]
  show ?thesis unfolding Inr by (simp add: audit_of_lock_def assms)
qed

lemma held_packages_project [simp]: "held_packages (a\<lparr>a_project := p\<rparr>) h = held_packages a h"
  by (simp add: held_packages_def)

lemma holder_chains_project [simp]: "holder_chains query (a\<lparr>a_project := p\<rparr>) ps d = holder_chains query a ps d"
  by (simp add: holder_chains_def locked_versions_def)

text \<open>C37: Asked about the same lockfile, account and date, the path endpoint and the \<open>path\<close> command give the same chains, the
  endpoint answers that there are none when the command says the account holds no key, and each refuses when the other does.\<close>

theorem path_endpoint_agrees:
  assumes "rq_body rq = Inr data" "length data \<le> upload_limit" "ce_read (sv_env sv) (upload_name rq) = Inr data"
    and "trim_prefix ''@'' (rq_query rq ''handle'') \<noteq> []" "rq_query rq ''depth'' = []" "rq_query rq ''package'' = []"
  shows "(case run_path (sv_env sv) (rq_query rq ''handle'') (upload_name rq) (rq_query rq ''at'') 12 (parse_bool (rq_query rq ''all'')) of
      Inl e \<Rightarrow> \<exists>status e'. handle_path sv rq = Refusal status e'
    | Inr None \<Rightarrow> handle_path sv rq = Answer 200 (PathAnswer (new_path_view (trim_prefix ''@'' (rq_query rq ''handle'')) [] []))
    | Inr (Some view) \<Rightarrow> handle_path sv rq = Answer 200 (PathAnswer view))"
proof -
  let ?env = "sv_env sv" and ?h = "trim_prefix ''@'' (rq_query rq ''handle'')" and ?at = "rq_query rq ''at''"
  let ?parse = "parse_lockfile (ce_unmarshal ?env) (ce_decode ?env) (upload_name rq) data"
  have opts: "(\<exists>e. query_options ''--at'' ?at 12 = Inl e) \<and> (\<exists>e. audit_options rq = Inl e)
      \<or> (\<exists>w. query_options ''--at'' ?at 12 = Inr \<lparr>owithin = w, max_depth = 12\<rparr> \<and> audit_options rq = Inr \<lparr>owithin = w, max_depth = 12\<rparr>)"
    using assms(5) by (auto simp: query_options_def audit_options_def Let_def split: sum.splits)
  have upload: "parse_uploaded sv rq = (case ?parse of Inl e \<Rightarrow> Inl e | Inr lf \<Rightarrow> Inr (if lf_project lf = [] then lf\<lparr>lf_project := upload_name rq\<rparr> else lf))"
    using assms(1,2) by (simp add: parse_uploaded_def Let_def split: sum.splits)
  show ?thesis
  proof (cases ?parse)
    case (Inl e)
    then have "handle_path sv rq = Refusal 400 e" using assms(4) by (simp add: handle_path_def upload with_upload_def)
    moreover obtain e2 where "run_path ?env (rq_query rq ''handle'') (upload_name rq) ?at 12 (parse_bool (rq_query rq ''all'')) = Inl e2"
      using Inl assms(3) by (cases "query_options ''--at'' ?at 12") (simp_all add: run_path_def Let_def)
    ultimately show ?thesis by simp
  next
    case (Inr lf)
    define lf' where "lf' = (if lf_project lf = [] then lf\<lparr>lf_project := upload_name rq\<rparr> else lf)"
    have up: "parse_uploaded sv rq = Inr lf'" using Inr by (simp add: upload lf'_def)
    show ?thesis
    proof (cases "query_options ''--at'' ?at 12")
      case (Inl e)
      then obtain e' where "audit_options rq = Inl e'" using opts by auto
      then show ?thesis
        using assms(4) by (simp add: Inl run_path_def handle_path_def up with_upload_def with_options_def)
    next
      case (Inr os)
      then obtain w where o1: "query_options ''--at'' ?at 12 = Inr \<lparr>owithin = w, max_depth = 12\<rparr>" "audit_options rq = Inr \<lparr>owithin = w, max_depth = 12\<rparr>"
        using opts by auto
      let ?o = "\<lparr>owithin = w, max_depth = 12\<rparr>"
      have relabel: "audit_of_lock ?env lf' ?o = (case audit_of_lock ?env lf ?o of Inl e \<Rightarrow> Inl e | Inr a \<Rightarrow> Inr (a\<lparr>a_project := lf_project lf'\<rparr>))"
        by (rule audit_of_lock_relabel) (simp_all add: lf'_def)
      then have "(\<exists>e. audit_of_lock ?env lf ?o = Inl e \<and> audit_of_lock ?env lf' ?o = Inl e)
          \<or> (\<exists>a. audit_of_lock ?env lf ?o = Inr a \<and> audit_of_lock ?env lf' ?o = Inr (a\<lparr>a_project := lf_project lf'\<rparr>))"
        by (cases "audit_of_lock ?env lf ?o") simp_all
      then show ?thesis
      proof (elim disjE exE conjE)
        fix e assume "audit_of_lock ?env lf ?o = Inl e" "audit_of_lock ?env lf' ?o = Inl e"
        then show ?thesis
          using assms(3,4) \<open>?parse = Inr lf\<close>
          by (simp add: run_path_def o1 handle_path_def up with_upload_def with_options_def answered_def)
      next
        fix a assume a: "audit_of_lock ?env lf ?o = Inr a" "audit_of_lock ?env lf' ?o = Inr (a\<lparr>a_project := lf_project lf'\<rparr>)"
        obtain held ok where h: "held_packages a ?h = (held, ok)" by (metis surj_pair)
        have targets: "path_targets rq held = (if parse_bool (rq_query rq ''all'') then held else take 1 held)"
          using assms(6) by (simp add: path_targets_def)
        show ?thesis
          using assms(3,4) \<open>?parse = Inr lf\<close>
          by (simp add: run_path_def o1 handle_path_def up with_upload_def with_options_def answered_def a h targets split: sum.splits)
      qed
    qed
  qed
qed

theorem path_endpoint_agrees_witness:
  "case run_path bump_env ''@mal'' ''yarn.lock'' [] 12 False of
      Inl e \<Rightarrow> \<exists>status e'. handle_path bump_server (plain_request\<lparr>rq_query := (\<lambda>k. if k = ''handle'' then ''@mal'' else [])\<rparr>) = Refusal status e'
    | Inr None \<Rightarrow> handle_path bump_server (plain_request\<lparr>rq_query := (\<lambda>k. if k = ''handle'' then ''@mal'' else [])\<rparr>)
        = Answer 200 (PathAnswer (new_path_view ''mal'' [] []))
    | Inr (Some view) \<Rightarrow> handle_path bump_server (plain_request\<lparr>rq_query := (\<lambda>k. if k = ''handle'' then ''@mal'' else [])\<rparr>) = Answer 200 (PathAnswer view)"
proof -
  let ?rq = "plain_request\<lparr>rq_query := (\<lambda>k. if k = ''handle'' then ''@mal'' else [])\<rparr>"
  have l: "length (yarn_text [bump_entry]) \<le> upload_limit"
    by (simp add: upload_limit_def yarn_text_def yarn_lines_def yarn_header_def yarn_body_def bump_entry_def)
  have n: "upload_name ?rq = ''yarn.lock''" "ce_read (sv_env bump_server) (upload_name ?rq) = Inr (yarn_text [bump_entry])"
    by (simp_all add: upload_name_def plain_request_def bump_server_def bump_env_def)
  have q: "rq_query ?rq ''handle'' = ''@mal''" "rq_query ?rq ''at'' = []" "rq_query ?rq ''all'' = []" "trim_prefix ''@'' ''@mal'' = ''mal''"
    by (simp_all add: plain_request_def trim_prefix_def has_prefix_def)
  have b: "sv_env bump_server = bump_env" "parse_bool [] = False" by (simp_all add: bump_server_def parse_bool_def)
  have r: "rq_body ?rq = Inr (yarn_text [bump_entry])" "trim_prefix ''@'' (rq_query ?rq ''handle'') \<noteq> []" "rq_query ?rq ''depth'' = []"
    "rq_query ?rq ''package'' = []"
    unfolding q by (simp_all add: plain_request_def)
  show ?thesis using path_endpoint_agrees [OF r(1) l n(2) r(2-4)] unfolding q n(1) b .
qed

subsection \<open>Where an endpoint and its command differ\<close>

lemma new_audit_view_project: "new_audit_view (a\<lparr>a_project := p\<rparr>) ms = (new_audit_view a ms)\<lparr>av_project := p\<rparr>"
  by (simp add: new_audit_view_def Let_def counts_of_def audit_coexistence_def audit_union_def new_graph_view_def audit_edges_def
      view_keyholder_def phantom_keyholders_def)

text \<open>\<open>scan\<close> and the audit endpoint send the same view of the same lockfile, but for the project of a lockfile that names
  none: the command drops the file name from the path, the endpoint keeps all of the name it was given.\<close>

theorem scan_view_agrees:
  assumes "parse_lockfile (ce_unmarshal (sv_env sv)) (ce_decode (sv_env sv)) (upload_name rq) data = Inr lf"
    and "rq_body rq = Inr data" "length data \<le> upload_limit" "audit_options rq = Inr opts"
    and "audit_of_lock (sv_env sv) (scan_project (upload_name rq) lf) opts = Inr a"
  shows "handle_audit sv rq = Answer 200 (AuditAnswer ((new_audit_view a (sv_elapsed sv))
    \<lparr>av_project := (if lf_project lf = [] then upload_name rq else lf_project lf)\<rparr>))"
proof -
  let ?up = "if lf_project lf = [] then lf\<lparr>lf_project := upload_name rq\<rparr> else lf"
  have up: "parse_uploaded sv rq = Inr ?up" using assms(1-3) by (simp add: parse_uploaded_def)
  have "audit_of_lock (sv_env sv) ?up opts = Inr (a\<lparr>a_project := lf_project ?up\<rparr>)"
    using audit_of_lock_relabel [of ?up "scan_project (upload_name rq) lf" "sv_env sv" opts] assms(5) by (simp add: scan_project_def)
  then show ?thesis
    using assms(4) up by (simp add: handle_audit_def with_upload_def with_options_def answered_def new_audit_view_project)
qed

lemma scan_names_the_directory:
  "lf_project (scan_project ''app/yarn.lock'' \<lparr>lf_project = [], lf_format = ''yarn.lock'', lf_pins = []\<rparr>) = ''app''"
  by (simp add: scan_project_def trim_suffix_def has_suffix_def has_prefix_def)

text \<open>The \<open>who\<close> command accepts a handle with its sign; the endpoint refuses it, and as an error of the server.\<close>

lemma who_endpoint_keeps_sign:
  assumes "rq_path rq ''handle'' = ''@'' @ h" "rq_query rq ''at'' = []" "rq_query rq ''depth'' = []"
  shows "handle_who sv rq = Refusal 500 (Msg (''not an npm handle: '' @ go_quote (''@'' @ h)))
    \<and> run_who (sv_env sv) (''@'' @ h) [] 12 = who_is (ce_query (sv_env sv)) h \<lparr>owithin = always, max_depth = 12\<rparr>"
proof -
  have "\<not> npm_handle (''@'' @ h)" by (simp add: npm_handle_def scope_char_def is_digit_iff)
  then show ?thesis
    using assms by (simp add: handle_who_def with_options_def audit_options_def answered_def who_is_def run_who_def query_options_def
        trim_prefix_def has_prefix_def)
qed

text \<open>No path is served by two routes of one method, so the order in which they are registered does not matter.\<close>

definition overlaps :: "segment list \<Rightarrow> segment list \<Rightarrow> bool" where
  "overlaps = list_all2 (\<lambda>p q. case (p, q) of (Literal a, Literal b) \<Rightarrow> a = b | _ \<Rightarrow> True)"

lemma match_overlaps: "match_segments p ss = Some b \<Longrightarrow> match_segments q ss = Some c \<Longrightarrow> overlaps p q"
proof (induction ss arbitrary: p q b c)
  case Nil
  then show ?case by (cases p; cases q) (auto simp: overlaps_def elim: match_segments.elims)
next
  case (Cons x xs)
  obtain a ps d qs where pq: "p = a # ps" "q = d # qs" using Cons.prems by (cases p; cases q) auto
  then show ?case
    using Cons.prems Cons.IH [of ps _ qs] by (cases a; cases d) (auto simp: overlaps_def split: if_splits)
qed

lemma routes_apart:
  assumes "i < length routes" "j < length routes" "i \<noteq> j" "fst (routes ! i) = fst (routes ! j)"
  shows "match_segments (fst (snd (routes ! i))) ss = None \<or> match_segments (fst (snd (routes ! j))) ss = None"
proof -
  have apart: "sorted_wrt (\<lambda>x y. fst x = fst y \<longrightarrow> \<not> overlaps (fst (snd x)) (fst (snd y))) routes"
    "sorted_wrt (\<lambda>x y. fst x = fst y \<longrightarrow> \<not> overlaps (fst (snd y)) (fst (snd x))) routes"
    by (simp_all add: routes_def overlaps_def)
  then have "\<not> overlaps (fst (snd (routes ! i))) (fst (snd (routes ! j)))"
    using assms sorted_wrt_nth_less [OF apart(1), of i j] sorted_wrt_nth_less [OF apart(2), of j i] by (cases "i < j") auto
  then show ?thesis using match_overlaps by (metis option.exhaust)
qed

end
