(* ===== verification/Spike.thy ===== *)
theory Spike
  imports Windows Complex_Main
begin

text \<open>
  The measurement of \<open>cmd/spike-resolve/main.go\<close>: how often the highest version published by the date of a lockfile is
  the one the lockfile holds. Requests, their JSON and base64 are parameters, an instant is a whole number of seconds;
  snapshots are read concurrently, so their outcomes come in an order of arrival.
\<close>

subsection \<open>Lockfiles\<close>

record spike_entry =
  se_version :: string
  se_dependencies :: "(string, string) gomap"

record spike_lock =
  sl_version :: int
  sl_packages :: "(string, spike_entry) gomap"

record lock_snapshot =
  sn_sha :: string
  sn_when :: int
  sn_body :: string

record triple =
  tr_repo :: string
  tr_when :: int
  tr_dep :: string
  tr_range :: string
  tr_resolved :: string

datatype verdict = Agree | Disagree | SkipUnresolvableRange | SkipNoTimeline | SkipUnparseable | SkipNoCandidate

record spike_outcome =
  oc_triple :: triple
  oc_canonical :: string
  oc_verdict :: verdict

fun verdict_text :: "verdict \<Rightarrow> string" where
  "verdict_text Agree = ''agree''"
| "verdict_text Disagree = ''disagree''"
| "verdict_text SkipUnresolvableRange = ''skipped: range carries no version (* or latest)''"
| "verdict_text SkipNoTimeline = ''skipped: no version timeline''"
| "verdict_text SkipUnparseable = ''skipped: unparseable range or version''"
| "verdict_text SkipNoCandidate = ''skipped: nothing satisfied the range at that date''"

text \<open>The copy of a dependency the package at a path gets: its own, that of the package around it, and so on to the root.\<close>

lemma last_index_bound: "last_index p s = Some i \<Longrightarrow> i + length p \<le> length s"
proof (induction p s arbitrary: i rule: last_index.induct)
  case (2 p x xs)
  then show ?case by (auto simp: has_prefix_iff dest: arg_cong [of _ _ length] split: option.splits if_splits)
qed (simp split: if_splits)

function lookup_from :: "(string, string) gomap \<Rightarrow> string \<Rightarrow> string \<Rightarrow> string option" where
  "lookup_from versions scope dep =
     (case map_of versions (if scope = [] then ''node_modules/'' @ dep else scope @ ''/node_modules/'' @ dep) of
        Some v \<Rightarrow> Some v
      | None \<Rightarrow>
          if scope = [] then None
          else (case last_index ''/node_modules/'' scope of
                  None \<Rightarrow> lookup_from versions [] dep
                | Some i \<Rightarrow> lookup_from versions (take i scope) dep))"
  by pat_completeness auto
termination by (relation "measure (\<lambda>(versions, scope, dep). length scope)") (auto dest: last_index_bound)

declare lookup_from.simps [simp del]

definition installed_versions :: "spike_lock \<Rightarrow> (string, string) gomap" where
  "installed_versions lf =
     List.map_filter (\<lambda>(path, entry). if se_version entry \<noteq> [] then Some (path, se_version entry) else None) (sl_packages lf)"

definition entry_triples :: "string \<Rightarrow> int \<Rightarrow> (string, string) gomap \<Rightarrow> string \<times> spike_entry \<Rightarrow> triple list" where
  "entry_triples repo t versions e =
     List.map_filter (\<lambda>(dep, rng).
       map_option (\<lambda>got. \<lparr>tr_repo = repo, tr_when = t, tr_dep = dep, tr_range = rng, tr_resolved = got\<rparr>) (lookup_from versions (fst e) dep))
       (se_dependencies (snd e))"

definition extract_triples :: "(string \<Rightarrow> spike_lock res) \<Rightarrow> string \<Rightarrow> lock_snapshot \<Rightarrow> triple list res" where
  "extract_triples unmarshal repo sn =
     (case unmarshal (sn_body sn) of
        Inl e \<Rightarrow> Inl e
      | Inr lf \<Rightarrow>
          if sl_version lf < 2 \<or> length (sl_packages lf) = 0
          then Inl (Msg (''lockfileVersion '' @ itoa (sl_version lf) @ '' not supported''))
          else Inr (concat (List.map (entry_triples repo (sn_when sn) (installed_versions lf)) (sl_packages lf))))"

subsection \<open>Resolution\<close>

record spike_release =
  sp_version :: version
  sp_published :: int

text \<open>The versions of a timeline that parse, oldest first. \<open>fetch\<close> is the answer of deps.dev, \<open>None\<close> for any failure: a
  timeline that could not be fetched is kept as an empty one.\<close>

definition spike_releases :: "(string \<times> int) list \<Rightarrow> spike_release list" where
  "spike_releases body =
     sort_slice (\<lambda>a b. sp_published a < sp_published b)
       (List.map_filter (\<lambda>(raw, t). case parse raw of Inl e \<Rightarrow> None | Inr v \<Rightarrow> Some \<lparr>sp_version = v, sp_published = t\<rparr>) body)"

definition spike_timeline :: "(string \<Rightarrow> (string \<times> int) list option) \<Rightarrow> string \<Rightarrow> (string, spike_release list) gomap
    \<Rightarrow> spike_release list \<times> (string, spike_release list) gomap" where
  "spike_timeline fetch name cache =
     (case map_of cache name of
        Some r \<Rightarrow> (r, cache)
      | None \<Rightarrow>
          (let out = (case fetch name of None \<Rightarrow> [] | Some body \<Rightarrow> spike_releases body) in
           (out, put name out cache)))"

definition published_by :: "int \<Rightarrow> spike_release list \<Rightarrow> version list" where
  "published_by t releases = List.map sp_version (List.filter (\<lambda>rel. \<not> sp_published rel > t) releases)"

definition resolve_one :: "(string \<Rightarrow> spike_release list) \<Rightarrow> triple \<Rightarrow> spike_outcome" where
  "resolve_one timeline_of t =
     (let o0 = \<lparr>oc_triple = t, oc_canonical = [], oc_verdict = Agree\<rparr> in
      case parse_range (tr_range t) of
        Inl e \<Rightarrow> o0\<lparr>oc_verdict := SkipUnparseable\<rparr>
      | Inr r \<Rightarrow>
          if is_any r then o0\<lparr>oc_verdict := SkipUnresolvableRange\<rparr>
          else let releases = timeline_of (tr_dep t) in
            if length releases = 0 then o0\<lparr>oc_verdict := SkipNoTimeline\<rparr>
            else (case max_satisfying (published_by (tr_when t) releases) r of
                None \<Rightarrow> o0\<lparr>oc_verdict := SkipNoCandidate\<rparr>
              | Some best \<Rightarrow>
                  (let o1 = o0\<lparr>oc_canonical := to_string best\<rparr> in
                   case parse (tr_resolved t) of
                     Inl e \<Rightarrow> o1\<lparr>oc_verdict := SkipUnparseable\<rparr>
                   | Inr want \<Rightarrow> if compare best want = 0 then o1\<lparr>oc_verdict := Agree\<rparr> else o1\<lparr>oc_verdict := Disagree\<rparr>)))"

text \<open>One snapshot: every timeline once, then every triple.\<close>

definition evaluate :: "(string \<Rightarrow> spike_lock res) \<Rightarrow> (string \<Rightarrow> (string \<times> int) list option) \<Rightarrow> string \<Rightarrow> lock_snapshot
    \<Rightarrow> (string, spike_release list) gomap \<Rightarrow> spike_outcome list \<times> (string, spike_release list) gomap" where
  "evaluate unmarshal fetch repo sn cache =
     (case extract_triples unmarshal repo sn of
        Inl e \<Rightarrow> ([], cache)
      | Inr triples \<Rightarrow>
          (let cache = foldl (\<lambda>c name. snd (spike_timeline fetch name c)) cache (collect (List.map tr_dep triples)) in
           (List.map (resolve_one (\<lambda>name. fst (spike_timeline fetch name cache))) triples, cache)))"

subsection \<open>Snapshots\<close>

definition spread_panic :: err where
  "spread_panic = Msg ''makeslice: cap out of range''"

text \<open>\<open>slices.Compact\<close> keeps the first of equal neighbours; a negative count is a capacity out of range.\<close>

definition spread :: "nat \<Rightarrow> int \<Rightarrow> nat list res" where
  "spread len n =
     (if n \<ge> int len then Inr [0..<len]
      else if n < 0 then Inl spread_panic
      else Inr (remdups_adj (List.map (\<lambda>i. i * (len - 1) div max 1 (nat n - 1)) [0..<nat n])))"

definition github_token :: "(string \<Rightarrow> string) \<Rightarrow> string res \<Rightarrow> string" where
  "github_token getenv gh =
     (let t = getenv ''GITHUB_TOKEN'' in
      if t \<noteq> [] then t else case gh of Inl e \<Rightarrow> [] | Inr out \<Rightarrow> trim_space out)"

text \<open>A response is its status line, its status and its body.\<close>

definition github_get :: "(string \<Rightarrow> (string \<times> nat \<times> string) res) \<Rightarrow> (string \<Rightarrow> 'a res) \<Rightarrow> string \<Rightarrow> 'a res" where
  "github_get request decode url =
     (case request url of
        Inl e \<Rightarrow> Inl e
      | Inr (status, code, body) \<Rightarrow>
          if code \<noteq> 200 then Inl (Msg (status @ '': '' @ trim_space (take 200 body))) else decode body)"

record lock_commit =
  lc_sha :: string
  lc_when :: int

definition commits_url :: "string \<Rightarrow> string" where
  "commits_url repo = ''https://api.github.com/repos/'' @ repo @ ''/commits?path=package-lock.json&per_page=100''"

definition contents_url :: "string \<Rightarrow> string \<Rightarrow> string" where
  "contents_url repo sha = ''https://api.github.com/repos/'' @ repo @ ''/contents/package-lock.json?ref='' @ sha"

text \<open>\<open>contents\<close> answers with the content and its encoding; a file that cannot be read is passed over.\<close>

definition snapshot_of :: "(string \<Rightarrow> (string \<times> string) res) \<Rightarrow> (string \<Rightarrow> string res) \<Rightarrow> string \<Rightarrow> lock_commit \<Rightarrow> lock_snapshot option" where
  "snapshot_of contents base64 repo c =
     (case contents (contents_url repo (lc_sha c)) of
        Inl e \<Rightarrow> None
      | Inr (content, encoding) \<Rightarrow>
          if encoding \<noteq> ''base64'' then None
          else (case base64 (List.filter (\<lambda>ch. ch \<noteq> CHR 0x0A) content) of
                  Inl e \<Rightarrow> None
                | Inr body \<Rightarrow> Some \<lparr>sn_sha = lc_sha c, sn_when = lc_when c, sn_body = body\<rparr>))"

definition lockfile_snapshots :: "(string \<Rightarrow> lock_commit list res) \<Rightarrow> (string \<Rightarrow> (string \<times> string) res) \<Rightarrow> (string \<Rightarrow> string res) \<Rightarrow> string \<Rightarrow> int
    \<Rightarrow> lock_snapshot list res" where
  "lockfile_snapshots commits contents base64 repo n =
     (case commits (commits_url repo) of
        Inl e \<Rightarrow> Inl e
      | Inr cs \<Rightarrow>
          if length cs = 0 then Inl (Msg ''no package-lock.json history'')
          else (case spread (length cs) n of
                  Inl e \<Rightarrow> Inl e
                | Inr idx \<Rightarrow> Inr (List.map_filter (\<lambda>i. snapshot_of contents base64 repo (cs ! i)) idx)))"

text \<open>The whole measurement: the repositories in the order in which they finish, over one cache of timelines.\<close>

fun snapshots_loop :: "(string \<Rightarrow> spike_lock res) \<Rightarrow> (string \<Rightarrow> (string \<times> int) list option) \<Rightarrow> string \<Rightarrow> lock_snapshot list
    \<Rightarrow> spike_outcome list \<times> (string, spike_release list) gomap \<Rightarrow> spike_outcome list \<times> (string, spike_release list) gomap" where
  "snapshots_loop unmarshal fetch repo [] (outcomes, cache) = (outcomes, cache)"
| "snapshots_loop unmarshal fetch repo (sn # sns) (outcomes, cache) =
     (case evaluate unmarshal fetch repo sn cache of
        (found, cache) \<Rightarrow> snapshots_loop unmarshal fetch repo sns (outcomes @ found, cache))"

fun repos_loop :: "(string \<Rightarrow> spike_lock res) \<Rightarrow> (string \<Rightarrow> (string \<times> int) list option) \<Rightarrow> (string \<Rightarrow> lock_snapshot list res) \<Rightarrow> string list
    \<Rightarrow> spike_outcome list \<times> (string, spike_release list) gomap \<Rightarrow> (spike_outcome list \<times> (string, spike_release list) gomap) res" where
  "repos_loop unmarshal fetch snapshots_in [] st = Inr st"
| "repos_loop unmarshal fetch snapshots_in (repo # repos) st =
     (case snapshots_in repo of
        Inl e \<Rightarrow> if e = spread_panic then Inl e else repos_loop unmarshal fetch snapshots_in repos st
      | Inr sns \<Rightarrow> repos_loop unmarshal fetch snapshots_in repos (snapshots_loop unmarshal fetch repo sns st))"

subsection \<open>The report\<close>

record spike_report =
  rp_triples :: nat
  rp_skipped :: "(verdict \<times> nat) list"
  rp_comparable :: nat
  rp_agree :: nat
  rp_disagree :: nat
  rp_rate :: "rat option"
  rp_newer :: nat
  rp_older :: nat
  rp_samples :: "spike_outcome list"

definition count_verdict :: "verdict \<Rightarrow> spike_outcome list \<Rightarrow> nat" where
  "count_verdict v os = length (List.filter (\<lambda>x. oc_verdict x = v) os)"

text \<open>Whether the canonical version of a disagreement is above the locked one; none when either does not parse.\<close>

definition direction :: "spike_outcome \<Rightarrow> bool option" where
  "direction x =
     (case (parse (oc_canonical x), parse (tr_resolved (oc_triple x))) of
        (Inr c, Inr w) \<Rightarrow> Some (compare c w > 0)
      | _ \<Rightarrow> None)"

definition spike_report_of :: "spike_outcome list \<Rightarrow> spike_report" where
  "spike_report_of os =
     (let agreed = count_verdict Agree os; disagreed = count_verdict Disagree os; decided = agreed + disagreed;
          skipped = List.filter (\<lambda>(v, n). n > 0)
            (List.map (\<lambda>v. (v, count_verdict v os)) [SkipUnresolvableRange, SkipNoTimeline, SkipUnparseable, SkipNoCandidate]);
          differing = List.filter (\<lambda>x. oc_verdict x = Disagree) os in
      if decided = 0
      then \<lparr>rp_triples = length os, rp_skipped = skipped, rp_comparable = 0, rp_agree = 0, rp_disagree = 0, rp_rate = None,
        rp_newer = 0, rp_older = 0, rp_samples = []\<rparr>
      else \<lparr>rp_triples = length os, rp_skipped = skipped, rp_comparable = decided, rp_agree = agreed, rp_disagree = disagreed,
        rp_rate = Some (of_nat agreed / of_nat decided * 100),
        rp_newer = length (List.filter (\<lambda>x. direction x = Some True) differing),
        rp_older = length (List.filter (\<lambda>x. direction x = Some False) differing),
        rp_samples = take 12 differing\<rparr>)"

definition measure_agreement :: "string \<Rightarrow> (string \<Rightarrow> spike_lock res) \<Rightarrow> (string \<Rightarrow> (string \<times> int) list option)
    \<Rightarrow> (string \<Rightarrow> int \<Rightarrow> lock_snapshot list res) \<Rightarrow> (string list \<Rightarrow> string list) \<Rightarrow> string list \<Rightarrow> int \<Rightarrow> spike_report res" where
  "measure_agreement token unmarshal fetch snapshots_in arrive repos per_repo =
     (if token = [] then Inl (Msg ''no GitHub token; run gh auth login'')
      else case repos_loop unmarshal fetch (\<lambda>repo. snapshots_in repo per_repo) (arrive repos) ([], []) of
          Inl e \<Rightarrow> Inl e
        | Inr (outcomes, cache) \<Rightarrow> Inr (spike_report_of outcomes))"

subsection \<open>Looking up a dependency\<close>

lemma last_index_None_iff: "last_index p s = None \<longleftrightarrow> \<not> contains_str s p"
  by (induction p s rule: last_index.induct) (auto simp: contains_str_def split: option.splits)

text \<open>A name of a directory of packages: the separator begins nowhere in it nor at the slash before it.\<close>

definition whole_name :: "string \<Rightarrow> bool" where
  "whole_name p \<longleftrightarrow> \<not> contains_str (''/'' @ p) ''/node_modules/''"

definition scope_path :: "string \<Rightarrow> string list \<Rightarrow> string" where
  "scope_path base ps = base @ concat (List.map (\<lambda>p. ''/node_modules/'' @ p) ps)"

text \<open>Where a package nested in \<open>ps\<close> under \<open>base\<close> looks, from the inside out.\<close>

definition enclosing :: "string \<Rightarrow> string list \<Rightarrow> string \<Rightarrow> string list" where
  "enclosing base ps dep = List.map (\<lambda>k. scope_path base (take k ps @ [dep])) (rev [0..<length ps + 1]) @ [''node_modules/'' @ dep]"

lemma last_index_separator:
  assumes "whole_name p"
  shows "last_index ''/node_modules/'' (s @ ''/node_modules/'' @ p) = Some (length s)"
proof (induction s)
  case Nil
  have "last_index ''/node_modules/'' (''/'' @ p) = None" using assms unfolding whole_name_def last_index_None_iff .
  then show ?case by simp
qed simp

lemma scope_path_snoc: "scope_path base (ps @ [p]) = scope_path base ps @ ''/node_modules/'' @ p"
  by (simp add: scope_path_def)

lemma enclosing_snoc: "enclosing base (ps @ [p]) dep = scope_path base (ps @ [p, dep]) # enclosing base ps dep"
  by (simp add: enclosing_def del: upt_Suc) (simp add: upt_Suc_append)

text \<open>C38: A dependency resolves to the innermost copy that is installed: that of the package itself, else of the package around
  it, and so on outwards, and last the one at the root of the lockfile; and to nothing exactly when no enclosing package has it.\<close>

theorem lookup_is_nearest:
  assumes "list_all whole_name ps" "base \<noteq> []" "\<not> contains_str base ''/node_modules/''"
  shows "lookup_from versions (scope_path base ps) dep =
    (case List.find (has_key versions) (enclosing base ps dep) of None \<Rightarrow> None | Some path \<Rightarrow> map_of versions path)"
proof -
  have at_end: "lookup_from versions [] dep = map_of versions (''node_modules/'' @ dep)"
    by (subst lookup_from.simps) (simp split: option.splits)
  have key: "has_key versions x = (map_of versions x \<noteq> None)" for x
    by (simp add: has_key_iff keys_def map_of_eq_None_iff)
  show ?thesis using assms(1)
  proof (induction ps rule: rev_induct)
    case Nil
    have "last_index ''/node_modules/'' base = None" using assms(3) by (simp add: last_index_None_iff)
    then show ?case
      using assms(2) by (subst lookup_from.simps) (simp add: scope_path_def enclosing_def at_end key split: option.splits)
  next
    case (snoc p ps)
    have i: "last_index ''/node_modules/'' (scope_path base (ps @ [p])) = Some (length (scope_path base ps))"
      unfolding scope_path_snoc by (rule last_index_separator) (use snoc.prems in simp)
    have t: "take (length (scope_path base ps)) (scope_path base (ps @ [p])) = scope_path base ps"
      "scope_path base (ps @ [p]) \<noteq> []" "scope_path base (ps @ [p, dep]) = scope_path base (ps @ [p]) @ ''/node_modules/'' @ dep"
      using assms(2) by (simp_all add: scope_path_def)
    have hit: "has_key versions (scope_path base (ps @ [p, dep])) = (map_of versions (scope_path base (ps @ [p, dep])) \<noteq> None)" by (rule key)
    have step: "lookup_from versions (scope_path base (ps @ [p])) dep =
        (case map_of versions (scope_path base (ps @ [p, dep])) of Some v \<Rightarrow> Some v | None \<Rightarrow> lookup_from versions (scope_path base ps) dep)"
      by (subst lookup_from.simps) (simp only: i t option.case if_False)
    show ?case
      using snoc.IH snoc.prems hit unfolding enclosing_snoc step by (cases "map_of versions (scope_path base (ps @ [p, dep]))") simp_all
  qed
qed


text \<open>A copy nested one level out is found before the one at the root.\<close>

theorem lookup_is_nearest_witness:
  "lookup_from [(''node_modules/d'', ''1.0.0''), (''node_modules/@s/a/node_modules/d'', ''2.0.0'')] ''node_modules/@s/a/node_modules/b'' ''d''
     = Some ''2.0.0''"
proof -
  let ?m = "[(''node_modules/d'', ''1.0.0''), (''node_modules/@s/a/node_modules/d'', ''2.0.0'')]"
  have "list_all whole_name [''b'']" "\<not> contains_str ''node_modules/@s/a'' ''/node_modules/''"
    by (simp_all add: whole_name_def contains_str_def)
  from lookup_is_nearest [OF this(1) _ this(2), of ?m "''d''"] show ?thesis
    by (simp add: scope_path_def enclosing_def has_key_iff keys_def)
qed

subsection \<open>What the measurement measures\<close>

lemma spike_releases_set:
  "set (spike_releases body) = {\<lparr>sp_version = v, sp_published = t\<rparr> | s v t. (s, t) \<in> set body \<and> parse s = Inr v}"
proof -
  let ?f = "\<lambda>(s, t). case parse s of Inl e \<Rightarrow> None | Inr v \<Rightarrow> Some \<lparr>sp_version = v, sp_published = t\<rparr>"
  have f: "?f p = Some x \<longleftrightarrow> (\<exists>v. parse (fst p) = Inr v \<and> x = \<lparr>sp_version = v, sp_published = snd p\<rparr>)" for p x
    by (cases p; cases "parse (fst p)") auto
  show ?thesis
  proof (rule set_eqI)
    fix x show "x \<in> set (spike_releases body) \<longleftrightarrow> x \<in> {\<lparr>sp_version = v, sp_published = t\<rparr> | s v t. (s, t) \<in> set body \<and> parse s = Inr v}"
      unfolding spike_releases_def set_sort_slice set_map_filter mem_Collect_eq f by (metis fst_conv prod.collapse snd_conv)
  qed
qed

lemma published_admissible:
  assumes "list_all (\<lambda>(s, t). t > 0) body"
  shows "{v \<in> set (published_by now (spike_releases body)). satisfies r v} =
    snd ` admissible (List.map (\<lambda>(s, t). \<lparr>rversion = s, published_at = t\<rparr>) body) r now"
  using assms by (force simp: published_by_def spike_releases_set admissible_def list_all_iff)

lemma published_canonical:
  assumes "sane_releases (List.map (\<lambda>(s, t). \<lparr>rversion = s, published_at = t\<rparr>) body)" "v \<in> set (published_by now (spike_releases body))"
  shows "canonical v"
  using assms by (fastforce simp: published_by_def spike_releases_set sane_releases_def list_all_iff)

lemma published_pick:
  assumes "sane_releases (List.map (\<lambda>(s, t). \<lparr>rversion = s, published_at = t\<rparr>) body)" "list_all (\<lambda>(s, t). t > 0) body"
    and "(s, v) \<in> admissible (List.map (\<lambda>(s, t). \<lparr>rversion = s, published_at = t\<rparr>) body) r now"
    and "\<forall>(s, u) \<in> admissible (List.map (\<lambda>(s, t). \<lparr>rversion = s, published_at = t\<rparr>) body) r now. compare u v \<le> 0"
  shows "\<exists>best. max_satisfying (published_by now (spike_releases body)) r = Some best \<and> best\<lparr>build := []\<rparr> = v\<lparr>build := []\<rparr>"
proof -
  let ?vs = "published_by now (spike_releases body)"
  note adm = published_admissible [OF assms(2), of now r]
  have "v \<in> {u \<in> set ?vs. satisfies r u}" unfolding adm using assms(3) by (rule rev_image_eqI) simp
  then have v: "v \<in> set ?vs" "satisfies r v" by simp_all
  have can: "\<And>u. u \<in> set ?vs \<Longrightarrow> canonical u" by (rule published_canonical [OF assms(1)])
  obtain best where best: "max_satisfying ?vs r = Some best"
    using v by (cases "max_satisfying ?vs r") (auto simp: max_satisfying_def max_loop_None)
  have max: "best \<in> set ?vs" "satisfies r best" "\<And>u. u \<in> set ?vs \<Longrightarrow> satisfies r u \<Longrightarrow> version_key u \<le> version_key best"
    by (rule max_satisfying_key [OF _ best]; use can in simp)+
  have "best \<in> snd ` admissible (List.map (\<lambda>(s, t). \<lparr>rversion = s, published_at = t\<rparr>) body) r now"
    using max(1,2) unfolding adm [symmetric] by simp
  then have "compare best v \<le> 0" using assms(4) by auto
  then have "version_key best \<le> version_key v" using can [OF max(1)] can [OF v(1)] by (simp only: compare_simps)
  moreover have "version_key v \<le> version_key best" by (rule max(3) [OF v])
  ultimately show ?thesis using best version_key_eq [OF can [OF max(1)] can [OF v(1)]] by simp
qed

lemma compare_build: "v\<lparr>build := []\<rparr> = w\<lparr>build := []\<rparr> \<Longrightarrow> compare v u = compare w u"
  by (cases v; cases w) (simp add: compare_def)

text \<open>C39: Over releases that all have a publish time, the measurement judges exactly the windows the resolver would write: a triple
  has no candidate when none of them is open at its date, and when one is, the canonical version is the one it names, up to
  build metadata, and the triple agrees exactly when that version equals the locked one.\<close>

theorem spike_judges_windows:
  assumes "parse_range (tr_range t) = Inr r" "\<not> is_any r"
    and "sane_releases (List.map (\<lambda>(s, p). \<lparr>rversion = s, published_at = p\<rparr>) body)" "list_all (\<lambda>(s, p). p > 0) body"
    and "tr_when t < open_interval" "declared_at \<le> tr_when t"
  defines "ws \<equiv> set (windows (List.map (\<lambda>(s, p). \<lparr>rversion = s, published_at = p\<rparr>) body) r declared_at)"
    and "o1 \<equiv> resolve_one (\<lambda>name. spike_releases body) t"
  shows "(oc_verdict o1 \<in> {SkipNoTimeline, SkipNoCandidate} \<longleftrightarrow> \<not> (\<exists>w \<in> ws. in_window (tr_when t) w))
    \<and> (\<forall>w \<in> ws. in_window (tr_when t) w \<longrightarrow> (\<exists>v best. parse (wversion w) = Inr v \<and> oc_canonical o1 = to_string best
         \<and> best\<lparr>build := []\<rparr> = v\<lparr>build := []\<rparr>
         \<and> (oc_verdict o1 = Agree \<longleftrightarrow> (\<exists>u. parse (tr_resolved t) = Inr u \<and> compare v u = 0))))"
proof (intro conjI ballI impI)
  let ?rels = "List.map (\<lambda>(s, p). \<lparr>rversion = s, published_at = p\<rparr>) body"
  let ?vs = "published_by (tr_when t) (spike_releases body)"
  note pick = windows_pick [OF assms(3,5), of declared_at r, folded ws_def]
  have open_iff: "(\<exists>w \<in> ws. in_window (tr_when t) w) \<longleftrightarrow> max_satisfying ?vs r \<noteq> None"
    using pick assms(6) published_admissible [OF assms(4), of "tr_when t" r] by (auto simp: max_satisfying_def max_loop_None)
  have "spike_releases body = [] \<Longrightarrow> max_satisfying ?vs r = None"
    by (simp add: published_by_def max_satisfying_def)
  then show "oc_verdict o1 \<in> {SkipNoTimeline, SkipNoCandidate} \<longleftrightarrow> \<not> (\<exists>w \<in> ws. in_window (tr_when t) w)"
    unfolding open_iff o1_def using assms(1,2) by (auto simp: resolve_one_def Let_def split: option.splits sum.splits)
  fix w assume w: "w \<in> ws" "in_window (tr_when t) w"
  then obtain v where v: "(wversion w, v) \<in> admissible ?rels r (tr_when t)"
    "\<forall>(s, u) \<in> admissible ?rels r (tr_when t). compare u v \<le> 0"
    using pick assms(6) by blast
  obtain best where best: "max_satisfying ?vs r = Some best" "best\<lparr>build := []\<rparr> = v\<lparr>build := []\<rparr>"
    using published_pick [OF assms(3,4) v] by blast
  have "spike_releases body \<noteq> []" using best by (auto simp: published_by_def max_satisfying_def)
  then have "oc_canonical o1 = to_string best" "oc_verdict o1 = Agree \<longleftrightarrow> (\<exists>u. parse (tr_resolved t) = Inr u \<and> compare best u = 0)"
    using assms(1,2) best unfolding o1_def by (auto simp: resolve_one_def Let_def split: sum.splits)
  moreover have "parse (wversion w) = Inr v" using v(1) by (auto simp: admissible_def)
  ultimately show "\<exists>v best. parse (wversion w) = Inr v \<and> oc_canonical o1 = to_string best \<and> best\<lparr>build := []\<rparr> = v\<lparr>build := []\<rparr>
      \<and> (oc_verdict o1 = Agree \<longleftrightarrow> (\<exists>u. parse (tr_resolved t) = Inr u \<and> compare v u = 0))"
    using best(2) compare_build [OF best(2)] by auto
qed


lemma spike_versions: "parse ''1.0.0'' = Inr (rver 1 0 0)" "parse ''1.1.0'' = Inr (rver 1 1 0)" "parse ''2.0.0'' = Inr (rver 2 0 0)"
  by (simp_all add: parse_eval)

theorem spike_judges_windows_witness:
  "oc_verdict (resolve_one (\<lambda>name. spike_releases [(''1.0.0'', 100), (''2.0.0'', 300), (''1.1.0'', 200)])
      \<lparr>tr_repo = [], tr_when = 350, tr_dep = ''d'', tr_range = ''^'' @ core 1 0 0, tr_resolved = ''1.1.0''\<rparr>) = Agree"
proof -
  let ?body = "[(''1.0.0'', 100), (''2.0.0'', 300), (''1.1.0'', 200)]"
  let ?t = "\<lparr>tr_repo = [], tr_when = 350, tr_dep = ''d'', tr_range = ''^'' @ core 1 0 0, tr_resolved = ''1.1.0''\<rparr>"
  let ?rels = "List.map (\<lambda>(s, p). \<lparr>rversion = s, published_at = p\<rparr>) ?body"
  let ?r = "\<lparr>rsets = [[cmp OpGTE (vers 1 0 0 []), cmp OpLT (vers 2 0 0 [''0''])]], raw = ''^'' @ core 1 0 0\<rparr>"
  let ?w = "\<lparr>wversion = ''1.1.0'', wfrom = 200, wto = open_interval\<rparr>"
  have r: "parse_range (tr_range ?t) = Inr ?r" "\<not> is_any ?r" using parse_caret [of 1 0 0] by (simp_all add: is_any_def)
  have sane: "sane_releases ?rels" by (simp add: sane_releases_def spike_versions canonical_def open_interval_def)
  have pos: "list_all (\<lambda>(s, p). p > (0 :: int)) ?body" by simp
  have bounds: "tr_when ?t < open_interval" "(150 :: int) \<le> tr_when ?t" by (simp_all add: open_interval_def)
  have w: "?w \<in> set (windows ?rels ?r 150)" "in_window (tr_when ?t) ?w"
    by (simp_all add: windows_def spike_versions satisfies_eval publish_less_def window_step_def open_window_def
        clamp_def clamp_one_def open_interval_def mentions_def)
  show ?thesis
    using spike_judges_windows [OF r sane pos bounds, THEN conjunct2, rule_format, OF w]
    by (auto simp: spike_versions compare_def cmp_uint_def compare_pre_def)
qed

subsection \<open>Sampling and reporting\<close>

lemma spread_step:
  assumes "1 < n" "n < (len :: nat)"
  shows "i * (len - 1) div (n - 1) < Suc i * (len - 1) div (n - 1)"
proof -
  have "i * (len - 1) div (n - 1) < (i * (len - 1) + (n - 1)) div (n - 1)"
    using assms div_add_self2 [of "n - 1" "i * (len - 1)"] by linarith
  also have "\<dots> \<le> Suc i * (len - 1) div (n - 1)" using assms by (intro div_le_mono) simp
  finally show ?thesis .
qed

text \<open>The commits sampled are as many as asked for, strictly ascending and in range, from the newest to the oldest.\<close>

lemma spread_samples:
  assumes "1 < n" "n < len"
  shows "\<exists>out. spread len (int n) = Inr out \<and> length out = n \<and> sorted_wrt (<) out \<and> hd out = 0 \<and> last out = len - 1"
proof -
  let ?f = "\<lambda>i. i * (len - 1) div (n - 1)"
  have mono: "?f i < ?f j" if "i < j" for i j
    using lift_Suc_mono_less [of ?f, OF spread_step [OF assms] that] .
  have sorted: "sorted_wrt (<) (List.map ?f [0..<n])"
    using mono by (simp add: sorted_wrt_iff_nth_less)
  then have "distinct (List.map ?f [0..<n])" by (simp add: strict_sorted_iff)
  then have "remdups_adj (List.map ?f [0..<n]) = List.map ?f [0..<n]" by (rule remdups_adj_distinct)
  moreover have "max 1 (n - 1) = n - 1" using assms by simp
  ultimately have "spread len (int n) = Inr (List.map ?f [0..<n])" using assms by (simp add: spread_def)
  moreover have "last (List.map ?f [0..<n]) = len - 1" using assms by (simp add: last_map)
  moreover have "hd (List.map ?f [0..<n]) = 0" using assms by (simp add: hd_map)
  ultimately show ?thesis using sorted by auto
qed

lemma count_verdict_all:
  "length os = count_verdict Agree os + count_verdict Disagree os + count_verdict SkipUnresolvableRange os
     + count_verdict SkipNoTimeline os + count_verdict SkipUnparseable os + count_verdict SkipNoCandidate os"
proof (induction os)
  case (Cons x os)
  then show ?case by (cases "oc_verdict x") (simp_all add: count_verdict_def)
qed (simp add: count_verdict_def)

text \<open>Every triple is accounted for, in the comparable ones or under the reason it was skipped for.\<close>

lemma report_accounts: "rp_triples (spike_report_of os) = rp_comparable (spike_report_of os) + sum_list (List.map snd (rp_skipped (spike_report_of os)))"
proof -
  have "sum_list (List.map snd (List.filter (\<lambda>(v, n). n > 0) vs)) = sum_list (List.map snd vs)" for vs :: "(verdict \<times> nat) list"
    by (induction vs) auto
  then show ?thesis using count_verdict_all [of os] by (simp add: spike_report_of_def Let_def)
qed

end
