(* ===== verification/Spec2Isabelle.thy ===== *)
theory Spec2Isabelle
  imports Prelude GoText Interval Identity Semver SemverRange Windows GraphDb Reach Expander Keyholders Risk Checkpoint Resolve Registry Ingest
    Typosquat Sketch Observatory Lockfile Advisory Incident GoQuote Who Proof View
    Config Names Dates Commands Batch Report Api Spike
begin

text \<open>
  \<^bold>\<open>keyholders\<close> answers which accounts can run code in a project. It keeps a graph of npm in HydraDB: packages, their
  versions, the maintainers who may publish them, advisories, and the projects that were scanned. Edges carry the interval of
  time in which they held, and a version counts as reached only when all the edges that lead to it held at one instant.

  \<^bold>\<open>The program's parts.\<close>
  \<^enum> \<open>ingest\<close> fetches timelines, documents and dependency lists through \<open>internal/registry\<close> and writes packages, versions,
    declarations and spells of maintenance (\<open>internal/ingest\<close>); a \<open>checkpoint\<close> file lets it resume.
  \<^enum> \<open>resolve\<close> turns each declared range into the windows of time in which it resolved to a version
    (\<open>internal/resolve\<close>, \<open>internal/semver\<close>) and writes them as \<open>RESOLVES_TO\<close> edges, with the same checkpoints.
  \<^enum> \<open>advisories\<close> and \<open>typosquats\<close> add advisories and look-alikes; \<open>observatory\<close> writes, for every quarter, the edges between
    packages and the reach of every package and account, estimated with HyperLogLog (\<open>internal/sketch\<close>).
  \<^enum> \<open>scan\<close>, \<open>path\<close>, \<open>who\<close>, \<open>incident\<close> and \<open>ci-check\<close> read a lockfile (\<open>internal/lockfile\<close>), search the graph
    (\<open>internal/query\<close>, \<open>internal/incident\<close>) and print what they find; \<open>internal/api\<close> serves the same over HTTP.
  \<^enum> \<open>cmd/spike-resolve\<close> measures how well ranges can be resolved for the past from public data.

  \<^bold>\<open>Theories, from the bottom up\<close>, each over those it imports.
  \<^item> \<open>Prelude\<close>: errors as values, Go maps as association lists, \<open>sort.Slice\<close> with its contract as a locale.
    \<open>GoText\<close>, \<open>GoQuote\<close> and \<open>Dates\<close>: the functions of \<open>strings\<close>, \<open>strconv\<close>, \<open>fmt\<close> and \<open>time\<close> that are used.
  \<^item> \<open>Interval\<close>: \<open>graph/interval.go\<close> and \<open>query/interval.go\<close>. \<open>Identity\<close>: URNs and their hashes, \<open>graph/id.go\<close>.
    \<open>Semver\<close>, \<open>SemverRange\<close>: \<open>internal/semver\<close>. \<open>Windows\<close>: \<open>resolve/windows.go\<close>.
  \<^item> \<open>GraphDb\<close> and \<open>Config\<close>: \<open>graph/client.go\<close> (batched writes with retries; opening, querying, closing) and \<open>internal/config\<close>.
  \<^item> \<open>Reach\<close>: the search of \<open>query/reach.go\<close>. \<open>Expander\<close>: how it reads edges. \<open>Keyholders\<close>: roster and cuts,
    \<open>query/audit.go\<close> and \<open>cut.go\<close>. \<open>Risk\<close>: signals, score and the audit as a whole. \<open>Who\<close>, \<open>Proof\<close>, \<open>View\<close>: the
    search backwards, the proof paths, and the shapes shown and recorded.
  \<^item> \<open>Checkpoint\<close>, \<open>Resolve\<close>, \<open>Registry\<close>, \<open>Ingest\<close>: the pipeline that builds the graph.
  \<^item> \<open>Typosquat\<close>, \<open>Sketch\<close>, \<open>Observatory\<close>, \<open>Lockfile\<close>, \<open>Advisory\<close>, \<open>Incident\<close>: the packages of these names.
  \<^item> \<open>Names\<close>, \<open>Batch\<close>, \<open>Commands\<close>, \<open>Report\<close>: \<open>cmd/keyholders\<close>, the list of names, the commands that build, the commands that
    ask, and what they print; \<open>Report\<close> also has \<open>cmd/bench-graph-size\<close>. \<open>Api\<close>: every handler and the routes. \<open>Spike\<close>: the measurement.

  \<^bold>\<open>State and effects.\<close> A text is a byte string, an instant a number of seconds, a 64 bit number a word where its overflow is
  visible. A function that returns an error returns \<open>err + 'a\<close>; a panic is an error value. The database is a function from the
  text of a statement to records for reads, and for writes a step on a state \<open>'w\<close> that may fail, whose contract is the locale
  \<open>merge_store\<close>; white space between the lines of a statement is one blank. A Go map is an association list in the order of
  insertion, and theorems hold for any order. Goroutines that fetch or read are an order of arrival, a permutation given as a
  parameter; writers are sequential as in the code.

  \<^bold>\<open>What the lemmas show.\<close>
  \<^item> The search: a node is reached over exactly the instants at which a walk of edges all open then leads to it, within the
    depth; it ends. An account is on the roster exactly when it held rights over a package reached then; cuts are what removing
    its packages loses; the audit lists the roster once, by falling score, and answers whenever the database does.
  \<^item> The graph: windows are the resolution at every instant, rows of a target are those of its declarations, spells are the
    observed presence. Whatever stops a run, a name is recorded only after its rows are in the graph, and nodes come before edges.
  \<^item> The sources: comparison of versions is a total preorder, ranges admit what they should, parsers read back what is printed,
    lockfiles come out normalised, affected versions are those the events say.
  \<^item> The observatory: an epoch over exact sets ends in reachability; sketches merge as unions; accounts are credited with what
    their packages lead to; a run writes each epoch from that epoch's edges alone.
  \<^item> The surfaces: what the gate fails on, what the API streams and samples, that the endpoints and the commands agree, that a
    report names its own bounds, that the measurement judges the very windows the resolver writes.
  \<^item> Where the code departs from its comments or from what it means to do, a lemma exhibits the case.

  \<^bold>\<open>Interfaces\<close> are locales, each interpreted on the model: the order a sort is given, the source of edges of a search, the
  reader of paths, the store that merges rows, the source of maintainers, the kind of sketch, the answers of a database.

  \<^bold>\<open>Bounds and fuel.\<close> They are the code's: 20,000 paths per query and 256 sources per statement, 3 attempts per
  chunk and per request, 1,024 rows per statement, flushes at 2,048 rows, 64 paths per proof, depth 12 for exposure, 64 KiB per
  line of a list of names and 64 MiB per upload. The passes of a search recurse on the depth that is left, which the code bounds
  too. The rounds of an epoch and the pages of a registry may run on: they are partial functions, and that an epoch over exact
  sets or over HyperLogLog ends is a theorem.

  \<^bold>\<open>Not modelled.\<close> \<open>cmd/probe\<close> is a set of timing experiments against a running server and has no result to state. The web
  interface under \<open>web\<close> is not Go. The Bolt driver, HTTP, JSON, zip, base64, SHA-256, the file system and the clock are parameters;
  so are the text of floating point numbers and the alignment of tables. Cancellation, progress on standard error, log lines,
  durations and counters of round trips are left out.
\<close>

end
